(* ===== verification/Nmp_Prelude.thy ===== *)
theory Nmp_Prelude
  imports Main
    "HOL-Library.Word" "HOL-Library.Multiset" "HOL-Library.FSet" "HOL-Library.Finite_Map"
    "HOL-Library.Char_ord" "HOL-Library.List_Lexorder"
    "HOL-Library.Product_Lexorder" "HOL-Library.Option_ord"
begin

text \<open>
  Shared vocabulary of the development.

  Rust's standard collections are modelled by the library's finite containers:
  \<^item> \<open>BTreeSet<T>\<close> is \<open>'t fset\<close>, iterated with \<^const>\<open>sorted_list_of_fset\<close>;
  \<^item> \<open>BTreeMap<K, V>\<close> is \<open>('k, 'v) fmap\<close>, iterated with \<^const>\<open>sorted_list_of_fmap\<close>;
  \<^item> \<open>Vec<T>\<close> is \<open>'t list\<close>; \<open>Vec::remove\<close> is \<open>remove_nth\<close>;
  \<^item> \<open>u8\<close>, \<open>u16\<close>, \<open>u32\<close>, \<open>u64\<close> are words of that width.
  The orders of lists, options, products and characters are the lexicographic ones of the
  library, which are the orders Rust derives (\<open>None\<close> below \<open>Some\<close>, a proper prefix below its
  extensions).
\<close>

type_synonym u8 = "8 word"
type_synonym u16 = "16 word"
type_synonym u32 = "32 word"
type_synonym u64 = "64 word"
type_synonym usize = "64 word"

type_synonym relay_url = string
type_synonym public_key = string

named_theorems word_nat_simps \<open>reading saturating and checked word arithmetic in nat\<close>

section \<open>Saturating and checked arithmetic\<close>

definition sat_add :: "'a::len word \<Rightarrow> 'a word \<Rightarrow> 'a word" where
  "sat_add a b = (if unat a + unat b < 2 ^ LENGTH('a) then a + b else - 1)"

definition sat_sub :: "'a::len word \<Rightarrow> 'a word \<Rightarrow> 'a word" where
  "sat_sub a b = (if b \<le> a then a - b else 0)"

definition checked_add :: "'a::len word \<Rightarrow> 'a word \<Rightarrow> 'a word option" where
  "checked_add a b = (if unat a + unat b < 2 ^ LENGTH('a) then Some (a + b) else None)"

definition checked_sub :: "'a::len word \<Rightarrow> 'a word \<Rightarrow> 'a word option" where
  "checked_sub a b = (if b \<le> a then Some (a - b) else None)"

lemma unat_max_word: "unat (- 1 :: 'a::len word) = 2 ^ LENGTH('a) - 1"
  by (simp add: unsigned_minus_1_eq_mask mask_eq_exp_minus_1)

lemma unat_sat_add [word_nat_simps]:
  "unat (sat_add a (b :: 'a::len word)) = min (unat a + unat b) (2 ^ LENGTH('a) - 1)"
proof (cases "unat a + unat b < 2 ^ LENGTH('a)")
  case True
  then show ?thesis by (auto simp: sat_add_def unat_word_ariths)
next
  case False
  then show ?thesis by (auto simp: sat_add_def unat_max_word)
qed

lemma unat_sat_sub [word_nat_simps]: "unat (sat_sub a b) = unat a - unat b"
  by (auto simp: sat_sub_def unat_sub word_le_nat_alt)

lemma checked_add_Some_iff:
  "checked_add a (b :: 'a::len word) = Some c \<longleftrightarrow> unat c = unat a + unat b"
proof
  assume "checked_add a b = Some c"
  then show "unat c = unat a + unat b"
    by (auto simp: checked_add_def unat_word_ariths split: if_splits)
next
  assume *: "unat c = unat a + unat b"
  then have lt: "unat a + unat b < 2 ^ LENGTH('a)"
    by (metis unsigned_less)
  then have "unat (a + b) = unat c"
    using * by (simp add: unat_word_ariths)
  then have "a + b = c" by (rule unsigned_word_eqI)
  with lt show "checked_add a b = Some c" by (simp add: checked_add_def)
qed

lemma checked_add_None_iff:
  "checked_add a (b :: 'a::len word) = None \<longleftrightarrow> 2 ^ LENGTH('a) \<le> unat a + unat b"
  by (auto simp: checked_add_def)

lemma checked_sub_Some_iff:
  "checked_sub a b = Some c \<longleftrightarrow> b \<le> a \<and> c = a - b"
  by (auto simp: checked_sub_def)

section \<open>Vectors\<close>

definition remove_nth :: "nat \<Rightarrow> 'a list \<Rightarrow> 'a list" where
  "remove_nth n xs = take n xs @ drop (Suc n) xs"

lemma length_remove_nth: "n < length xs \<Longrightarrow> length (remove_nth n xs) = length xs - 1"
  by (auto simp: remove_nth_def)

lemma length_remove_nth_le: "length (remove_nth n xs) \<le> length xs"
  by (auto simp: remove_nth_def)

lemma nth_remove_nth:
  "n < length xs \<Longrightarrow> k < length xs - 1 \<Longrightarrow>
   remove_nth n xs ! k = xs ! (if k < n then k else Suc k)"
  by (auto simp: remove_nth_def nth_append min_def)

lemma mset_remove_nth:
  "n < length xs \<Longrightarrow> add_mset (xs ! n) (mset (remove_nth n xs)) = mset xs"
  by (metis remove_nth_def append_take_drop_id Cons_nth_drop_Suc mset.simps(2) mset_append
      union_mset_add_mset_right)

lemma set_remove_nth_subset: "set (remove_nth n xs) \<subseteq> set xs"
  by (auto simp: remove_nth_def dest: in_set_takeD in_set_dropD)

section \<open>Ordered sets and maps\<close>

lemma sorted_list_of_fset_inject [simp]:
  "sorted_list_of_fset s = sorted_list_of_fset t \<longleftrightarrow> s = t"
  by (metis sorted_list_of_fset_simps(2))

lemma distinct_sorted_list_of_fset [simp]: "distinct (sorted_list_of_fset s)"
  by (simp add: sorted_list_of_fset.rep_eq)

lemma sorted_sorted_list_of_fset [simp]: "sorted (sorted_list_of_fset s)"
  by (simp add: sorted_list_of_fset.rep_eq)

lemma length_sorted_list_of_fset [simp]: "length (sorted_list_of_fset s) = fcard s"
  by (simp add: sorted_list_of_fset.rep_eq fcard.rep_eq)

lemma sorted_list_of_fset_finsert [simp]:
  "sorted_list_of_fset (finsert x s) = insort x (sorted_list_of_fset (s |-| {|x|}))"
  by (simp add: sorted_list_of_fset.rep_eq)

lemma sorted_list_of_fset_empty [simp]: "sorted_list_of_fset {||} = []"
  by (simp add: sorted_list_of_fset.rep_eq)

lemma sorted_list_of_fmap_inject [simp]:
  "sorted_list_of_fmap m = sorted_list_of_fmap n \<longleftrightarrow> m = n"
  by (metis map_of_sorted_list fmlookup_inject)

lemma set_sorted_list_of_fmap:
  "set (sorted_list_of_fmap m) = {(k, v). fmlookup m k = Some v}"
  by (force simp: sorted_list_of_fmap_def fmlookup_dom_iff image_iff)

lemma map_fst_sorted_list_of_fmap [simp]:
  "map fst (sorted_list_of_fmap m) = sorted_list_of_fset (fmdom m)"
  by (simp add: sorted_list_of_fmap_def o_def)

lemma distinct_map_fst_sorted_list_of_fmap: "distinct (map fst (sorted_list_of_fmap m))"
  by simp

text \<open>\<open>entry(k).and_modify(f).or_insert(d)\<close>.\<close>

definition fm_upsert :: "'k \<Rightarrow> ('v \<Rightarrow> 'v) \<Rightarrow> 'v \<Rightarrow> ('k, 'v) fmap \<Rightarrow> ('k, 'v) fmap" where
  "fm_upsert k f d m = fmupd k (case fmlookup m k of None \<Rightarrow> d | Some v \<Rightarrow> f v) m"

lemma fmlookup_fm_upsert:
  "fmlookup (fm_upsert k f d m) x =
     (if x = k then Some (case fmlookup m k of None \<Rightarrow> d | Some v \<Rightarrow> f v) else fmlookup m x)"
  by (simp add: fm_upsert_def)

lemma fmdom_fm_upsert [simp]: "fmdom (fm_upsert k f d m) = finsert k (fmdom m)"
  by (simp add: fm_upsert_def)

lemma fmran'_fm_upsert_iff:
  "v \<in> fmran' (fm_upsert k f d m) \<longleftrightarrow>
     v = (case fmlookup m k of None \<Rightarrow> d | Some w \<Rightarrow> f w) \<or>
     (\<exists>x. x \<noteq> k \<and> fmlookup m x = Some v)"
  by (auto simp: fmlookup_ran'_iff fmlookup_fm_upsert split: if_splits)

text \<open>The values of an ordered map, in key order (\<open>BTreeMap::into_values\<close>).\<close>

definition fm_values :: "('k::linorder, 'v) fmap \<Rightarrow> 'v list" where
  "fm_values m = map snd (sorted_list_of_fmap m)"

lemma set_fm_values: "set (fm_values m) = {v. \<exists>k. fmlookup m k = Some v}"
  by (force simp: fm_values_def set_sorted_list_of_fmap)

text \<open>
  \<open>iter().filter_map(..).collect::<BTreeMap<_, _>>()\<close> over an ordered map and over an ordered set,
  where the closure keeps the key.
\<close>

definition fm_filter_map ::
  "('k::linorder \<Rightarrow> 'v \<Rightarrow> 'w option) \<Rightarrow> ('k, 'v) fmap \<Rightarrow> ('k, 'w) fmap" where
  "fm_filter_map g m =
     fold (\<lambda>(k, v) acc. case g k v of None \<Rightarrow> acc | Some w \<Rightarrow> fmupd k w acc)
       (sorted_list_of_fmap m) fmempty"

definition fs_filter_map :: "('k::linorder \<Rightarrow> 'w option) \<Rightarrow> 'k fset \<Rightarrow> ('k, 'w) fmap" where
  "fs_filter_map g s =
     fold (\<lambda>k acc. case g k of None \<Rightarrow> acc | Some w \<Rightarrow> fmupd k w acc)
       (sorted_list_of_fset s) fmempty"

lemma fmlookup_fold_filter_map:
  "distinct (map fst xs) \<Longrightarrow>
   fmlookup (fold (\<lambda>(k, v) acc. case g k v of None \<Rightarrow> acc | Some w \<Rightarrow> fmupd k w acc) xs acc) k =
     (case Option.bind (map_of xs k) (g k) of None \<Rightarrow> fmlookup acc k | Some w \<Rightarrow> Some w)"
proof (induction xs arbitrary: acc)
  case (Cons x xs)
  obtain k' v' where x: "x = (k', v')" by (cases x)
  have "map_of xs k' = None" using Cons.prems x by (simp add: map_of_eq_None_iff)
  then show ?case using Cons x by (auto split: option.splits)
qed simp

lemma map_of_sorted_list_of_fmap: "map_of (sorted_list_of_fmap m) k = fmlookup m k"
  using map_of_eq_Some_iff[OF distinct_map_fst_sorted_list_of_fmap, of m k]
  by (cases "fmlookup m k"; cases "map_of (sorted_list_of_fmap m) k")
    (auto simp: set_sorted_list_of_fmap)

lemma fmlookup_fm_filter_map [simp]:
  "fmlookup (fm_filter_map g m) k = Option.bind (fmlookup m k) (g k)"
  unfolding fm_filter_map_def
  by (simp add: fmlookup_fold_filter_map[OF distinct_map_fst_sorted_list_of_fmap]
      map_of_sorted_list_of_fmap split: option.split)

lemma fmlookup_fs_filter_map [simp]:
  "fmlookup (fs_filter_map g s) k = (if k |\<in>| s then g k else None)"
proof -
  have "fmlookup (fold (\<lambda>k acc. case g k of None \<Rightarrow> acc | Some w \<Rightarrow> fmupd k w acc) xs acc) k =
      (if k \<in> set xs \<and> g k \<noteq> None then g k else fmlookup acc k)" for xs acc
    by (induction xs arbitrary: acc) (auto split: option.splits)
  then show ?thesis by (simp add: fs_filter_map_def)
qed

lemma fmember_ffUnion_image [simp]: "x |\<in>| ffUnion (f |`| S) \<longleftrightarrow> (\<exists>y. y |\<in>| S \<and> x |\<in>| f y)"
  by (induction S) auto

lemma fmember_fset_of_list [simp]: "x |\<in>| fset_of_list xs \<longleftrightarrow> x \<in> set xs"
  by (simp add: fset_of_list.rep_eq)

end
