(* ===== verification/Grammar_Filter.thy ===== *)
theory Grammar_Filter
  imports Nmp_Prelude
begin

text \<open>
  The value types of \<open>crates/nmp-grammar\<close> that the router and the store exchange:
  \<open>ConcreteFilter\<close>, \<open>ReadRouting\<close>, \<open>RelaySessionKey\<close>, \<open>RoutingEvidence\<close> and
  \<open>ContextualAtom\<close> with the orders Rust derives for them, the \<open>CoverageKey\<close> of
  \<open>crates/nmp-store/src/coverage.rs\<close>, the claim projection of
  \<open>coverage_claims.rs\<close>, the \<open>DemandKey\<close> of \<open>crates/nmp-router/src/plan.rs\<close>, and the
  structural component model of \<open>crates/nmp-router/src/component.rs\<close>.

  Public keys and event ids are their hex strings. Event matching itself
  (\<open>nostr::Filter::match_event\<close>) belongs to the \<open>nostr\<close> crate; it is a parameter of the
  statements that need it, constrained by \<open>match_event_contract\<close>.
\<close>

section \<open>Concrete filters\<close>

datatype concrete_filter = ConcreteFilter
  (cf_kinds: "u16 fset option")
  (cf_authors: "string fset option")
  (cf_ids: "string fset option")
  (cf_tags: "(char, string fset) fmap")
  (cf_since: "u64 option")
  (cf_until: "u64 option")
  (cf_limit: "usize option")

definition empty_filter :: concrete_filter where
  "empty_filter = ConcreteFilter None None None fmempty None None None"

text \<open>The derived \<open>Ord\<close>: field by field, sets and maps by their sorted contents.\<close>

type_synonym cf_order =
  "u16 list option \<times> string list option \<times> string list option \<times>
   (char \<times> string list) list \<times> u64 option \<times> u64 option \<times> usize option"

definition cf_ord :: "concrete_filter \<Rightarrow> cf_order" where
  "cf_ord f =
     (map_option sorted_list_of_fset (cf_kinds f),
      map_option sorted_list_of_fset (cf_authors f),
      map_option sorted_list_of_fset (cf_ids f),
      sorted_list_of_fmap (fmmap sorted_list_of_fset (cf_tags f)),
      cf_since f, cf_until f, cf_limit f)"

lemma map_option_sorted_inject:
  "map_option sorted_list_of_fset x = map_option sorted_list_of_fset y \<longleftrightarrow> x = y"
  by (cases x; cases y) auto

lemma fmmap_sorted_inject:
  "fmmap sorted_list_of_fset m = fmmap sorted_list_of_fset n \<longleftrightarrow> m = n"
proof
  assume eq: "fmmap sorted_list_of_fset m = fmmap sorted_list_of_fset n"
  show "m = n"
  proof (rule fmap_ext)
    fix x
    have "fmlookup (fmmap sorted_list_of_fset m) x = fmlookup (fmmap sorted_list_of_fset n) x"
      using eq by simp
    then show "fmlookup m x = fmlookup n x"
      by (simp add: map_option_sorted_inject)
  qed
qed simp

lemma cf_ord_inject [simp]: "cf_ord f = cf_ord g \<longleftrightarrow> f = g"
  by (cases f; cases g) (auto simp: cf_ord_def map_option_sorted_inject fmmap_sorted_inject)

instantiation concrete_filter :: linorder
begin

definition less_eq_concrete_filter :: "concrete_filter \<Rightarrow> concrete_filter \<Rightarrow> bool" where
  "less_eq_concrete_filter f g \<longleftrightarrow> cf_ord f \<le> cf_ord g"

definition less_concrete_filter :: "concrete_filter \<Rightarrow> concrete_filter \<Rightarrow> bool" where
  "less_concrete_filter f g \<longleftrightarrow> cf_ord f < cf_ord g"

instance
  by standard (auto simp: less_eq_concrete_filter_def less_concrete_filter_def
      simp flip: cf_ord_inject)

end

section \<open>Routing, sessions and atoms\<close>

datatype read_routing = Auto | Explicit "relay_url list"

fun routing_ord :: "read_routing \<Rightarrow> relay_url list option" where
  "routing_ord Auto = None"
| "routing_ord (Explicit rs) = Some rs"

lemma routing_ord_inject [simp]: "routing_ord a = routing_ord b \<longleftrightarrow> a = b"
  by (cases a; cases b) auto

instantiation read_routing :: linorder
begin

definition less_eq_read_routing :: "read_routing \<Rightarrow> read_routing \<Rightarrow> bool" where
  "less_eq_read_routing a b \<longleftrightarrow> routing_ord a \<le> routing_ord b"

definition less_read_routing :: "read_routing \<Rightarrow> read_routing \<Rightarrow> bool" where
  "less_read_routing a b \<longleftrightarrow> routing_ord a < routing_ord b"

instance
  by standard (auto simp: less_eq_read_routing_def less_read_routing_def
      simp flip: routing_ord_inject)

end

datatype relay_session_key = RelaySessionKey
  (rsk_relay: relay_url)
  (rsk_authenticate_as: "public_key option")

definition rsk_ord :: "relay_session_key \<Rightarrow> relay_url \<times> public_key option" where
  "rsk_ord k = (rsk_relay k, rsk_authenticate_as k)"

lemma rsk_ord_inject [simp]: "rsk_ord a = rsk_ord b \<longleftrightarrow> a = b"
  by (cases a; cases b) (auto simp: rsk_ord_def)

instantiation relay_session_key :: linorder
begin

definition less_eq_relay_session_key :: "relay_session_key \<Rightarrow> relay_session_key \<Rightarrow> bool" where
  "less_eq_relay_session_key a b \<longleftrightarrow> rsk_ord a \<le> rsk_ord b"

definition less_relay_session_key :: "relay_session_key \<Rightarrow> relay_session_key \<Rightarrow> bool" where
  "less_relay_session_key a b \<longleftrightarrow> rsk_ord a < rsk_ord b"

instance
  by standard (auto simp: less_eq_relay_session_key_def less_relay_session_key_def
      simp flip: rsk_ord_inject)

end

datatype routing_evidence_kind = EvHint | SourceProvenance

datatype routing_evidence = RoutingEvidence
  (re_relay: relay_url)
  (re_origin: routing_evidence_kind)

definition re_ord :: "routing_evidence \<Rightarrow> relay_url \<times> bool" where
  "re_ord e = (re_relay e, re_origin e = SourceProvenance)"

lemma re_ord_inject [simp]: "re_ord a = re_ord b \<longleftrightarrow> a = b"
  by (cases a; cases b; cases "re_origin a"; cases "re_origin b") (auto simp: re_ord_def)

instantiation routing_evidence :: linorder
begin

definition less_eq_routing_evidence :: "routing_evidence \<Rightarrow> routing_evidence \<Rightarrow> bool" where
  "less_eq_routing_evidence a b \<longleftrightarrow> re_ord a \<le> re_ord b"

definition less_routing_evidence :: "routing_evidence \<Rightarrow> routing_evidence \<Rightarrow> bool" where
  "less_routing_evidence a b \<longleftrightarrow> re_ord a < re_ord b"

instance
  by standard (auto simp: less_eq_routing_evidence_def less_routing_evidence_def
      simp flip: re_ord_inject)

end

datatype contextual_atom = ContextualAtom
  (ca_filter: concrete_filter)
  (ca_routing: read_routing)
  (ca_authenticate_as: "public_key option")
  (ca_routing_evidence: "routing_evidence fset")

definition ca_ord ::
  "contextual_atom \<Rightarrow> concrete_filter \<times> read_routing \<times> public_key option \<times> routing_evidence list"
  where
  "ca_ord a = (ca_filter a, ca_routing a, ca_authenticate_as a,
               sorted_list_of_fset (ca_routing_evidence a))"

lemma ca_ord_inject [simp]: "ca_ord a = ca_ord b \<longleftrightarrow> a = b"
  by (cases a; cases b) (auto simp: ca_ord_def)

instantiation contextual_atom :: linorder
begin

definition less_eq_contextual_atom :: "contextual_atom \<Rightarrow> contextual_atom \<Rightarrow> bool" where
  "less_eq_contextual_atom a b \<longleftrightarrow> ca_ord a \<le> ca_ord b"

definition less_contextual_atom :: "contextual_atom \<Rightarrow> contextual_atom \<Rightarrow> bool" where
  "less_contextual_atom a b \<longleftrightarrow> ca_ord a < ca_ord b"

instance
  by standard (auto simp: less_eq_contextual_atom_def less_contextual_atom_def
      simp flip: ca_ord_inject)

end

section \<open>Coverage identity\<close>

definition window_erase :: "concrete_filter \<Rightarrow> concrete_filter" where
  "window_erase f =
     ConcreteFilter (cf_kinds f) (cf_authors f) (cf_ids f) (cf_tags f) None None None"

datatype coverage_key = CoverageKey (ck_atom: contextual_atom)

definition coverage_key :: "contextual_atom \<Rightarrow> coverage_key" where
  "coverage_key atom =
     CoverageKey (ContextualAtom (window_erase (ca_filter atom)) (ca_routing atom)
                    (ca_authenticate_as atom) {||})"

lemma ck_atom_inject [simp]: "ck_atom a = ck_atom b \<longleftrightarrow> a = b"
  by (cases a; cases b) auto

instantiation coverage_key :: linorder
begin

definition less_eq_coverage_key :: "coverage_key \<Rightarrow> coverage_key \<Rightarrow> bool" where
  "less_eq_coverage_key a b \<longleftrightarrow> ck_atom a \<le> ck_atom b"

definition less_coverage_key :: "coverage_key \<Rightarrow> coverage_key \<Rightarrow> bool" where
  "less_coverage_key a b \<longleftrightarrow> ck_atom a < ck_atom b"

instance
  by standard (auto simp: less_eq_coverage_key_def less_coverage_key_def
      simp flip: ck_atom_inject)

end

definition with_author_set :: "concrete_filter \<Rightarrow> string fset option \<Rightarrow> concrete_filter" where
  "with_author_set f as =
     ConcreteFilter (cf_kinds f) as (cf_ids f) (cf_tags f) (cf_since f) (cf_until f) (cf_limit f)"

definition coverage_claim_atoms :: "contextual_atom \<Rightarrow> contextual_atom fset" where
  "coverage_claim_atoms atom =
     (case ca_routing atom of
        Explicit _ \<Rightarrow> {|atom|}
      | Auto \<Rightarrow>
          (case cf_authors (ca_filter atom) of
             None \<Rightarrow> {|atom|}
           | Some authors \<Rightarrow>
               if authors = {||} then {||}
               else if fcard authors = 1 then {|atom|}
               else (\<lambda>author. ContextualAtom
                        (with_author_set (ca_filter atom) (Some {|author|}))
                        (ca_routing atom) (ca_authenticate_as atom)
                        (ca_routing_evidence atom)) |`| authors))"

datatype demand_key = DemandKey
  (dk_coverage: coverage_key)
  (dk_since: "u64 option")
  (dk_until: "u64 option")
  (dk_limit: "usize option")

definition demand_key_from_filter :: "coverage_key \<Rightarrow> concrete_filter \<Rightarrow> demand_key" where
  "demand_key_from_filter coverage f = DemandKey coverage (cf_since f) (cf_until f) (cf_limit f)"

definition demand_key_for_atom :: "contextual_atom \<Rightarrow> demand_key" where
  "demand_key_for_atom atom = demand_key_from_filter (coverage_key atom) (ca_filter atom)"

definition dk_ord ::
  "demand_key \<Rightarrow> coverage_key \<times> u64 option \<times> u64 option \<times> usize option" where
  "dk_ord k = (dk_coverage k, dk_since k, dk_until k, dk_limit k)"

lemma dk_ord_inject [simp]: "dk_ord a = dk_ord b \<longleftrightarrow> a = b"
  by (cases a; cases b) (auto simp: dk_ord_def)

instantiation demand_key :: linorder
begin

definition less_eq_demand_key :: "demand_key \<Rightarrow> demand_key \<Rightarrow> bool" where
  "less_eq_demand_key a b \<longleftrightarrow> dk_ord a \<le> dk_ord b"

definition less_demand_key :: "demand_key \<Rightarrow> demand_key \<Rightarrow> bool" where
  "less_demand_key a b \<longleftrightarrow> dk_ord a < dk_ord b"

instance
  by standard (auto simp: less_eq_demand_key_def less_demand_key_def
      simp flip: dk_ord_inject)

end

end
