(* ===== verification/Nostr_Event.thy ===== *)
theory Nostr_Event
  imports Grammar_Filter
begin

text \<open>
  The protocol's event value and the matching contract of the \<open>nostr\<close> crate.

  \<open>nostr::Filter::match_event\<close> is not part of this repository. A statement that depends on
  it takes the matcher as a parameter \<open>m\<close> with the hypothesis \<open>match_event_contract m\<close>: NIP-01
  filter semantics as the repository's own comments record it (\<open>coalesce.rs\<close>, tag polarity and
  \<open>both_constrain\<close>): an absent or empty \<open>kinds\<close>/\<open>authors\<close>/\<open>ids\<close> set does not constrain, an
  absent tag name does not constrain, a present tag name needs one of its values, and \<open>limit\<close>
  is no predicate.
\<close>

record event =
  ev_id :: string
  ev_pubkey :: public_key
  ev_created_at :: u64
  ev_kind :: u16
  ev_tags :: "string list list"
  ev_content :: string
  ev_sig :: string

definition tag_values :: "event \<Rightarrow> char \<Rightarrow> string set" where
  "tag_values e name = {v. \<exists>rest. ([name] # v # rest) \<in> set (ev_tags e)}"

definition axis_admits :: "'a fset option \<Rightarrow> 'a \<Rightarrow> bool" where
  "axis_admits constraint x \<longleftrightarrow>
     (case constraint of None \<Rightarrow> True | Some s \<Rightarrow> s = {||} \<or> x |\<in>| s)"

definition tag_admits :: "string fset option \<Rightarrow> string set \<Rightarrow> bool" where
  "tag_admits constraint present \<longleftrightarrow>
     (case constraint of None \<Rightarrow> True | Some s \<Rightarrow> (\<exists>v \<in> present. v |\<in>| s))"

definition window_admits :: "concrete_filter \<Rightarrow> u64 \<Rightarrow> bool" where
  "window_admits f t \<longleftrightarrow>
     (case cf_since f of None \<Rightarrow> True | Some s \<Rightarrow> s \<le> t) \<and>
     (case cf_until f of None \<Rightarrow> True | Some u \<Rightarrow> t \<le> u)"

definition match_event_contract :: "(concrete_filter \<Rightarrow> event \<Rightarrow> bool) \<Rightarrow> bool" where
  "match_event_contract m \<longleftrightarrow>
     (\<forall>f e. m f e \<longleftrightarrow>
        axis_admits (cf_kinds f) (ev_kind e) \<and>
        axis_admits (cf_authors f) (ev_pubkey e) \<and>
        axis_admits (cf_ids f) (ev_id e) \<and>
        (\<forall>name. tag_admits (fmlookup (cf_tags f) name) (tag_values e name)) \<and>
        window_admits f (ev_created_at e))"

text \<open>A matcher that satisfies the contract, for the witnesses.\<close>

fun tag_hits :: "char \<Rightarrow> string fset \<Rightarrow> string list \<Rightarrow> bool" where
  "tag_hits name vs (n # v # rest) \<longleftrightarrow> n = [name] \<and> v |\<in>| vs"
| "tag_hits name vs _ \<longleftrightarrow> False"

definition nip01_match :: "concrete_filter \<Rightarrow> event \<Rightarrow> bool" where
  "nip01_match f e \<longleftrightarrow>
     axis_admits (cf_kinds f) (ev_kind e) \<and>
     axis_admits (cf_authors f) (ev_pubkey e) \<and>
     axis_admits (cf_ids f) (ev_id e) \<and>
     (\<forall>(name, vs) \<in> set (sorted_list_of_fmap (cf_tags f)). \<exists>tag \<in> set (ev_tags e). tag_hits name vs tag) \<and>
     window_admits f (ev_created_at e)"

lemma tag_hits_iff: "tag_hits name vs tag \<longleftrightarrow> (\<exists>v rest. tag = [name] # v # rest \<and> v |\<in>| vs)"
  by (cases "(name, vs, tag)" rule: tag_hits.cases) auto

lemma tag_hits_values:
  "(\<exists>tag \<in> set (ev_tags e). tag_hits name vs tag) \<longleftrightarrow> (\<exists>v \<in> tag_values e name. v |\<in>| vs)"
  unfolding tag_hits_iff tag_values_def by blast

lemma nip01_match_contract: "match_event_contract nip01_match"
proof -
  have "(\<forall>(name, vs) \<in> set (sorted_list_of_fmap (cf_tags f)). \<exists>v \<in> tag_values e name. v |\<in>| vs)
     \<longleftrightarrow> (\<forall>name. tag_admits (fmlookup (cf_tags f) name) (tag_values e name))" for f e
    unfolding set_sorted_list_of_fmap tag_admits_def by (auto split: option.split)
  then show ?thesis
    unfolding match_event_contract_def nip01_match_def tag_hits_values by simp
qed

lemma match_event_contractD:
  assumes "match_event_contract m"
  shows "m f e \<longleftrightarrow>
        axis_admits (cf_kinds f) (ev_kind e) \<and>
        axis_admits (cf_authors f) (ev_pubkey e) \<and>
        axis_admits (cf_ids f) (ev_id e) \<and>
        (\<forall>name. tag_admits (fmlookup (cf_tags f) name) (tag_values e name)) \<and>
        window_admits f (ev_created_at e)"
  using assms by (simp add: match_event_contract_def)

lemma axis_admits_union:
  "a \<noteq> {||} \<Longrightarrow> b \<noteq> {||} \<Longrightarrow>
   axis_admits (Some (a |\<union>| b)) x \<longleftrightarrow> axis_admits (Some a) x \<or> axis_admits (Some b) x"
  by (auto simp: axis_admits_def)

lemma tag_admits_union:
  "tag_admits (Some (a |\<union>| b)) p \<longleftrightarrow> tag_admits (Some a) p \<or> tag_admits (Some b) p"
  by (auto simp: tag_admits_def)

end
