(* ===== verification/Filter_Component.thy ===== *)
theory Filter_Component
  imports Nostr_Event
begin

text \<open>
  \<open>crates/nmp-router/src/component.rs\<close>: a filter read as a bag of independent components, and
  the short-circuiting \<open>sole_difference\<close> both the coalescer and the wire-token matcher use. The
  closure \<open>record\<close> of the source is \<open>record_difference\<close>: \<open>None\<close> is its \<open>false\<close> (bail out), \<open>Some\<close>
  the new value of the captured \<open>found\<close>.
\<close>

datatype component = Since | Until | Kinds | Authors | Ids | Limit | Tag char

definition record_difference ::
  "component \<Rightarrow> bool \<Rightarrow> component option \<Rightarrow> component option option" where
  "record_difference c differs found =
     (if \<not> differs then Some found
      else if found \<noteq> None then None
      else Some (Some c))"

fun record_differences ::
  "(component \<times> bool) list \<Rightarrow> component option \<Rightarrow> component option option" where
  "record_differences [] found = Some found"
| "record_differences ((c, differs) # rest) found =
     (case record_difference c differs found of
        None \<Rightarrow> None
      | Some found' \<Rightarrow> record_differences rest found')"

definition tag_names :: "concrete_filter \<Rightarrow> concrete_filter \<Rightarrow> char list" where
  "tag_names a b =
     sorted_list_of_fset (fmdom (cf_tags a)) @
     filter (\<lambda>name. name |\<notin>| fmdom (cf_tags a)) (sorted_list_of_fset (fmdom (cf_tags b)))"

definition sole_difference :: "concrete_filter \<Rightarrow> concrete_filter \<Rightarrow> component option" where
  "sole_difference a b =
     (case record_differences
             [(Since, cf_since a \<noteq> cf_since b),
              (Until, cf_until a \<noteq> cf_until b),
              (Kinds, cf_kinds a \<noteq> cf_kinds b),
              (Authors, cf_authors a \<noteq> cf_authors b),
              (Ids, cf_ids a \<noteq> cf_ids b),
              (Limit, cf_limit a \<noteq> cf_limit b)] None of
        None \<Rightarrow> None
      | Some found \<Rightarrow>
          (case record_differences
                  (map (\<lambda>name. (Tag name, fmlookup (cf_tags a) name \<noteq> fmlookup (cf_tags b) name))
                     (tag_names a b)) found of
             None \<Rightarrow> None
           | Some found' \<Rightarrow> found'))"

text \<open>The exhaustive reading of the model: whether two filters differ in one component.\<close>

fun differs_in :: "component \<Rightarrow> concrete_filter \<Rightarrow> concrete_filter \<Rightarrow> bool" where
  "differs_in Since a b \<longleftrightarrow> cf_since a \<noteq> cf_since b"
| "differs_in Until a b \<longleftrightarrow> cf_until a \<noteq> cf_until b"
| "differs_in Kinds a b \<longleftrightarrow> cf_kinds a \<noteq> cf_kinds b"
| "differs_in Authors a b \<longleftrightarrow> cf_authors a \<noteq> cf_authors b"
| "differs_in Ids a b \<longleftrightarrow> cf_ids a \<noteq> cf_ids b"
| "differs_in Limit a b \<longleftrightarrow> cf_limit a \<noteq> cf_limit b"
| "differs_in (Tag name) a b \<longleftrightarrow> fmlookup (cf_tags a) name \<noteq> fmlookup (cf_tags b) name"

section \<open>The short circuit computes the unique difference\<close>

definition differing_list :: "(component \<times> bool) list \<Rightarrow> component list" where
  "differing_list cs = map fst (filter snd cs)"

lemma record_differences_eq:
  "record_differences cs found =
     (case (found, differing_list cs) of
        (f, []) \<Rightarrow> Some f
      | (None, [c]) \<Rightarrow> Some (Some c)
      | _ \<Rightarrow> None)"
  by (induction cs found rule: record_differences.induct)
     (auto simp: differing_list_def record_difference_def split: option.splits list.splits)

lemma record_differences_append:
  "record_differences (xs @ ys) found =
     (case record_differences xs found of None \<Rightarrow> None | Some f \<Rightarrow> record_differences ys f)"
  by (induction xs found rule: record_differences.induct) (auto split: option.splits)

lemma record_differences_append_found:
  "(case record_differences (xs @ ys) found of None \<Rightarrow> None | Some f \<Rightarrow> f) =
     (case record_differences xs found of
        None \<Rightarrow> None
      | Some f \<Rightarrow> (case record_differences ys f of None \<Rightarrow> None | Some f' \<Rightarrow> f'))"
  by (simp add: record_differences_append split: option.split)

definition component_row :: "concrete_filter \<Rightarrow> concrete_filter \<Rightarrow> (component \<times> bool) list" where
  "component_row a b =
     map (\<lambda>c. (c, differs_in c a b))
       ([Since, Until, Kinds, Authors, Ids, Limit] @ map Tag (tag_names a b))"

lemma sole_difference_row:
  "sole_difference a b =
     (case record_differences (component_row a b) None of None \<Rightarrow> None | Some f \<Rightarrow> f)"
proof -
  have row: "component_row a b =
      [(Since, cf_since a \<noteq> cf_since b), (Until, cf_until a \<noteq> cf_until b),
       (Kinds, cf_kinds a \<noteq> cf_kinds b), (Authors, cf_authors a \<noteq> cf_authors b),
       (Ids, cf_ids a \<noteq> cf_ids b), (Limit, cf_limit a \<noteq> cf_limit b)] @
      map (\<lambda>name. (Tag name, fmlookup (cf_tags a) name \<noteq> fmlookup (cf_tags b) name))
        (tag_names a b)"
    by (simp add: component_row_def o_def)
  show ?thesis
    unfolding row record_differences_append_found sole_difference_def ..
qed

lemma set_tag_names: "set (tag_names a b) = fset (fmdom (cf_tags a)) \<union> fset (fmdom (cf_tags b))"
  by (auto simp: tag_names_def)

lemma distinct_tag_names: "distinct (tag_names a b)"
  by (auto simp: tag_names_def)

lemma differs_in_tag_name: "differs_in (Tag name) a b \<Longrightarrow> name \<in> set (tag_names a b)"
  by (auto simp: set_tag_names fmlookup_dom_iff)

definition components_of :: "concrete_filter \<Rightarrow> concrete_filter \<Rightarrow> component list" where
  "components_of a b = [Since, Until, Kinds, Authors, Ids, Limit] @ map Tag (tag_names a b)"

lemma differs_in_components_of: "differs_in c a b \<Longrightarrow> c \<in> set (components_of a b)"
  using differs_in_tag_name by (cases c) (auto simp: components_of_def)

lemma distinct_components_of: "distinct (components_of a b)"
  by (auto simp: components_of_def distinct_map distinct_tag_names inj_on_def)

lemma differing_row:
  "differing_list (component_row a b) = filter (\<lambda>c. differs_in c a b) (components_of a b)"
  unfolding differing_list_def component_row_def filter_map map_map components_of_def
  by (simp only: o_def fst_conv snd_conv map_ident)

lemma set_differing_row: "set (differing_list (component_row a b)) = {c. differs_in c a b}"
  unfolding differing_row set_filter using differs_in_components_of by blast

lemma distinct_differing_row: "distinct (differing_list (component_row a b))"
  unfolding differing_row by (rule distinct_filter) (rule distinct_components_of)

lemma singleton_list_iff: "distinct xs \<Longrightarrow> xs = [c] \<longleftrightarrow> set xs = {c}"
proof (cases xs)
  case (Cons x ys)
  assume "distinct xs"
  then show ?thesis by (cases ys) (auto simp: Cons)
qed simp

lemma sole_difference_iff:
  "sole_difference a b = Some c \<longleftrightarrow> {d. differs_in d a b} = {c}"
proof -
  have "sole_difference a b = Some c \<longleftrightarrow> differing_list (component_row a b) = [c]"
    by (auto simp: sole_difference_row record_differences_eq split: list.splits)
  then show ?thesis
    by (simp add: singleton_list_iff distinct_differing_row set_differing_row)
qed

lemma not_differs_in_refl [simp]: "\<not> differs_in c a a"
  by (cases c) auto

lemma no_difference_eq: "(\<And>c. \<not> differs_in c a b) \<Longrightarrow> a = b"
proof -
  assume none: "\<And>c. \<not> differs_in c a b"
  have "cf_tags a = cf_tags b"
    using none[of "Tag _"] by (auto intro: fmap_ext)
  then show "a = b"
    using none[of Since] none[of Until] none[of Kinds] none[of Authors] none[of Ids] none[of Limit]
    by (simp add: concrete_filter.expand)
qed

lemma differs_in_sym: "differs_in c a b \<longleftrightarrow> differs_in c b a"
  by (cases c) auto

lemma sole_difference_sym: "sole_difference a b = sole_difference b a"
proof -
  have "sole_difference a b = Some c \<longleftrightarrow> sole_difference b a = Some c" for c
    by (simp add: sole_difference_iff differs_in_sym[of _ a b])
  then show ?thesis by (metis option.exhaust)
qed

lemma sole_difference_refl: "sole_difference a a = None"
  by (cases "sole_difference a a") (auto simp: sole_difference_iff)

lemma sole_difference_agree:
  "sole_difference a b = Some c \<Longrightarrow> d \<noteq> c \<Longrightarrow> \<not> differs_in d a b"
  by (auto simp: sole_difference_iff)

end
