(* ===== verification/Routing_Facts.thy ===== *)
theory Routing_Facts
  imports Grammar_Filter
begin

text \<open>
  The read-only vocabulary of the router: \<open>crates/nmp-router/src/facts.rs\<close> (lanes, author route
  states and the \<open>RoutingFacts\<close> trait), \<open>budget.rs\<close> (the bounds of one compile) and the route
  provenance value of \<open>route.rs\<close>.

  The trait object \<open>&dyn RoutingFacts\<close> is the record \<open>routing_facts\<close> of its three methods, so an
  operation of the router takes the facts as an argument. A decoded \<open>PublicKey\<close> and its hex form
  are the same value here: the source decodes with \<open>from_hex\<close> and re-encodes with \<open>to_hex\<close> at the
  wire boundary and resolved filters carry validated keys only.
\<close>

datatype lane = AuthorOutbound | LnHint | LnProvenance | OperatorApp | OperatorFallback | LnExact

datatype laned_relay = LanedRelay (lr_url: relay_url) (lr_lane: lane)

datatype author_routes = AuthorRoutes (ar_outbound: "relay_url fset") (ar_inbound: "relay_url fset")

datatype author_route_state = Unknown | Present author_routes | Absent

record routing_facts =
  rf_author_routes :: "public_key \<Rightarrow> author_route_state"
  rf_operator_app_relays :: "relay_url list"
  rf_operator_fallback_relays :: "relay_url list"

datatype route_kind = RkCoverage | RkSupplemental | RkExact

datatype route_provenance = RouteProvenance
  (rp_relay: relay_url)
  (rp_lane: lane)
  (rp_covers_authors: "public_key fset")
  (rp_route_kind: route_kind)

section \<open>The budget of one compile\<close>

definition WIRE_SUB_ID_CHARS :: nat where
  "WIRE_SUB_ID_CHARS = 64"

record advertised_relay_limits =
  arl_max_subscriptions :: "nat option"
  arl_max_subid_length :: "nat option"

record compile_budget =
  cb_relay_cap :: nat
  cb_advertised :: "(relay_url, advertised_relay_limits) fmap"

definition with_relay_cap :: "nat \<Rightarrow> compile_budget" where
  "with_relay_cap cap = \<lparr>cb_relay_cap = cap, cb_advertised = fmempty\<rparr>"

definition advertising ::
  "relay_url \<Rightarrow> advertised_relay_limits \<Rightarrow> compile_budget \<Rightarrow> compile_budget" where
  "advertising relay limits b = b\<lparr>cb_advertised := fmupd relay limits (cb_advertised b)\<rparr>"

definition advertising_all ::
  "(relay_url \<times> advertised_relay_limits) list \<Rightarrow> compile_budget \<Rightarrow> compile_budget" where
  "advertising_all limits b =
     b\<lparr>cb_advertised := fold (\<lambda>(relay, l). fmupd relay l) limits (cb_advertised b)\<rparr>"

definition max_subscriptions :: "compile_budget \<Rightarrow> relay_url \<Rightarrow> nat option" where
  "max_subscriptions b relay =
     Option.bind (fmlookup (cb_advertised b) relay) arl_max_subscriptions"

definition max_subid_length :: "compile_budget \<Rightarrow> relay_url \<Rightarrow> nat option" where
  "max_subid_length b relay =
     Option.bind (fmlookup (cb_advertised b) relay) arl_max_subid_length"

definition rejects_our_subscription_ids :: "compile_budget \<Rightarrow> relay_url \<Rightarrow> bool" where
  "rejects_our_subscription_ids b relay =
     (case max_subid_length b relay of None \<Rightarrow> False | Some l \<Rightarrow> l < WIRE_SUB_ID_CHARS)"

lemma unadvertised_is_unbudgeted [simp]: "max_subscriptions (with_relay_cap cap) relay = None"
  by (simp add: max_subscriptions_def with_relay_cap_def)

lemma advertising_all_snoc:
  "advertising_all (ls @ [(relay, l)]) b = advertising relay l (advertising_all ls b)"
  by (simp add: advertising_all_def advertising_def)

end
