(* ===== verification/Coalesce.thy ===== *)
theory Coalesce
  imports Filter_Component Routing_Facts
begin

text \<open>
  \<open>crates/nmp-router/src/coalesce.rs\<close>: exact dedup, the structural union rule, the open rule
  registry and the fixed-point merge.

  A trait object \<open>MergeRule\<close> is the record of its two methods. The \<open>Cell<u64>\<close> counter of the
  registry is a field of the registry record and the merge loop threads the registry.
  Indices of the loop are \<open>nat\<close>; they stay below the length of the vector.
\<close>

section \<open>Entries and rules\<close>

record entry_ownership =
  eo_coverage_claims :: "coverage_key fset"
  eo_owner_demands :: "demand_key fset"
  eo_coverage_assignments :: "(demand_key \<times> public_key) fset"

definition default_ownership :: entry_ownership where
  "default_ownership =
     \<lparr>eo_coverage_claims = {||}, eo_owner_demands = {||}, eo_coverage_assignments = {||}\<rparr>"

definition ownership_extend :: "entry_ownership \<Rightarrow> entry_ownership \<Rightarrow> entry_ownership" where
  "ownership_extend self other =
     \<lparr>eo_coverage_claims = eo_coverage_claims self |\<union>| eo_coverage_claims other,
      eo_owner_demands = eo_owner_demands self |\<union>| eo_owner_demands other,
      eo_coverage_assignments = eo_coverage_assignments self |\<union>| eo_coverage_assignments other\<rparr>"

type_synonym entry = "concrete_filter \<times> route_provenance list \<times> entry_ownership"

record merge_rule =
  mr_name :: string
  mr_try_merge :: "concrete_filter \<Rightarrow> concrete_filter \<Rightarrow> concrete_filter option"

definition MAX_IDS_PER_FILTER :: nat where
  "MAX_IDS_PER_FILTER = 256"

definition MAX_TAG_VALUES_PER_FILTER :: nat where
  "MAX_TAG_VALUES_PER_FILTER = 500"

definition both_constrain :: "'a fset option \<Rightarrow> 'a fset option \<Rightarrow> ('a fset \<times> 'a fset) option" where
  "both_constrain a b =
     (case (a, b) of
        (Some a', Some b') \<Rightarrow> if a' \<noteq> {||} \<and> b' \<noteq> {||} then Some (a', b') else None
      | _ \<Rightarrow> None)"

definition neither_limited :: "concrete_filter \<Rightarrow> concrete_filter \<Rightarrow> bool" where
  "neither_limited a b \<longleftrightarrow> cf_limit a = None \<and> cf_limit b = None"

fun set_kinds :: "concrete_filter \<Rightarrow> u16 fset \<Rightarrow> concrete_filter" where
  "set_kinds (ConcreteFilter ks as is ts s u l) v = ConcreteFilter (Some v) as is ts s u l"

fun set_authors :: "concrete_filter \<Rightarrow> string fset \<Rightarrow> concrete_filter" where
  "set_authors (ConcreteFilter ks as is ts s u l) v = ConcreteFilter ks (Some v) is ts s u l"

fun set_ids :: "concrete_filter \<Rightarrow> string fset \<Rightarrow> concrete_filter" where
  "set_ids (ConcreteFilter ks as is ts s u l) v = ConcreteFilter ks as (Some v) ts s u l"

fun set_tag :: "concrete_filter \<Rightarrow> char \<Rightarrow> string fset \<Rightarrow> concrete_filter" where
  "set_tag (ConcreteFilter ks as is ts s u l) name v =
     ConcreteFilter ks as is (fmupd name v ts) s u l"

definition structural_union_try_merge ::
  "concrete_filter \<Rightarrow> concrete_filter \<Rightarrow> concrete_filter option" where
  "structural_union_try_merge a b =
     (if \<not> neither_limited a b then None
      else case sole_difference a b of
        None \<Rightarrow> None
      | Some Since \<Rightarrow> None
      | Some Until \<Rightarrow> None
      | Some Limit \<Rightarrow> None
      | Some Kinds \<Rightarrow>
          (case both_constrain (cf_kinds a) (cf_kinds b) of
             None \<Rightarrow> None
           | Some (a_kinds, b_kinds) \<Rightarrow> Some (set_kinds a (a_kinds |\<union>| b_kinds)))
      | Some Authors \<Rightarrow>
          (case both_constrain (cf_authors a) (cf_authors b) of
             None \<Rightarrow> None
           | Some (a_authors, b_authors) \<Rightarrow> Some (set_authors a (a_authors |\<union>| b_authors)))
      | Some Ids \<Rightarrow>
          (case both_constrain (cf_ids a) (cf_ids b) of
             None \<Rightarrow> None
           | Some (a_ids, b_ids) \<Rightarrow>
               (let ids = a_ids |\<union>| b_ids
                in if fcard ids > MAX_IDS_PER_FILTER then None else Some (set_ids a ids)))
      | Some (Tag name) \<Rightarrow>
          (case fmlookup (cf_tags a) name of
             None \<Rightarrow> None
           | Some a_values \<Rightarrow>
               (case fmlookup (cf_tags b) name of
                  None \<Rightarrow> None
                | Some b_values \<Rightarrow>
                    (let values = a_values |\<union>| b_values
                     in if fcard values > MAX_TAG_VALUES_PER_FILTER then None
                        else Some (set_tag a name values)))))"

definition StructuralUnion :: merge_rule where
  "StructuralUnion =
     \<lparr>mr_name = ''StructuralUnion'', mr_try_merge = structural_union_try_merge\<rparr>"

definition discard_second_try_merge ::
  "concrete_filter \<Rightarrow> concrete_filter \<Rightarrow> concrete_filter option" where
  "discard_second_try_merge a b = (if cf_kinds a = cf_kinds b \<and> a \<noteq> b then Some a else None)"

definition DiscardSecondOperand :: merge_rule where
  "DiscardSecondOperand =
     \<lparr>mr_name = ''DiscardSecondOperand'', mr_try_merge = discard_second_try_merge\<rparr>"

section \<open>The registry\<close>

record rule_registry =
  rr_rules :: "merge_rule list"
  rr_dropped :: "string list"
  rr_pair_attempts :: u64

definition default_widen_only :: rule_registry where
  "default_widen_only =
     \<lparr>rr_rules = [StructuralUnion], rr_dropped = [], rr_pair_attempts = 0\<rparr>"

definition dedup_only :: rule_registry where
  "dedup_only = \<lparr>rr_rules = [], rr_dropped = [], rr_pair_attempts = 0\<rparr>"

definition register :: "rule_registry \<Rightarrow> merge_rule \<Rightarrow> bool \<Rightarrow> rule_registry" where
  "register reg rule verified_widening =
     (if verified_widening then reg\<lparr>rr_rules := rr_rules reg @ [rule]\<rparr>
      else reg\<lparr>rr_dropped := rr_dropped reg @ [mr_name rule]\<rparr>)"

definition fork :: "rule_registry \<Rightarrow> rule_registry" where
  "fork reg =
     \<lparr>rr_rules = rr_rules reg, rr_dropped = rr_dropped reg, rr_pair_attempts = 0\<rparr>"

fun first_merge :: "merge_rule list \<Rightarrow> entry \<Rightarrow> entry \<Rightarrow> entry option" where
  "first_merge [] a b = None"
| "first_merge (rule # rules) a b =
     (case mr_try_merge rule (fst a) (fst b) of
        Some merged \<Rightarrow>
          Some (merged, fst (snd a) @ fst (snd b), ownership_extend (snd (snd a)) (snd (snd b)))
      | None \<Rightarrow> first_merge rules a b)"

definition count_attempt :: "rule_registry \<Rightarrow> rule_registry" where
  "count_attempt reg = reg\<lparr>rr_pair_attempts := sat_add (rr_pair_attempts reg) 1\<rparr>"

definition try_merge_pair ::
  "rule_registry \<Rightarrow> entry \<Rightarrow> entry \<Rightarrow> entry option \<times> rule_registry" where
  "try_merge_pair reg a b = (first_merge (rr_rules reg) a b, count_attempt reg)"

definition apply_merge :: "entry list \<Rightarrow> nat \<Rightarrow> nat \<Rightarrow> entry \<Rightarrow> entry list" where
  "apply_merge current i j merged = remove_nth i (remove_nth j current) @ [merged]"

function revalidate_prefix_against_tail ::
  "rule_registry \<Rightarrow> entry list \<Rightarrow> nat \<Rightarrow> nat \<Rightarrow> entry list \<times> nat \<times> rule_registry" where
  "revalidate_prefix_against_tail reg current settled k =
     (if k < settled
      then (let tail = length current - 1
            in case try_merge_pair reg (current ! k) (current ! tail) of
                 (Some merged, reg') \<Rightarrow>
                   revalidate_prefix_against_tail reg' (apply_merge current k tail merged)
                     (settled - 1) 0
               | (None, reg') \<Rightarrow>
                   revalidate_prefix_against_tail reg' current settled (k + 1))
      else (current, settled, reg))"
  by pat_completeness auto
termination
  by (relation "measures [\<lambda>(_, _, settled, _). settled, \<lambda>(_, _, settled, k). settled - k]") auto

declare revalidate_prefix_against_tail.simps [simp del]

lemma rules_count_attempt [simp]: "rr_rules (count_attempt reg) = rr_rules reg"
  by (simp add: count_attempt_def)

lemma revalidate_simps:
  "\<not> k < settled \<Longrightarrow> revalidate_prefix_against_tail reg current settled k = (current, settled, reg)"
  "k < settled \<Longrightarrow> first_merge (rr_rules reg) (current ! k) (current ! (length current - 1)) = Some e \<Longrightarrow>
   revalidate_prefix_against_tail reg current settled k =
     revalidate_prefix_against_tail (count_attempt reg)
       (apply_merge current k (length current - 1) e) (settled - 1) 0"
  "k < settled \<Longrightarrow> first_merge (rr_rules reg) (current ! k) (current ! (length current - 1)) = None \<Longrightarrow>
   revalidate_prefix_against_tail reg current settled k =
     revalidate_prefix_against_tail (count_attempt reg) current settled (k + 1)"
  by (subst revalidate_prefix_against_tail.simps; simp add: try_merge_pair_def)+

lemma revalidate_induct [case_names stop merge skip]:
  assumes "\<And>reg current settled k. \<not> k < settled \<Longrightarrow> P reg current settled k"
    and "\<And>reg current settled k e. k < settled \<Longrightarrow>
      first_merge (rr_rules reg) (current ! k) (current ! (length current - 1)) = Some e \<Longrightarrow>
      P (count_attempt reg) (apply_merge current k (length current - 1) e) (settled - 1) 0 \<Longrightarrow>
      P reg current settled k"
    and "\<And>reg current settled k. k < settled \<Longrightarrow>
      first_merge (rr_rules reg) (current ! k) (current ! (length current - 1)) = None \<Longrightarrow>
      P (count_attempt reg) current settled (k + 1) \<Longrightarrow> P reg current settled k"
  shows "P reg current settled k"
proof (induction reg current settled k rule: revalidate_prefix_against_tail.induct)
  case (1 reg current settled k)
  show ?case
  proof (cases "k < settled")
    case True
    show ?thesis
    proof (cases "first_merge (rr_rules reg) (current ! k) (current ! (length current - 1))")
      case None
      then show ?thesis using True 1 assms(3) by (simp add: try_merge_pair_def)
    next
      case (Some e)
      then show ?thesis using True 1 assms(2) by (simp add: try_merge_pair_def)
    qed
  qed (rule assms(1))
qed

lemma length_apply_merge_le:
  "j < length current \<Longrightarrow> length (apply_merge current i j e) \<le> length current"
  using length_remove_nth_le[of i "remove_nth j current"]
  by (auto simp: apply_merge_def length_remove_nth)

lemma length_apply_merge:
  "i < j \<Longrightarrow> j < length current \<Longrightarrow> length (apply_merge current i j e) = length current - 1"
  by (auto simp: apply_merge_def length_remove_nth)

lemma apply_merge_not_Nil [simp]: "apply_merge current i j e \<noteq> []"
  by (simp add: apply_merge_def)

lemma length_revalidate_le:
  "current \<noteq> [] \<Longrightarrow>
   length (fst (revalidate_prefix_against_tail reg current settled k)) \<le> length current"
proof (induction reg current settled k rule: revalidate_induct)
  case (merge reg current settled k e)
  then have "length (apply_merge current k (length current - 1) e) \<le> length current"
    by (intro length_apply_merge_le) auto
  with merge show ?case by (simp add: revalidate_simps(2))
qed (simp_all add: revalidate_simps)

lemma revalidate_merge_shrinks:
  assumes "(current', settled', reg') =
      revalidate_prefix_against_tail reg (apply_merge current i j e) settled k"
    and "i < j" and "j < length current"
  shows "length current' < length current"
  using length_revalidate_le[OF apply_merge_not_Nil, of reg current i j e settled k]
    length_apply_merge[OF assms(2,3), of e] assms(1)[symmetric] assms(2,3) by simp

text \<open>
  \<open>merge_fixed_point\<close>: the source's second index is \<open>j = settled + 1 + d\<close>; every assignment to it
  there is \<open>settled + 1\<close> (here \<open>d = 0\<close>) or an increment.
\<close>

function merge_loop ::
  "rule_registry \<Rightarrow> entry list \<Rightarrow> nat \<Rightarrow> nat \<Rightarrow> entry list \<times> rule_registry" where
  "merge_loop reg current settled d =
     (if settled < length current
      then (let j = settled + 1 + d
            in if j \<ge> length current then merge_loop reg current (settled + 1) 0
               else case try_merge_pair reg (current ! settled) (current ! j) of
                 (Some merged, reg') \<Rightarrow>
                   (case revalidate_prefix_against_tail reg'
                           (apply_merge current settled j merged) settled 0 of
                      (current', settled', reg'') \<Rightarrow> merge_loop reg'' current' settled' 0)
               | (None, reg') \<Rightarrow> merge_loop reg' current settled (d + 1))
      else (current, reg))"
  by pat_completeness auto
termination
  by (relation "measures [\<lambda>(_, current, _, _). length current,
      \<lambda>(_, current, settled, _). length current - settled,
      \<lambda>(_, current, _, d). length current - d]")
    (auto dest: revalidate_merge_shrinks)

declare merge_loop.simps [simp del]

definition merge_fixed_point :: "rule_registry \<Rightarrow> entry list \<Rightarrow> entry list \<times> rule_registry" where
  "merge_fixed_point reg current = merge_loop reg current 0 0"

text \<open>\<open>coalesce_with\<close>, step 1: exact dedup by filter value, in filter order.\<close>

definition extend_entry :: "entry \<Rightarrow> route_provenance list \<Rightarrow> entry_ownership \<Rightarrow> entry" where
  "extend_entry e prov ownership =
     (fst e, fst (snd e) @ prov, ownership_extend (snd (snd e)) ownership)"

definition dedup_exact :: "entry list \<Rightarrow> entry list" where
  "dedup_exact entries =
     fm_values (fold (\<lambda>(f, prov, ownership).
         fm_upsert f (\<lambda>e. extend_entry e prov ownership) (f, prov, ownership)) entries fmempty)"

text \<open>Step 3: fold each duplicate survivor into the first entry that carries its filter.\<close>

fun dedup_survivors_loop ::
  "entry list \<Rightarrow> (concrete_filter, nat) fmap \<Rightarrow> entry list \<Rightarrow> entry list" where
  "dedup_survivors_loop [] first_index out = out"
| "dedup_survivors_loop ((f, provenance, ownership) # entries) first_index out =
     (case fmlookup first_index f of
        Some first \<Rightarrow>
          dedup_survivors_loop entries first_index
            (out[first := extend_entry (out ! first) provenance ownership])
      | None \<Rightarrow>
          dedup_survivors_loop entries (fmupd f (length out) first_index)
            (out @ [(f, provenance, ownership)]))"

definition dedup_survivors :: "entry list \<Rightarrow> entry list" where
  "dedup_survivors entries = dedup_survivors_loop entries fmempty []"

definition coalesce_with :: "rule_registry \<Rightarrow> entry list \<Rightarrow> entry list \<times> rule_registry" where
  "coalesce_with reg entries =
     (let (current, reg') = merge_fixed_point reg (dedup_exact entries)
      in (dedup_survivors current, reg'))"

definition coalesce :: "rule_registry \<Rightarrow> concrete_filter fset \<Rightarrow> concrete_filter list" where
  "coalesce reg filters =
     map fst (fst (coalesce_with reg
       (map (\<lambda>f. (f, [], default_ownership)) (sorted_list_of_fset filters))))"

end
