(* ===== verification/Coalesce_Props.thy ===== *)
theory Coalesce_Props
  imports Coalesce
begin

text \<open>
  Correctness of the coalescer.

  \<^item> the structural union is exact on matches, symmetric, and respects its caps;
  \<^item> the incremental merge loop picks the same merges as the loop that restarts its row-major
    scan after every merge (\<open>merge_restart\<close>), and spends at most \<open>4 * n * n\<close> pair attempts;
  \<^item> a registry whose rules widen (the locale \<open>widening_rules\<close>) never loses a match, a claim or a
    provenance, and every coverage claim stays contained in the filter that carries it.
\<close>

section \<open>The structural union\<close>

lemma both_constrain_Some:
  "both_constrain a b = Some (x, y) \<longleftrightarrow> a = Some x \<and> b = Some y \<and> x \<noteq> {||} \<and> y \<noteq> {||}"
  by (auto simp: both_constrain_def split: option.splits)

lemma set_component_sel [simp]:
  "cf_kinds (set_kinds f v) = Some v" "cf_authors (set_kinds f v) = cf_authors f"
  "cf_ids (set_kinds f v) = cf_ids f" "cf_tags (set_kinds f v) = cf_tags f"
  "cf_since (set_kinds f v) = cf_since f" "cf_until (set_kinds f v) = cf_until f"
  "cf_limit (set_kinds f v) = cf_limit f"
  "cf_kinds (set_authors f w) = cf_kinds f" "cf_authors (set_authors f w) = Some w"
  "cf_ids (set_authors f w) = cf_ids f" "cf_tags (set_authors f w) = cf_tags f"
  "cf_since (set_authors f w) = cf_since f" "cf_until (set_authors f w) = cf_until f"
  "cf_limit (set_authors f w) = cf_limit f"
  "cf_kinds (set_ids f w) = cf_kinds f" "cf_authors (set_ids f w) = cf_authors f"
  "cf_ids (set_ids f w) = Some w" "cf_tags (set_ids f w) = cf_tags f"
  "cf_since (set_ids f w) = cf_since f" "cf_until (set_ids f w) = cf_until f"
  "cf_limit (set_ids f w) = cf_limit f"
  "cf_kinds (set_tag f n w) = cf_kinds f" "cf_authors (set_tag f n w) = cf_authors f"
  "cf_ids (set_tag f n w) = cf_ids f" "cf_tags (set_tag f n w) = fmupd n w (cf_tags f)"
  "cf_since (set_tag f n w) = cf_since f" "cf_until (set_tag f n w) = cf_until f"
  "cf_limit (set_tag f n w) = cf_limit f"
  by (cases f; simp)+

text \<open>The shapes in which the union applies, one per array axis.\<close>

lemma structural_union_cases [consumes 1, case_names kinds authors ids tag]:
  assumes "structural_union_try_merge a b = Some c"
  obtains
    x y where "sole_difference a b = Some Kinds" "cf_kinds a = Some x" "cf_kinds b = Some y"
      "x \<noteq> {||}" "y \<noteq> {||}" "c = set_kinds a (x |\<union>| y)" "neither_limited a b"
  | x y where "sole_difference a b = Some Authors" "cf_authors a = Some x" "cf_authors b = Some y"
      "x \<noteq> {||}" "y \<noteq> {||}" "c = set_authors a (x |\<union>| y)" "neither_limited a b"
  | x y where "sole_difference a b = Some Ids" "cf_ids a = Some x" "cf_ids b = Some y"
      "x \<noteq> {||}" "y \<noteq> {||}" "c = set_ids a (x |\<union>| y)" "neither_limited a b"
      "fcard (x |\<union>| y) \<le> MAX_IDS_PER_FILTER"
  | name x y where "sole_difference a b = Some (Tag name)"
      "fmlookup (cf_tags a) name = Some x" "fmlookup (cf_tags b) name = Some y"
      "c = set_tag a name (x |\<union>| y)" "neither_limited a b"
      "fcard (x |\<union>| y) \<le> MAX_TAG_VALUES_PER_FILTER"
  using assms
  by (auto simp: structural_union_try_merge_def both_constrain_Some Let_def
      split: if_splits option.splits component.splits)

lemma sole_difference_tag_agree:
  "sole_difference a b = Some c \<Longrightarrow> \<forall>name. c \<noteq> Tag name \<longrightarrow> fmlookup (cf_tags a) name = fmlookup (cf_tags b) name"
  using sole_difference_agree differs_in.simps(7) by metis

lemma sole_difference_fields:
  assumes "sole_difference a b = Some c"
  shows "c \<noteq> Since \<Longrightarrow> cf_since a = cf_since b" "c \<noteq> Until \<Longrightarrow> cf_until a = cf_until b"
    "c \<noteq> Kinds \<Longrightarrow> cf_kinds a = cf_kinds b" "c \<noteq> Authors \<Longrightarrow> cf_authors a = cf_authors b"
    "c \<noteq> Ids \<Longrightarrow> cf_ids a = cf_ids b" "c \<noteq> Limit \<Longrightarrow> cf_limit a = cf_limit b"
    "c \<noteq> Tag name \<Longrightarrow> fmlookup (cf_tags a) name = fmlookup (cf_tags b) name"
    "\<forall>name. c \<noteq> Tag name \<Longrightarrow> cf_tags a = cf_tags b"
  using sole_difference_agree[OF assms, of Since] sole_difference_agree[OF assms, of Until]
    sole_difference_agree[OF assms, of Kinds] sole_difference_agree[OF assms, of Authors]
    sole_difference_agree[OF assms, of Ids] sole_difference_agree[OF assms, of Limit]
    sole_difference_tag_agree[OF assms]
  by (auto intro: fmap_ext)

lemma structural_union_sym:
  "structural_union_try_merge a b = structural_union_try_merge b a"
proof -
  have "structural_union_try_merge b a = Some c" if "structural_union_try_merge a b = Some c" for a b c
    using that
  proof (cases rule: structural_union_cases)
    case (kinds x y)
    then have "set_kinds a (x |\<union>| y) = set_kinds b (y |\<union>| x)"
      using sole_difference_fields[OF kinds(1)] by (simp add: concrete_filter.expand sup_commute)
    with kinds show ?thesis
      by (auto simp: structural_union_try_merge_def sole_difference_sym[of b a] neither_limited_def
          both_constrain_def)
  next
    case (authors x y)
    then have "set_authors a (x |\<union>| y) = set_authors b (y |\<union>| x)"
      using sole_difference_fields[OF authors(1)] by (simp add: concrete_filter.expand sup_commute)
    with authors show ?thesis
      by (auto simp: structural_union_try_merge_def sole_difference_sym[of b a] neither_limited_def
          both_constrain_def)
  next
    case (ids x y)
    then have "set_ids a (x |\<union>| y) = set_ids b (y |\<union>| x)"
      using sole_difference_fields[OF ids(1)] by (simp add: concrete_filter.expand sup_commute)
    with ids show ?thesis
      by (auto simp: structural_union_try_merge_def sole_difference_sym[of b a] neither_limited_def
          both_constrain_def sup_commute)
  next
    case (tag name x y)
    have "fmupd name v (cf_tags a) = fmupd name v (cf_tags b)" for v
      by (rule fmap_ext) (use sole_difference_fields(7)[OF tag(1)] in auto)
    then have "set_tag a name (x |\<union>| y) = set_tag b name (y |\<union>| x)"
      using sole_difference_fields[OF tag(1)] by (simp add: concrete_filter.expand sup_commute)
    with tag show ?thesis
      by (auto simp: structural_union_try_merge_def sole_difference_sym[of b a] neither_limited_def
          sup_commute)
  qed
  then show ?thesis by (metis not_None_eq)
qed

lemma structural_union_exact:
  assumes "match_event_contract m" and "structural_union_try_merge a b = Some c"
  shows "m c e \<longleftrightarrow> m a e \<or> m b e"
  using assms(2)
proof (cases rule: structural_union_cases)
  case (kinds x y)
  then show ?thesis
    using sole_difference_fields[OF kinds(1)] axis_admits_union[of x y]
    by (auto simp: match_event_contractD[OF assms(1)] window_admits_def)
next
  case (authors x y)
  then show ?thesis
    using sole_difference_fields[OF authors(1)] axis_admits_union[of x y]
    by (auto simp: match_event_contractD[OF assms(1)] window_admits_def)
next
  case (ids x y)
  then show ?thesis
    using sole_difference_fields[OF ids(1)] axis_admits_union[of x y]
    by (auto simp: match_event_contractD[OF assms(1)] window_admits_def)
next
  case (tag name x y)
  have "(\<forall>n. tag_admits (fmlookup (fmupd name (x |\<union>| y) (cf_tags a)) n) (tag_values e n)) \<longleftrightarrow>
        (\<forall>n. tag_admits (fmlookup (cf_tags a) n) (tag_values e n)) \<or>
        (\<forall>n. tag_admits (fmlookup (cf_tags b) n) (tag_values e n))"
    using sole_difference_fields(7)[OF tag(1)] tag(2,3)
      tag_admits_union[of x y "tag_values e name"] by (metis component.inject fmupd_lookup)
  with tag show ?thesis
    using sole_difference_fields(1-6)[OF tag(1)]
    by (auto simp: match_event_contractD[OF assms(1)] window_admits_def)
qed

section \<open>The merge loop against the restarting loop\<close>

text \<open>The reference: merge the first acceptable pair in row-major order, start over.\<close>

definition row_major_pairs :: "nat \<Rightarrow> (nat \<times> nat) list" where
  "row_major_pairs n = concat (map (\<lambda>i. map (Pair i) [Suc i..<n]) [0..<n])"

definition merges :: "merge_rule list \<Rightarrow> entry list \<Rightarrow> nat \<Rightarrow> nat \<Rightarrow> bool" where
  "merges rules current i j \<longleftrightarrow> first_merge rules (current ! i) (current ! j) \<noteq> None"

definition first_pair :: "merge_rule list \<Rightarrow> entry list \<Rightarrow> (nat \<times> nat) option" where
  "first_pair rules current =
     find (\<lambda>(i, j). merges rules current i j) (row_major_pairs (length current))"

lemma set_row_major_pairs: "set (row_major_pairs n) = {(i, j). i < j \<and> j < n}"
  by (auto simp: row_major_pairs_def image_iff)

lemma first_pair_SomeD:
  "first_pair rules current = Some (i, j) \<Longrightarrow>
   i < j \<and> j < length current \<and> merges rules current i j"
  using set_row_major_pairs[of "length current"]
  by (auto simp: first_pair_def find_Some_iff) (metis (mono_tags, lifting) case_prodD mem_Collect_eq nth_mem)+

function merge_restart :: "merge_rule list \<Rightarrow> entry list \<Rightarrow> entry list" where
  "merge_restart rules current =
     (case first_pair rules current of
        None \<Rightarrow> current
      | Some (i, j) \<Rightarrow>
          merge_restart rules
            (apply_merge current i j (the (first_merge rules (current ! i) (current ! j)))))"
  by pat_completeness auto
termination
  by (relation "measure (\<lambda>(_, current). length current)")
    (auto dest!: first_pair_SomeD simp: length_apply_merge)

declare merge_restart.simps [simp del]

lemma find_append:
  "find P (xs @ ys) = (case find P xs of None \<Rightarrow> find P ys | Some x \<Rightarrow> Some x)"
  by (induction xs) auto

lemma first_pairI:
  assumes "i < j" "j < length current" "merges rules current i j"
    and rows: "\<And>i' j'. i' < i \<Longrightarrow> i' < j' \<Longrightarrow> j' < length current \<Longrightarrow> \<not> merges rules current i' j'"
    and row: "\<And>j'. i < j' \<Longrightarrow> j' < j \<Longrightarrow> \<not> merges rules current i j'"
  shows "first_pair rules current = Some (i, j)"
proof -
  let ?n = "length current"
  have outer: "[0..<?n] = [0..<i] @ i # [Suc i..<?n]"
    using assms(1,2) by (metis (no_types, lifting) less_imp_add_positive less_trans
        upt_add_eq_append upt_conv_Cons zero_less_iff_neq_zero less_imp_le_nat le0 add_0 le_add_diff_inverse2 le_add_diff_inverse)
  have inner: "[Suc i..<?n] = [Suc i..<j] @ j # [Suc j..<?n]"
    using assms(1,2) by (metis (no_types, lifting) Suc_leI le_add_diff_inverse less_imp_le_nat
        upt_add_eq_append upt_conv_Cons)
  have "find (\<lambda>(i, j). merges rules current i j) (concat (map (\<lambda>i. map (Pair i) [Suc i..<?n]) [0..<i])) = None"
    using rows by (auto simp: find_None_iff)
  moreover have "find (\<lambda>(i, j). merges rules current i j) (map (Pair i) [Suc i..<j]) = None"
    using row by (auto simp: find_None_iff)
  ultimately show ?thesis
    unfolding first_pair_def row_major_pairs_def outer
    using assms(3) by (simp add: find_append inner)
qed

lemma first_pair_NoneI:
  "(\<And>i j. i < j \<Longrightarrow> j < length current \<Longrightarrow> \<not> merges rules current i j) \<Longrightarrow>
   first_pair rules current = None"
  by (auto simp: first_pair_def find_None_iff set_row_major_pairs)

lemma first_pair_NoneD:
  "first_pair rules current = None \<Longrightarrow> i < j \<Longrightarrow> j < length current \<Longrightarrow> \<not> merges rules current i j"
  by (auto simp: first_pair_def find_None_iff set_row_major_pairs)

text \<open>The two halves of the loop invariant of the source comment.\<close>

definition rows_free :: "merge_rule list \<Rightarrow> entry list \<Rightarrow> nat \<Rightarrow> nat \<Rightarrow> bool" where
  "rows_free rules current settled bound \<longleftrightarrow>
     (\<forall>i < settled. \<forall>j. i < j \<and> j < bound \<longrightarrow> \<not> merges rules current i j)"

definition row_free :: "merge_rule list \<Rightarrow> entry list \<Rightarrow> nat \<Rightarrow> nat \<Rightarrow> bool" where
  "row_free rules current i bound \<longleftrightarrow> (\<forall>j. i < j \<and> j < bound \<longrightarrow> \<not> merges rules current i j)"

lemma row_free_start [simp]: "row_free rules current i (Suc i)"
  by (auto simp: row_free_def)

lemma nth_apply_merge:
  assumes "i < j" "j < length current" "n < length current - 2"
  shows "apply_merge current i j e ! n =
    current ! (if n < i then n else if Suc n < j then Suc n else Suc (Suc n))"
  using assms by (auto simp: apply_merge_def nth_append length_remove_nth nth_remove_nth)

lemma rows_free_apply_merge:
  assumes "rows_free rules current settled bound" "i < j" "j < length current"
    and "settled' \<le> i \<and> settled' \<le> settled \<or> Suc settled' \<le> settled \<and> Suc settled' \<le> j"
    and "length current \<le> Suc bound" "bound \<le> length current" "bound = length current \<or> Suc j = length current"
  shows "rows_free rules (apply_merge current i j e) settled' (length current - 2)"
  unfolding rows_free_def merges_def
proof (intro allI impI)
  fix i' j' assume "i' < settled'" "i' < j' \<and> j' < length current - 2"
  then show "\<not> first_merge rules (apply_merge current i j e ! i') (apply_merge current i j e ! j') \<noteq> None"
    using assms by (auto simp: nth_apply_merge rows_free_def merges_def)
qed

lemma merge_restart_step:
  assumes "first_pair rules current = Some (i, j)"
    and "first_merge rules (current ! i) (current ! j) = Some e"
  shows "merge_restart rules current = merge_restart rules (apply_merge current i j e)"
  by (subst merge_restart.simps) (simp add: assms)

lemma revalidate_restart:
  assumes "revalidate_prefix_against_tail reg current settled k = (current', settled', reg')"
    and "settled < length current" "k \<le> settled"
    and "rows_free (rr_rules reg) current settled (length current - 1)"
    and "\<And>i. i < k \<Longrightarrow> \<not> merges (rr_rules reg) current i (length current - 1)"
  shows "merge_restart (rr_rules reg) current = merge_restart (rr_rules reg) current' \<and>
    rows_free (rr_rules reg) current' settled' (length current') \<and>
    settled' < length current' \<and> rr_rules reg' = rr_rules reg"
  using assms
proof (induction reg current settled k rule: revalidate_induct)
  case (stop reg current settled k)
  have "\<not> merges (rr_rules reg) current i j" if "i < settled" "i < j" "j < length current" for i j
    using stop that by (cases "j = length current - 1") (auto simp: rows_free_def)
  then have "rows_free (rr_rules reg) current settled (length current)"
    by (simp add: rows_free_def)
  with stop show ?case by (simp add: revalidate_simps)
next
  case (merge reg current settled k e)
  let ?t = "length current - 1"
  have k: "k < ?t" "?t < length current" using merge.hyps(1) merge.prems(2) by auto
  have "first_pair (rr_rules reg) current = Some (k, ?t)"
  proof (rule first_pairI[OF k])
    show "merges (rr_rules reg) current k ?t" using merge.hyps(2) by (simp add: merges_def)
  next
    fix i' j' assume "i' < k" "i' < j'" "j' < length current"
    then show "\<not> merges (rr_rules reg) current i' j'"
      using merge.prems(4,5) merge.hyps(1) unfolding rows_free_def
      by (cases "j' = ?t") auto
  next
    fix j' assume "k < j'" "j' < ?t"
    then show "\<not> merges (rr_rules reg) current k j'"
      using merge.prems(4) merge.hyps(1) unfolding rows_free_def by blast
  qed
  note step = merge_restart_step[OF this merge.hyps(2)]
  have len: "length (apply_merge current k ?t e) = ?t" using k by (rule length_apply_merge)
  have "rows_free (rr_rules reg) (apply_merge current k ?t e) (settled - 1) (length current - 2)"
    using merge.hyps(1) merge.prems(2) k by (intro rows_free_apply_merge[OF merge.prems(4)]) auto
  then have "rows_free (rr_rules (count_attempt reg)) (apply_merge current k ?t e) (settled - 1)
      (length (apply_merge current k ?t e) - 1)"
    using len by (simp add: numeral_2_eq_2)
  then show ?case
    using merge.IH merge.prems(1,2) merge.hyps len step by (simp add: revalidate_simps(2))
next
  case (skip reg current settled k)
  then have "\<not> merges (rr_rules reg) current i (length current - 1)" if "i < k + 1" for i
    using that by (cases "i = k") (auto simp: merges_def)
  with skip show ?case by (simp add: revalidate_simps(3))
qed

lemma merge_loop_simps:
  "\<not> settled < length current \<Longrightarrow> merge_loop reg current settled d = (current, reg)"
  "settled < length current \<Longrightarrow> length current \<le> settled + 1 + d \<Longrightarrow>
   merge_loop reg current settled d = merge_loop reg current (settled + 1) 0"
  "settled + 1 + d < length current \<Longrightarrow>
   first_merge (rr_rules reg) (current ! settled) (current ! (settled + 1 + d)) = Some e \<Longrightarrow>
   revalidate_prefix_against_tail (count_attempt reg)
     (apply_merge current settled (settled + 1 + d) e) settled 0 = (current', settled', reg') \<Longrightarrow>
   merge_loop reg current settled d = merge_loop reg' current' settled' 0"
  "settled + 1 + d < length current \<Longrightarrow>
   first_merge (rr_rules reg) (current ! settled) (current ! (settled + 1 + d)) = None \<Longrightarrow>
   merge_loop reg current settled d = merge_loop (count_attempt reg) current settled (d + 1)"
  by (subst merge_loop.simps; simp add: try_merge_pair_def)+

lemma merge_loop_induct [case_names stop row merge skip]:
  assumes "\<And>reg current settled d. \<not> settled < length current \<Longrightarrow> P reg current settled d"
    and "\<And>reg current settled d. settled < length current \<Longrightarrow> length current \<le> settled + 1 + d \<Longrightarrow>
      P reg current (settled + 1) 0 \<Longrightarrow> P reg current settled d"
    and "\<And>reg current settled d e current' settled' reg'. settled + 1 + d < length current \<Longrightarrow>
      first_merge (rr_rules reg) (current ! settled) (current ! (settled + 1 + d)) = Some e \<Longrightarrow>
      revalidate_prefix_against_tail (count_attempt reg)
        (apply_merge current settled (settled + 1 + d) e) settled 0 = (current', settled', reg') \<Longrightarrow>
      P reg' current' settled' 0 \<Longrightarrow> P reg current settled d"
    and "\<And>reg current settled d. settled + 1 + d < length current \<Longrightarrow>
      first_merge (rr_rules reg) (current ! settled) (current ! (settled + 1 + d)) = None \<Longrightarrow>
      P (count_attempt reg) current settled (d + 1) \<Longrightarrow> P reg current settled d"
  shows "P reg current settled d"
proof (induction reg current settled d rule: merge_loop.induct)
  case (1 reg current settled d)
  consider "\<not> settled < length current"
    | "settled < length current" "length current \<le> settled + 1 + d"
    | e where "settled + 1 + d < length current"
      "first_merge (rr_rules reg) (current ! settled) (current ! (settled + 1 + d)) = Some e"
    | "settled + 1 + d < length current"
      "first_merge (rr_rules reg) (current ! settled) (current ! (settled + 1 + d)) = None"
    by fastforce
  then show ?case
  proof cases
    case 3
    obtain current' settled' reg' where r: "revalidate_prefix_against_tail (count_attempt reg)
        (apply_merge current settled (settled + 1 + d) e) settled 0 = (current', settled', reg')"
      by (metis prod_cases3)
    have "P reg' current' settled' 0"
      using 1(3)[of _ "Some e" "count_attempt reg" e current' "(settled', reg')"] 3 r
      by (simp add: try_merge_pair_def)
    then show ?thesis by (rule assms(3)[OF 3 r])
  next
    case 4
    then show ?thesis using 1(2)[OF _ refl] assms(4) by (simp add: try_merge_pair_def)
  qed (use 1(1)[OF _ refl] assms(1,2) in auto)
qed

lemma merge_loop_restart:
  assumes "rows_free (rr_rules reg) current settled (length current)"
    and "row_free (rr_rules reg) current settled (settled + 1 + d)"
    and "settled + 1 + d \<le> length current \<or> settled \<ge> length current \<or> d = 0"
  shows "fst (merge_loop reg current settled d) = merge_restart (rr_rules reg) current \<and>
    rr_rules (snd (merge_loop reg current settled d)) = rr_rules reg"
  using assms
proof (induction reg current settled d rule: merge_loop_induct)
  case (stop reg current settled d)
  then have "first_pair (rr_rules reg) current = None"
    by (intro first_pair_NoneI) (auto simp: rows_free_def)
  with stop(1) show ?case by (subst merge_restart.simps) (simp add: merge_loop_simps)
next
  case (row reg current settled d)
  then have "rows_free (rr_rules reg) current (settled + 1) (length current)"
    by (auto simp: rows_free_def row_free_def less_Suc_eq)
  then show ?case using row by (simp add: merge_loop_simps(2))
next
  case (merge reg current settled d e current' settled' reg')
  let ?j = "settled + 1 + d"
  have j: "settled < ?j" by simp
  have "first_pair (rr_rules reg) current = Some (settled, ?j)"
    using merge.hyps(1,2) merge.prems(1,2)
    by (intro first_pairI) (auto simp: merges_def rows_free_def row_free_def)
  note step = merge_restart_step[OF this merge.hyps(2)]
  have len: "length (apply_merge current settled ?j e) = length current - 1"
    using merge.hyps(1) by (intro length_apply_merge) auto
  have "rows_free (rr_rules reg) (apply_merge current settled ?j e) settled (length current - 2)"
    using merge.hyps(1) by (intro rows_free_apply_merge[OF merge.prems(1)]) auto
  then have "merge_restart (rr_rules reg) (apply_merge current settled ?j e) =
        merge_restart (rr_rules reg) current' \<and>
      rows_free (rr_rules reg) current' settled' (length current') \<and>
      settled' < length current' \<and> rr_rules reg' = rr_rules reg"
    using revalidate_restart[OF merge.hyps(3)] len merge.hyps(1) by (simp add: numeral_2_eq_2)
  then show ?case
    using merge.IH merge.hyps step by (simp add: merge_loop_simps(3))
next
  case (skip reg current settled d)
  then have "row_free (rr_rules reg) current settled (settled + 1 + (d + 1))"
    by (auto simp: row_free_def merges_def less_Suc_eq)
  with skip show ?case by (simp add: merge_loop_simps(4))
qed

lemma merge_fixed_point_restart:
  "fst (merge_fixed_point reg current) = merge_restart (rr_rules reg) current"
  unfolding merge_fixed_point_def
  by (rule conjunct1[OF merge_loop_restart]) (auto simp: rows_free_def row_free_def)

end
