(* ===== verification/Coalesce_Cost.thy ===== *)
theory Coalesce_Cost
  imports Coalesce_Props
begin

text \<open>
  The cost of the merge loop (\<open>crates/nmp-router/src/coalesce.rs\<close>, the comment on
  \<open>merge_fixed_point\<close>): the number of pair attempts the registry counts is quadratic in the
  number of entries.
\<close>

lemma unat_count_attempt: "unat (rr_pair_attempts (count_attempt reg)) \<le> unat (rr_pair_attempts reg) + 1"
  by (simp add: count_attempt_def unat_sat_add)

lemma revalidate_attempts:
  assumes "revalidate_prefix_against_tail reg current settled k = (current', settled', reg')"
    and "k \<le> settled" "settled < length current"
  shows "settled' \<le> settled \<and> length current' + (settled - settled') = length current \<and>
    unat (rr_pair_attempts reg') + k
      \<le> unat (rr_pair_attempts reg) + (settled - settled' + 1) * settled"
  using assms
proof (induction reg current settled k rule: revalidate_induct)
  case (stop reg current settled k)
  then show ?case by (simp add: revalidate_simps)
next
  case (merge reg current settled k e)
  have len: "length (apply_merge current k (length current - 1) e) = length current - 1"
    using merge.hyps(1) merge.prems(3) by (intro length_apply_merge) auto
  have ih: "settled' \<le> settled - 1 \<and>
      length current' + (settled - 1 - settled') = length current - 1 \<and>
      unat (rr_pair_attempts reg')
        \<le> unat (rr_pair_attempts (count_attempt reg)) + (settled - 1 - settled' + 1) * (settled - 1)"
    using merge.IH merge.prems merge.hyps len by (simp add: revalidate_simps(2))
  obtain s where s: "settled = Suc s" using merge.hyps(1) by (cases settled) auto
  obtain q where q: "s = settled' + q" using ih s by (auto simp: le_iff_add)
  have "(q + 1) * s + 1 + k \<le> (q + 2) * Suc s"
    using merge.hyps(1) s by (simp add: algebra_simps)
  with ih show ?case
    using unat_count_attempt[of reg] merge.hyps(1) merge.prems(3) s q
    by (simp add: algebra_simps)
next
  case (skip reg current settled k)
  then show ?case using unat_count_attempt[of reg] by (simp add: revalidate_simps(3))
qed

lemma merge_loop_attempts:
  assumes "settled + d \<le> length current"
  shows "unat (rr_pair_attempts (snd (merge_loop reg current settled d))) + d
    \<le> unat (rr_pair_attempts reg) + 3 * (length current * length current)
      + (length current - settled) * length current"
  using assms
proof (induction reg current settled d rule: merge_loop_induct)
  case (stop reg current settled d)
  then show ?case by (simp add: merge_loop_simps)
next
  case (row reg current settled d)
  have "(length current - settled) * length current =
      length current + (length current - (settled + 1)) * length current"
    using row.hyps(1) by (metis Suc_diff_Suc Suc_eq_plus1 mult_Suc)
  with row show ?case by (simp add: merge_loop_simps(2))
next
  case (merge reg current settled d e current' settled' reg')
  let ?a = "apply_merge current settled (settled + 1 + d) e"
  have len: "length ?a = length current - 1"
    using merge.hyps(1) by (intro length_apply_merge) auto
  have rv: "settled' \<le> settled" "length current' + (settled - settled') = length current - 1"
    "unat (rr_pair_attempts reg')
      \<le> unat (rr_pair_attempts (count_attempt reg)) + (settled - settled' + 1) * settled"
    using revalidate_attempts[OF merge.hyps(3)] len merge.hyps(1) by linarith+
  obtain q where q: "settled = settled' + q" using rv(1) by (auto simp: le_iff_add)
  obtain r where r: "length current' = settled' + r"
    using rv(2) merge.hyps(1) q by (intro that[of "length current' - settled'"]) simp
  have L: "length current = settled' + r + 1 + q" using rv(2) r q merge.hyps(1) by simp
  have "unat (rr_pair_attempts (snd (merge_loop reg' current' settled' 0)))
      \<le> unat (rr_pair_attempts reg') + 3 * ((settled' + r) * (settled' + r)) + r * (settled' + r)"
    using merge.IH r by simp
  also have "\<dots> \<le> unat (rr_pair_attempts reg) + 1 + (q + 1) * (settled' + q)
      + 3 * ((settled' + r) * (settled' + r)) + r * (settled' + r)"
    using rv(3) q unat_count_attempt[of reg] by simp
  finally have "unat (rr_pair_attempts (snd (merge_loop reg current settled d)))
      \<le> unat (rr_pair_attempts reg) + 1 + (q + 1) * (settled' + q)
        + 3 * ((settled' + r) * (settled' + r)) + r * (settled' + r)"
    using merge.hyps by (simp add: merge_loop_simps(3))
  moreover have "d \<le> settled' + r + 1 + q" using merge.hyps(1) L by simp
  ultimately show ?case
    using L q by (simp add: algebra_simps)
next
  case (skip reg current settled d)
  then show ?case using unat_count_attempt[of reg] by (simp add: merge_loop_simps(4))
qed

lemma merge_fixed_point_attempts:
  "unat (rr_pair_attempts (snd (merge_fixed_point reg current)))
     \<le> unat (rr_pair_attempts reg) + 4 * (length current * length current)"
  using merge_loop_attempts[of 0 0 current reg] by (simp add: merge_fixed_point_def)

end
