(* ===== verification/Coalesce_Semantics.thy ===== *)
theory Coalesce_Semantics
  imports Coalesce_Cost
begin

text \<open>
  What coalescing keeps. \<open>owned\<close> collects everything an entry carries beside its filter
  (coverage claims, owner demands, coverage assignments, route provenance); \<open>regrouping m xs ys\<close>
  says that \<open>ys\<close> is a sound regrouping of \<open>xs\<close>: nothing owned or matched is lost, and whatever an
  entry of \<open>ys\<close> owns stems from an entry of \<open>xs\<close> whose matches it contains. The locale
  \<open>widening_rules\<close> is the contract of the module comment of \<open>coalesce.rs\<close>; it is interpreted on
  the registry the engine ships.
\<close>

datatype owned_item =
    OwnedClaim coverage_key
  | OwnedDemand demand_key
  | OwnedAssignment "demand_key \<times> public_key"
  | OwnedRoute route_provenance

definition ownership_items :: "entry_ownership \<Rightarrow> owned_item set" where
  "ownership_items ow =
     OwnedClaim ` fset (eo_coverage_claims ow) \<union> OwnedDemand ` fset (eo_owner_demands ow) \<union>
     OwnedAssignment ` fset (eo_coverage_assignments ow)"

definition owned :: "entry \<Rightarrow> owned_item set" where
  "owned x = OwnedRoute ` set (fst (snd x)) \<union> ownership_items (snd (snd x))"

definition contained :: "(concrete_filter \<Rightarrow> event \<Rightarrow> bool) \<Rightarrow> entry \<Rightarrow> entry \<Rightarrow> bool" where
  "contained m x y \<longleftrightarrow> (\<forall>e. m (fst x) e \<longrightarrow> m (fst y) e)"

definition regrouping ::
  "(concrete_filter \<Rightarrow> event \<Rightarrow> bool) \<Rightarrow> entry list \<Rightarrow> entry list \<Rightarrow> bool" where
  "regrouping m xs ys \<longleftrightarrow>
     (\<forall>x \<in> set xs. \<exists>y \<in> set ys. contained m x y \<and> owned x \<subseteq> owned y) \<and>
     (\<forall>y \<in> set ys. \<forall>c \<in> owned y. \<exists>x \<in> set xs. c \<in> owned x \<and> contained m x y)"

lemma ownership_items_extend:
  "ownership_items (ownership_extend a b) = ownership_items a \<union> ownership_items b"
  by (auto simp: ownership_items_def ownership_extend_def)

lemma owned_extend_entry:
  "owned (extend_entry x prov ow) = owned x \<union> owned (f, prov, ow)"
  by (auto simp: owned_def extend_entry_def ownership_items_extend)

lemma contained_refl [simp]: "contained m x x"
  by (simp add: contained_def)

lemma contained_same: "fst x = fst y \<Longrightarrow> contained m x y"
  by (simp add: contained_def)

lemma contained_trans: "contained m x y \<Longrightarrow> contained m y z \<Longrightarrow> contained m x z"
  by (simp add: contained_def)

lemma regrouping_refl: "regrouping m xs xs"
  unfolding regrouping_def using contained_refl by blast

lemma regrouping_trans: "regrouping m xs ys \<Longrightarrow> regrouping m ys zs \<Longrightarrow> regrouping m xs zs"
  unfolding regrouping_def by (meson contained_trans subset_trans)

section \<open>Both dedup passes group by filter\<close>

definition owned_total :: "entry list \<Rightarrow> concrete_filter \<Rightarrow> owned_item set" where
  "owned_total xs g = (\<Union>x \<in> {x \<in> set xs. fst x = g}. owned x)"

definition groups_of :: "entry list \<Rightarrow> entry list \<Rightarrow> bool" where
  "groups_of xs ys \<longleftrightarrow> distinct (map fst ys) \<and> fst ` set ys = fst ` set xs \<and>
     (\<forall>y \<in> set ys. owned y = owned_total xs (fst y))"

lemma owned_total_append: "owned_total (xs @ ys) g = owned_total xs g \<union> owned_total ys g"
  by (auto simp: owned_total_def)

lemma owned_total_Cons: "owned_total (x # xs) g = (if fst x = g then owned x else {}) \<union> owned_total xs g"
  by (auto simp: owned_total_def)

lemma owned_total_Nil [simp]: "owned_total [] g = {}"
  by (simp add: owned_total_def)

lemma owned_total_absent: "g \<notin> fst ` set xs \<Longrightarrow> owned_total xs g = {}"
  by (induction xs) (auto simp: owned_total_Cons)

lemma groups_of_regrouping:
  assumes "groups_of xs ys"
  shows "regrouping m xs ys"
  unfolding regrouping_def
proof (intro conjI ballI)
  fix x assume x: "x \<in> set xs"
  then have "fst x \<in> fst ` set ys" using assms by (auto simp: groups_of_def)
  then obtain y where y: "y \<in> set ys" "fst y = fst x" by auto
  then have "owned x \<subseteq> owned y" using assms x by (auto simp: groups_of_def owned_total_def)
  with y show "\<exists>y \<in> set ys. contained m x y \<and> owned x \<subseteq> owned y"
    using contained_same[of x y] by auto
next
  fix y c assume "y \<in> set ys" "c \<in> owned y"
  then have "c \<in> owned_total xs (fst y)" using assms by (simp add: groups_of_def)
  then show "\<exists>x \<in> set xs. c \<in> owned x \<and> contained m x y"
    by (auto simp: owned_total_def contained_def)
qed

definition dedup_map :: "entry list \<Rightarrow> (concrete_filter, entry) fmap" where
  "dedup_map xs = fold (\<lambda>(f, prov, ownership).
      fm_upsert f (\<lambda>e. extend_entry e prov ownership) (f, prov, ownership)) xs fmempty"

lemma dedup_map_snoc:
  "fmlookup (dedup_map (xs @ [(f, prov, ow)])) g =
     (if g = f then Some (case fmlookup (dedup_map xs) f of
                            None \<Rightarrow> (f, prov, ow) | Some v \<Rightarrow> extend_entry v prov ow)
      else fmlookup (dedup_map xs) g)"
  by (simp add: dedup_map_def fmlookup_fm_upsert)

lemma dedup_map_lookup:
  "(fmlookup (dedup_map xs) g = None \<longleftrightarrow> g \<notin> fst ` set xs) \<and>
   (\<forall>y. fmlookup (dedup_map xs) g = Some y \<longrightarrow> fst y = g \<and> owned y = owned_total xs g)"
proof (induction xs arbitrary: g rule: rev_induct)
  case Nil
  show ?case by (simp add: dedup_map_def)
next
  case (snoc x xs)
  obtain f prov ow where x: "x = (f, prov, ow)" by (cases x)
  show ?case
  proof (cases "g = f")
    case True
    show ?thesis
    proof (cases "fmlookup (dedup_map xs) f")
      case None
      then have "owned_total xs f = {}" using snoc[of f] owned_total_absent by blast
      with None show ?thesis
        using True unfolding x dedup_map_snoc by (simp add: owned_total_append owned_total_Cons)
    next
      case (Some v)
      then have "fst v = f \<and> owned v = owned_total xs f" using snoc[of f] by blast
      with Some show ?thesis
        using True owned_extend_entry[of v prov ow f] unfolding x dedup_map_snoc
        by (simp add: owned_total_append owned_total_Cons extend_entry_def)
    qed
  next
    case False
    then show ?thesis
      using snoc[of g] unfolding x dedup_map_snoc by (auto simp: owned_total_append owned_total_Cons)
  qed
qed

lemma dedup_exact_groups: "groups_of xs (dedup_exact xs)"
proof -
  have eq: "dedup_exact xs = fm_values (dedup_map xs)"
    by (simp add: dedup_exact_def dedup_map_def)
  have key: "fmlookup (dedup_map xs) g = Some y \<Longrightarrow> fst y = g \<and> owned y = owned_total xs g" for g y
    using dedup_map_lookup by blast
  have "map fst (fm_values (dedup_map xs)) = map fst (sorted_list_of_fmap (dedup_map xs))"
    unfolding fm_values_def map_map
    by (rule map_cong[OF refl]) (use key in \<open>auto simp: set_sorted_list_of_fmap\<close>)
  then have "distinct (map fst (dedup_exact xs))"
    by (simp add: eq distinct_map_fst_sorted_list_of_fmap)
  moreover have "g \<in> fst ` set (dedup_exact xs) \<longleftrightarrow> g \<in> fst ` set xs" for g
  proof -
    have "g \<in> fst ` set (dedup_exact xs) \<longleftrightarrow> (\<exists>y. fmlookup (dedup_map xs) g = Some y)"
      unfolding eq set_fm_values using key by (force simp: image_iff)
    then show ?thesis using dedup_map_lookup[of xs g] by auto
  qed
  moreover have "owned y = owned_total xs (fst y)" if "y \<in> set (dedup_exact xs)" for y
    using that key unfolding eq set_fm_values by blast
  ultimately show ?thesis unfolding groups_of_def by blast
qed

lemma groups_of_length: "groups_of xs ys \<Longrightarrow> length ys \<le> length xs"
  unfolding groups_of_def
  by (metis card_length distinct_card image_set length_map)

definition index_ok :: "(concrete_filter, nat) fmap \<Rightarrow> entry list \<Rightarrow> bool" where
  "index_ok first_index out \<longleftrightarrow>
     (\<forall>f i. fmlookup first_index f = Some i \<longleftrightarrow> i < length out \<and> fst (out ! i) = f)"

lemma owned_total_list_update:
  assumes "i < length out" "fst (out ! i) = f"
  shows "owned_total (out[i := extend_entry (out ! i) prov ow]) g = owned_total out g \<union> owned_total [(f, prov, ow)] g"
proof -
  have "owned_total out g = owned_total (take i out @ out ! i # drop (Suc i) out) g"
    using assms(1) by (simp add: id_take_nth_drop[symmetric])
  then show ?thesis
    using assms owned_extend_entry[of "out ! i" prov ow f]
    by (auto simp: upd_conv_take_nth_drop owned_total_append owned_total_Cons extend_entry_def)
qed

lemma index_ok_distinct: "index_ok first_index out \<Longrightarrow> distinct (map fst out)"
  unfolding index_ok_def distinct_conv_nth
  by (metis length_map nth_map option.inject)

lemma index_ok_absent:
  assumes "index_ok first_index out" "fmlookup first_index f = None"
  shows "f \<notin> fst ` set out"
proof
  assume "f \<in> fst ` set out"
  then obtain i where "i < length out" "fst (out ! i) = f" by (auto simp: in_set_conv_nth)
  then have "fmlookup first_index f = Some i" using assms(1) unfolding index_ok_def by blast
  with assms(2) show False by simp
qed

lemma index_ok_snoc:
  assumes "index_ok first_index out" "fmlookup first_index f = None"
  shows "index_ok (fmupd f (length out) first_index) (out @ [(f, prov, ow)])"
  unfolding index_ok_def
proof (intro allI)
  fix g i
  have *: "fmlookup first_index g = Some i \<longleftrightarrow> i < length out \<and> fst (out ! i) = g" for g i
    using assms(1) unfolding index_ok_def by blast
  show "fmlookup (fmupd f (length out) first_index) g = Some i \<longleftrightarrow>
      i < length (out @ [(f, prov, ow)]) \<and> fst ((out @ [(f, prov, ow)]) ! i) = g"
    using *[of g i] *[of f i] assms(2) by (cases "i < length out") (auto simp: nth_append)
qed

lemma map_fst_extend_nth:
  "i < length out \<Longrightarrow> map fst (out[i := extend_entry (out ! i) prov ow]) = map fst out"
  by (rule nth_equalityI) (auto simp: nth_list_update extend_entry_def)

lemma index_ok_same_keys:
  "index_ok first_index out \<Longrightarrow> map fst out' = map fst out \<Longrightarrow> index_ok first_index out'"
proof -
  assume ok: "index_ok first_index out" and eq: "map fst out' = map fst out"
  have "length out' = length out" using eq map_eq_imp_length_eq by blast
  moreover have "i < length out \<Longrightarrow> fst (out' ! i) = fst (out ! i)" for i
    using eq calculation by (metis nth_map)
  ultimately show ?thesis using ok unfolding index_ok_def by auto
qed

lemma dedup_survivors_loop_groups:
  "index_ok first_index out \<Longrightarrow> (\<forall>y \<in> set out. owned y = owned_total seen (fst y)) \<Longrightarrow>
   fst ` set out = fst ` set seen \<Longrightarrow>
   groups_of (seen @ xs) (dedup_survivors_loop xs first_index out)"
proof (induction xs arbitrary: first_index out seen)
  case Nil
  then show ?case by (simp add: groups_of_def index_ok_distinct)
next
  case (Cons x xs)
  obtain f prov ow where x: "x = (f, prov, ow)" by (cases x)
  show ?case
  proof (cases "fmlookup first_index f")
    case None
    then have new: "f \<notin> fst ` set out"
      by (rule index_ok_absent[OF Cons.prems(1)])
    then have "owned_total seen f = {}" using owned_total_absent Cons.prems(3) by metis
    then have "owned y = owned_total (seen @ [x]) (fst y)" if "y \<in> set (out @ [x])" for y
      using Cons.prems(2) new x that
      by (cases "y = x") (force simp: owned_total_append owned_total_Cons)+
    moreover have "index_ok (fmupd f (length out) first_index) (out @ [x])"
      unfolding x by (rule index_ok_snoc[OF Cons.prems(1) None])
    ultimately show ?thesis
      using Cons.IH[of _ "out @ [x]" "seen @ [x]"] Cons.prems(3) None x by simp
  next
    case (Some i)
    then have i: "i < length out" "fst (out ! i) = f" using Cons.prems(1) by (auto simp: index_ok_def)
    let ?out = "out[i := extend_entry (out ! i) prov ow]"
    have fsts: "map fst ?out = map fst out"
      by (rule map_fst_extend_nth[OF i(1)])
    have "index_ok first_index ?out"
      by (rule index_ok_same_keys[OF Cons.prems(1) fsts])
    moreover have "\<forall>y \<in> set ?out. owned y = owned_total (seen @ [x]) (fst y)"
    proof
      fix y assume "y \<in> set ?out"
      then consider "y = extend_entry (out ! i) prov ow" | j where "j < length out" "j \<noteq> i" "y = out ! j"
        using i(1) by (metis in_set_conv_nth length_list_update nth_list_update_eq nth_list_update_neq)
      then show "owned y = owned_total (seen @ [x]) (fst y)"
      proof cases
        case 1
        then show ?thesis using Cons.prems(2) i owned_extend_entry[of "out ! i" prov ow f] x
          by (simp add: owned_total_append owned_total_Cons extend_entry_def)
      next
        case 2
        then have "fst y \<noteq> f" using index_ok_distinct[OF Cons.prems(1)] i
          by (metis length_map nth_eq_iff_index_eq nth_map)
        then show ?thesis using Cons.prems(2) 2 x by (simp add: owned_total_append owned_total_Cons)
      qed
    qed
    moreover have "fst ` set ?out = fst ` set (seen @ [x])"
    proof -
      have "fst ` set ?out = fst ` set out" using fsts by (metis list.set_map)
      moreover have "f \<in> fst ` set out" using i by (metis image_eqI nth_mem)
      ultimately show ?thesis using Cons.prems(3) x by auto
    qed
    ultimately show ?thesis
      using Cons.IH[of first_index ?out "seen @ [x]"] Some x by simp
  qed
qed

lemma dedup_survivors_groups: "groups_of xs (dedup_survivors xs)"
  using dedup_survivors_loop_groups[of fmempty "[]" "[]" xs]
  by (simp add: dedup_survivors_def index_ok_def)

section \<open>Merge steps\<close>

inductive merge_step :: "merge_rule list \<Rightarrow> entry list \<Rightarrow> entry list \<Rightarrow> bool" for rules where
  merge_at: "i < j \<Longrightarrow> j < length current \<Longrightarrow>
    first_merge rules (current ! i) (current ! j) = Some merged \<Longrightarrow>
    merge_step rules current (apply_merge current i j merged)"

lemma merge_restart_steps: "(merge_step rules)\<^sup>*\<^sup>* current (merge_restart rules current)"
proof (induction rules current rule: merge_restart.induct)
  case (1 rules current)
  show ?case
  proof (cases "first_pair rules current")
    case None
    then show ?thesis by (subst merge_restart.simps) simp
  next
    case (Some p)
    obtain i j where p: "p = (i, j)" by (cases p)
    obtain e where e: "i < j" "j < length current"
      "first_merge rules (current ! i) (current ! j) = Some e"
      using first_pair_SomeD[OF Some[unfolded p]] by (auto simp: merges_def)
    have "merge_step rules current (apply_merge current i j e)" by (rule merge_at[OF e])
    then show ?thesis
      using 1[OF Some p[symmetric]] e(3) merge_restart_step[OF Some[unfolded p] e(3)]
      by (simp add: converse_rtranclp_into_rtranclp)
  qed
qed

lemma merge_restart_free:
  "i < j \<Longrightarrow> j < length (merge_restart rules current) \<Longrightarrow>
   \<not> merges rules (merge_restart rules current) i j"
proof (induction rules current rule: merge_restart.induct)
  case (1 rules current)
  show ?case
  proof (cases "first_pair rules current")
    case None
    then have "merge_restart rules current = current" by (subst merge_restart.simps) simp
    then show ?thesis using first_pair_NoneD[OF None] 1(2,3) by simp
  next
    case (Some p)
    obtain a b where p: "p = (a, b)" by (cases p)
    show ?thesis using 1(1)[OF Some p[symmetric]] 1(2,3) merge_restart.simps[of rules current] Some p by simp
  qed
qed

lemma set_apply_merge:
  assumes "i < j" "j < length current"
  shows "\<exists>rest. mset current = add_mset (current ! i) (add_mset (current ! j) (mset rest)) \<and>
    set (apply_merge current i j e) = insert e (set rest)"
proof (intro exI conjI)
  have "remove_nth j current ! i = current ! i"
    using assms by (simp add: nth_remove_nth)
  then have "add_mset (current ! i) (mset (remove_nth i (remove_nth j current))) =
      mset (remove_nth j current)"
    using mset_remove_nth[of i "remove_nth j current"] assms by (simp add: length_remove_nth)
  then show "mset current = add_mset (current ! i)
      (add_mset (current ! j) (mset (remove_nth i (remove_nth j current))))"
    using mset_remove_nth[OF assms(2)] by (simp add: add_mset_commute[of "current ! i"])
  show "set (apply_merge current i j e) = insert e (set (remove_nth i (remove_nth j current)))"
    by (auto simp: apply_merge_def)
qed

lemma fst_coalesce_with:
  "fst (coalesce_with reg xs) = dedup_survivors (merge_restart (rr_rules reg) (dedup_exact xs))"
  by (simp add: coalesce_with_def merge_fixed_point_restart[symmetric] split: prod.split)

lemma snd_coalesce_with: "snd (coalesce_with reg xs) = snd (merge_fixed_point reg (dedup_exact xs))"
  by (simp add: coalesce_with_def split: prod.split)

lemma coalesced_filters:
  "fst ` set (fst (coalesce_with reg xs)) = fst ` set (merge_restart (rr_rules reg) (dedup_exact xs))"
  "distinct (map fst (fst (coalesce_with reg xs)))"
  using dedup_survivors_groups[of "merge_restart (rr_rules reg) (dedup_exact xs)"]
  by (simp_all add: fst_coalesce_with groups_of_def)

section \<open>The widening contract\<close>

locale widening_rules =
  fixes rules :: "merge_rule list"
  assumes widens: "match_event_contract m \<Longrightarrow> r \<in> set rules \<Longrightarrow>
    mr_try_merge r a b = Some c \<Longrightarrow> m a e \<or> m b e \<Longrightarrow> m c e"
begin

lemma first_merge_folds:
  assumes "match_event_contract m" "first_merge rules x y = Some z"
  shows "contained m x z" "contained m y z" "owned z = owned x \<union> owned y"
proof -
  have "contained m x z \<and> contained m y z \<and> owned z = owned x \<union> owned y"
    if "first_merge rs x y = Some z" "set rs \<subseteq> set rules" for rs
    using that
  proof (induction rs)
    case (Cons r rs)
    show ?case
    proof (cases "mr_try_merge r (fst x) (fst y)")
      case None
      with Cons show ?thesis by simp
    next
      case (Some c)
      have "contained m x z \<and> contained m y z"
        using Cons.prems Some widens[OF assms(1) _ Some] by (auto simp: contained_def)
      moreover have "owned z = owned x \<union> owned y"
        using Cons.prems(1) Some by (auto simp: owned_def ownership_items_extend)
      ultimately show ?thesis by blast
    qed
  qed simp
  from this[OF assms(2)] show "contained m x z" "contained m y z" "owned z = owned x \<union> owned y"
    by auto
qed

lemma merge_step_regrouping:
  assumes "match_event_contract m" "merge_step rules xs ys"
  shows "regrouping m xs ys"
  using assms(2)
proof (cases rule: merge_step.cases)
  case (merge_at i j e)
  let ?x = "xs ! i" and ?y = "xs ! j"
  obtain rest where rest: "mset xs = add_mset ?x (add_mset ?y (mset rest))"
    "set ys = insert e (set rest)"
    using set_apply_merge[OF merge_at(2,3)] merge_at(1) by blast
  have xs: "set xs = insert ?x (insert ?y (set rest))"
    using arg_cong[OF rest(1), of set_mset] by simp
  note merged = first_merge_folds[OF assms(1) merge_at(4)]
  show ?thesis
    unfolding regrouping_def xs rest(2)
  proof (intro conjI ballI)
    fix x assume "x \<in> insert ?x (insert ?y (set rest))"
    then consider "x = ?x" | "x = ?y" | "x \<in> set rest" by blast
    then show "\<exists>y \<in> insert e (set rest). contained m x y \<and> owned x \<subseteq> owned y"
      by cases (use merged contained_refl in blast)+
  next
    fix y c assume y: "y \<in> insert e (set rest)" "c \<in> owned y"
    then consider "y = e" | "y \<in> set rest" by blast
    then show "\<exists>x \<in> insert ?x (insert ?y (set rest)). c \<in> owned x \<and> contained m x y"
      by cases (use y merged contained_refl in blast)+
  qed
qed

lemma merge_steps_regrouping:
  "(merge_step rules)\<^sup>*\<^sup>* xs ys \<Longrightarrow> match_event_contract m \<Longrightarrow> regrouping m xs ys"
  by (induction rule: rtranclp_induct) (auto intro: regrouping_refl regrouping_trans merge_step_regrouping)

lemma coalesce_with_regrouping:
  assumes "match_event_contract m" "rr_rules reg = rules"
  shows "regrouping m xs (fst (coalesce_with reg xs))"
proof -
  have "regrouping m (dedup_exact xs) (merge_restart rules (dedup_exact xs))"
    by (rule merge_steps_regrouping[OF merge_restart_steps assms(1)])
  then show ?thesis
    unfolding fst_coalesce_with assms(2)
    by (rule regrouping_trans[OF regrouping_trans[OF groups_of_regrouping[OF dedup_exact_groups]]
          groups_of_regrouping[OF dedup_survivors_groups]])
qed

end

locale exact_rules = widening_rules +
  assumes no_surplus: "match_event_contract m \<Longrightarrow> r \<in> set rules \<Longrightarrow>
    mr_try_merge r a b = Some c \<Longrightarrow> m c e \<Longrightarrow> m a e \<or> m b e"
begin

lemma first_merge_exact:
  assumes "match_event_contract m" "first_merge rules x y = Some z" "m (fst z) e"
  shows "m (fst x) e \<or> m (fst y) e"
proof -
  have "first_merge rs x y = Some z \<Longrightarrow> set rs \<subseteq> set rules \<Longrightarrow> m (fst x) e \<or> m (fst y) e" for rs
    using assms(3) by (induction rs) (auto split: option.splits dest: no_surplus[OF assms(1)])
  from this[OF assms(2)] show ?thesis by simp
qed

lemma merge_steps_exact:
  "(merge_step rules)\<^sup>*\<^sup>* xs ys \<Longrightarrow> match_event_contract m \<Longrightarrow>
   y \<in> set ys \<Longrightarrow> m (fst y) e \<Longrightarrow> \<exists>x \<in> set xs. m (fst x) e"
proof (induction arbitrary: y rule: rtranclp_induct)
  case (step ys zs)
  from step.hyps(2) have "\<exists>x \<in> set ys. m (fst x) e"
  proof (cases rule: merge_step.cases)
    case (merge_at i j merged)
    have "set zs \<subseteq> insert merged (set ys)"
      using set_remove_nth_subset[of i "remove_nth j ys"] set_remove_nth_subset[of j ys]
      unfolding merge_at(1) apply_merge_def by auto
    then consider "y = merged" | "y \<in> set ys" using step.prems(2) by blast
    then show ?thesis
    proof cases
      case 1
      then show ?thesis
        using first_merge_exact[OF step.prems(1) \<open>first_merge rules (ys ! i) (ys ! j) = Some merged\<close>]
          step.prems(3) \<open>i < j\<close> \<open>j < length ys\<close> by (metis nth_mem less_trans)
    next
      case 2
      then show ?thesis using step.prems(3) by blast
    qed
  qed
  then show ?case using step.IH step.prems(1) by blast
qed auto

lemma coalesce_with_exact:
  assumes "match_event_contract m" "rr_rules reg = rules"
  shows "(\<exists>y \<in> set (fst (coalesce_with reg xs)). m (fst y) e) \<longleftrightarrow> (\<exists>x \<in> set xs. m (fst x) e)"
proof
  assume "\<exists>x \<in> set xs. m (fst x) e"
  then show "\<exists>y \<in> set (fst (coalesce_with reg xs)). m (fst y) e"
    using coalesce_with_regrouping[OF assms, of xs] unfolding regrouping_def contained_def by blast
next
  assume "\<exists>y \<in> set (fst (coalesce_with reg xs)). m (fst y) e"
  then obtain g where g: "g \<in> fst ` set (fst (coalesce_with reg xs))" "m g e" by blast
  then have "g \<in> fst ` set (merge_restart rules (dedup_exact xs))"
    using coalesced_filters(1)[of reg xs] assms(2) by simp
  then obtain x where "x \<in> set (dedup_exact xs)" "m (fst x) e"
    using merge_steps_exact[OF merge_restart_steps assms(1)] g(2) by blast
  moreover have "fst ` set (dedup_exact xs) = fst ` set xs"
    using dedup_exact_groups by (simp add: groups_of_def)
  ultimately show "\<exists>x \<in> set xs. m (fst x) e" by (metis imageE image_eqI)
qed

end

interpretation shipped: exact_rules "rr_rules default_widen_only"
  by unfold_locales
    (auto simp: default_widen_only_def StructuralUnion_def dest: structural_union_exact)

section \<open>Properties of the shipped coalescer\<close>

lemma coalesce_entries:
  "set (map (\<lambda>f. (f, [], default_ownership)) (sorted_list_of_fset fs)) =
     (\<lambda>f. (f, [], default_ownership)) ` fset fs"
  by simp

text \<open>C1: The filters the shipped registry sends after coalescing match exactly the events the
  demanded filters match: no demanded event is lost, and no event is fetched that no demand asked
  for (the module comment only promises the widening direction).\<close>

theorem coalesce_matches_exactly:
  assumes "match_event_contract m"
  shows "(\<exists>f \<in> set (coalesce default_widen_only fs). m f e) \<longleftrightarrow> (\<exists>f. f |\<in>| fs \<and> m f e)"
  using shipped.coalesce_with_exact[OF assms refl,
      of "map (\<lambda>f. (f, [], default_ownership)) (sorted_list_of_fset fs)" e]
  unfolding coalesce_entries by (auto simp: coalesce_def)

definition kind_author :: "u16 \<Rightarrow> string \<Rightarrow> concrete_filter" where
  "kind_author k a = ConcreteFilter (Some {|k|}) (Some {|a|}) None fmempty None None None"

definition note_by :: "string \<Rightarrow> event" where
  "note_by a = \<lparr>ev_id = ''e'', ev_pubkey = a, ev_created_at = 5, ev_kind = 1, ev_tags = [],
     ev_content = [], ev_sig = []\<rparr>"

lemma nip01_kind_author:
  "nip01_match (kind_author k a) (note_by b) \<longleftrightarrow> k = 1 \<and> a = b"
  by (auto simp: nip01_match_def kind_author_def note_by_def axis_admits_def window_admits_def
      sorted_list_of_fmap_def)

theorem coalesce_matches_exactly_witness:
  "match_event_contract nip01_match \<and>
   (\<exists>f \<in> set (coalesce default_widen_only {|kind_author 1 ''a'', kind_author 1 ''b''|}).
      nip01_match f (note_by ''b'')) \<and>
   \<not> (\<exists>f \<in> set (coalesce default_widen_only {|kind_author 1 ''a'', kind_author 1 ''b''|}).
      nip01_match f (note_by ''c''))"
  unfolding coalesce_matches_exactly[OF nip01_match_contract]
  by (auto simp: nip01_match_contract nip01_kind_author)

text \<open>C2: Coverage attribution through a coalesce. For the registry the router forks per compile,
  every input entry has an output entry that matches at least its events and owns everything it
  owned (claims, demands, assignments, provenance); and whatever an output entry owns was owned by
  an input entry whose matches it contains, so a claim is never credited to a filter that does not
  cover it.\<close>

theorem coalesce_with_containment:
  assumes "match_event_contract m"
  shows "regrouping m entries (fst (coalesce_with (fork default_widen_only) entries))"
  by (rule shipped.coalesce_with_regrouping[OF assms]) (simp add: fork_def)

theorem coalesce_with_containment_witness:
  "match_event_contract nip01_match \<and>
   regrouping nip01_match [(kind_author 1 ''a'', [], default_ownership)]
     (fst (coalesce_with (fork default_widen_only) [(kind_author 1 ''a'', [], default_ownership)]))"
  using coalesce_with_containment[OF nip01_match_contract] nip01_match_contract by blast

text \<open>C14: The output of a coalesce is a fixed point: the filters are pairwise distinct and the
  structural union accepts no two of them, in either order.\<close>

theorem coalesce_reaches_fixed_point:
  "distinct (coalesce default_widen_only fs) \<and>
   (\<forall>f g. f \<in> set (coalesce default_widen_only fs) \<longrightarrow>
      g \<in> set (coalesce default_widen_only fs) \<longrightarrow> structural_union_try_merge f g = None)"
proof -
  define entries where "entries = map (\<lambda>f. (f, [] :: route_provenance list, default_ownership))
    (sorted_list_of_fset fs)"
  define out where "out = merge_restart [StructuralUnion] (dedup_exact entries)"
  have reg: "rr_rules default_widen_only = [StructuralUnion]" by (simp add: default_widen_only_def)
  have set: "set (coalesce default_widen_only fs) = fst ` set out"
    using coalesced_filters(1)[of default_widen_only entries] reg by (simp add: coalesce_def entries_def out_def)
  have ordered: "structural_union_try_merge (fst (out ! i)) (fst (out ! j)) = None"
    if "i < j" "j < length out" for i j
    using merge_restart_free[of i j "[StructuralUnion]" "dedup_exact entries"] that
    by (auto simp: out_def merges_def StructuralUnion_def split: option.splits)
  have "structural_union_try_merge (fst (out ! i)) (fst (out ! j)) = None"
    if "i < length out" "j < length out" for i j
    using ordered[of i j] ordered[of j i] that structural_union_sym
      sole_difference_refl[of "fst (out ! i)"]
    by (cases i j rule: linorder_cases) (auto simp: structural_union_try_merge_def)
  then have "structural_union_try_merge f g = None" if "f \<in> fst ` set out" "g \<in> fst ` set out" for f g
    using that by (metis (no_types, lifting) imageE in_set_conv_nth)
  then show ?thesis
    using coalesced_filters(2)[of default_widen_only entries] set by (simp add: coalesce_def entries_def)
qed

theorem coalesce_reaches_fixed_point_witness:
  "distinct (coalesce default_widen_only {|kind_author 1 ''a'', kind_author 1 ''b''|})"
  using coalesce_reaches_fixed_point by blast

text \<open>C13: The incremental loop of \<open>merge_fixed_point\<close> performs exactly the merges of the loop
  that restarts its row-major scan from the first row after every merge: for every registry and
  every vector of entries the two return the same vector, in the same order.\<close>

theorem merge_fixed_point_equals_restart:
  "fst (merge_fixed_point reg current) = merge_restart (rr_rules reg) current"
  by (rule merge_fixed_point_restart)

text \<open>C15: The cost bound of the loop comment: coalescing \<open>n\<close> entries counts at most
  \<open>4 * n * n\<close> pair attempts on a freshly forked registry, whatever the rules.\<close>

theorem coalesce_pair_attempts_quadratic:
  "unat (rr_pair_attempts (snd (coalesce_with (fork reg) entries)))
     \<le> 4 * (length entries * length entries)"
proof -
  let ?d = "dedup_exact entries"
  have "length ?d \<le> length entries" by (rule groups_of_length[OF dedup_exact_groups])
  then have "4 * (length ?d * length ?d) \<le> 4 * (length entries * length entries)"
    by (simp add: mult_le_mono)
  moreover have "unat (rr_pair_attempts (snd (coalesce_with (fork reg) entries)))
      \<le> 4 * (length ?d * length ?d)"
    using merge_fixed_point_attempts[of "fork reg" ?d] snd_coalesce_with[of "fork reg" entries]
    by (simp add: fork_def)
  ultimately show ?thesis by (rule order_trans[rotated])
qed

section \<open>The drop mechanism\<close>

text \<open>The contract a candidate rule is tested for, and a chain of \<open>register\<close> calls on a registry.\<close>

definition widens_matches :: "merge_rule \<Rightarrow> bool" where
  "widens_matches rule \<longleftrightarrow>
     (\<forall>m a b c e. match_event_contract m \<longrightarrow> mr_try_merge rule a b = Some c \<longrightarrow> m a e \<or> m b e \<longrightarrow> m c e)"

definition register_all :: "rule_registry \<Rightarrow> (merge_rule \<times> bool) list \<Rightarrow> rule_registry" where
  "register_all reg candidates = foldl (\<lambda>reg (rule, verified). register reg rule verified) reg candidates"

lemma register_all_result:
  "rr_rules (register_all reg candidates) = rr_rules reg @ map fst (filter snd candidates)"
  "rr_dropped (register_all reg candidates) = rr_dropped reg @ map (mr_name \<circ> fst) (filter (Not \<circ> snd) candidates)"
  unfolding register_all_def by (induction candidates arbitrary: reg) (auto simp: register_def)

lemma widening_registry:
  assumes "\<And>rule. rule \<in> set rules \<Longrightarrow> widens_matches rule"
  shows "widening_rules rules"
  using assms unfolding widens_matches_def by unfold_locales blast

lemma structural_union_widens: "widens_matches StructuralUnion"
proof -
  have "StructuralUnion \<in> set (rr_rules default_widen_only)" by (simp add: default_widen_only_def)
  then show ?thesis unfolding widens_matches_def using shipped.widens by blast
qed

text \<open>C38: The drop mechanism of the registry. However many candidate rules are registered on top of the
  shipped registry, if those registered as verified do widen, then coalescing with the result (as the
  router forks it) keeps every entry inside an output entry that owns all it owned and credits no
  claim to a filter that does not contain it, whatever the unverified candidates do; and
  the names of exactly these are reported as dropped, in order.\<close>

theorem registered_rules_keep_containment:
  assumes "match_event_contract m" "\<forall>(rule, verified) \<in> set candidates. verified \<longrightarrow> widens_matches rule"
  shows "regrouping m entries (fst (coalesce_with (fork (register_all default_widen_only candidates)) entries)) \<and>
    rr_dropped (register_all default_widen_only candidates) = map (mr_name \<circ> fst) (filter (Not \<circ> snd) candidates)"
proof -
  let ?reg = "fork (register_all default_widen_only candidates)"
  have "widening_rules (rr_rules ?reg)"
    using assms(2) structural_union_widens
    by (intro widening_registry) (auto simp: fork_def register_all_result default_widen_only_def)
  from widening_rules.coalesce_with_regrouping[OF this assms(1) refl]
  show ?thesis by (simp add: register_all_result default_widen_only_def)
qed

theorem registered_rules_keep_containment_witness:
  "rr_dropped (register_all default_widen_only [(DiscardSecondOperand, False), (StructuralUnion, True)]) = [''DiscardSecondOperand''] \<and>
   regrouping nip01_match [(kind_author 1 ''a'', [], default_ownership), (kind_author 1 ''b'', [], default_ownership)]
     (fst (coalesce_with (fork (register_all default_widen_only [(DiscardSecondOperand, False), (StructuralUnion, True)]))
       [(kind_author 1 ''a'', [], default_ownership), (kind_author 1 ''b'', [], default_ownership)]))"
proof -
  have "\<forall>(rule, verified) \<in> set [(DiscardSecondOperand, False), (StructuralUnion, True)]. verified \<longrightarrow> widens_matches rule"
    using structural_union_widens by simp
  from registered_rules_keep_containment[OF nip01_match_contract this] show ?thesis by (simp add: DiscardSecondOperand_def)
qed

end
