(* ===== verification/Solver.thy ===== *)
theory Solver
  imports Routing_Facts
begin

text \<open>
  \<open>crates/nmp-router/src/solver.rs\<close>: the greedy, capped k-cover of authors by relays. The loop
  state is the triple \<open>(selected, assignment, need)\<close>; one round scores the open candidates, picks
  the best one and assigns it. A \<open>usize\<close> is a \<open>nat\<close>: the quantities are sizes of collections, and
  the cap only bounds them.
\<close>

record coverage_input =
  ci_candidates :: "(public_key, laned_relay list) fmap"
  ci_k :: nat
  ci_cap :: nat

datatype shortfall_reason = NoCandidates | FewerCandidatesThanK | CapExhausted

datatype shortfall = Shortfall
  (sf_requested_k: nat) (sf_achieved: nat) (sf_reason: shortfall_reason)

record coverage =
  cov_selected :: "relay_url fset"
  cov_assignment :: "(public_key, relay_url fset) fmap"
  cov_shortfall :: "(public_key, shortfall) fmap"

definition distinct_urls :: "laned_relay list \<Rightarrow> relay_url fset" where
  "distinct_urls rs = fset_of_list (map lr_url rs)"

text \<open>\<open>need.get(author).cloned().unwrap_or(0)\<close> and \<open>assignment[author]\<close>.\<close>

definition need_of :: "(public_key, nat) fmap \<Rightarrow> public_key \<Rightarrow> nat" where
  "need_of need author = (case fmlookup need author of None \<Rightarrow> 0 | Some n \<Rightarrow> n)"

definition assigned_to :: "(public_key, relay_url fset) fmap \<Rightarrow> public_key \<Rightarrow> relay_url fset" where
  "assigned_to assignment author =
     (case fmlookup assignment author of None \<Rightarrow> {||} | Some s \<Rightarrow> s)"

text \<open>The scores of one author's list: each open relay counts once per author.\<close>

fun score_list ::
  "relay_url fset \<Rightarrow> relay_url fset \<Rightarrow> laned_relay list \<Rightarrow> relay_url fset \<Rightarrow>
   (relay_url, nat) fmap \<Rightarrow> (relay_url, nat) fmap" where
  "score_list already_covered selected [] seen scores = scores"
| "score_list already_covered selected (lr # rest) seen scores =
     (if lr_url lr |\<in>| already_covered \<or> lr_url lr |\<in>| selected
      then score_list already_covered selected rest seen scores
      else if lr_url lr |\<in>| seen
      then score_list already_covered selected rest seen scores
      else score_list already_covered selected rest (finsert (lr_url lr) seen)
             (fm_upsert (lr_url lr) Suc 1 scores))"

definition relay_scores ::
  "(public_key, laned_relay list) fmap \<Rightarrow> relay_url fset \<Rightarrow> (public_key, relay_url fset) fmap \<Rightarrow>
   (public_key, nat) fmap \<Rightarrow> (relay_url, nat) fmap" where
  "relay_scores candidates selected assignment need =
     fold (\<lambda>(author, rs) scores.
         if need_of need author = 0 then scores
         else score_list (assigned_to assignment author) selected rs {||} scores)
       (sorted_list_of_fmap candidates) fmempty"

text \<open>\<open>Iterator::max_by\<close> keeps the later of two elements unless the earlier one is greater.\<close>

definition better_score :: "relay_url \<times> nat \<Rightarrow> relay_url \<times> nat \<Rightarrow> bool" where
  "better_score a b \<longleftrightarrow> snd a > snd b \<or> snd a = snd b \<and> fst a < fst b"

definition keep_better ::
  "relay_url \<times> nat \<Rightarrow> (relay_url \<times> nat) option \<Rightarrow> (relay_url \<times> nat) option" where
  "keep_better x best =
     (case best of
        None \<Rightarrow> Some x
      | Some b \<Rightarrow> if better_score b x then Some b else Some x)"

definition best_relay :: "(relay_url, nat) fmap \<Rightarrow> relay_url option" where
  "best_relay scores = map_option fst (fold keep_better (sorted_list_of_fmap scores) None)"

definition assign_relay ::
  "(public_key, laned_relay list) fmap \<Rightarrow> relay_url \<Rightarrow>
   (public_key, relay_url fset) fmap \<times> (public_key, nat) fmap \<Rightarrow>
   (public_key, relay_url fset) fmap \<times> (public_key, nat) fmap" where
  "assign_relay candidates best =
     fold (\<lambda>(author, rs) (assignment, need).
         if need_of need author = 0 then (assignment, need)
         else if list_ex (\<lambda>lr. lr_url lr = best) rs
         then (fmupd author (finsert best (assigned_to assignment author)) assignment,
               fmupd author (need_of need author - 1) need)
         else (assignment, need))
       (sorted_list_of_fmap candidates)"

lemma score_list_keys:
  "r |\<in>| fmdom (score_list cov sel rs seen scores) \<longleftrightarrow>
     r |\<in>| fmdom scores \<or> r \<in> lr_url ` set rs \<and> r |\<notin>| cov \<and> r |\<notin>| sel \<and> r |\<notin>| seen"
  by (induction cov sel rs seen scores rule: score_list.induct) auto

lemma relay_scores_keys:
  "r |\<in>| fmdom (relay_scores candidates selected assignment need) \<longleftrightarrow>
     (\<exists>author rs. fmlookup candidates author = Some rs \<and> need_of need author \<noteq> 0 \<and>
        r \<in> lr_url ` set rs \<and> r |\<notin>| assigned_to assignment author \<and> r |\<notin>| selected)"
proof -
  have "r |\<in>| fmdom (fold (\<lambda>(author, rs) scores. if need_of need author = 0 then scores
          else score_list (assigned_to assignment author) selected rs {||} scores) xs scores) \<longleftrightarrow>
        r |\<in>| fmdom scores \<or> (\<exists>(author, rs) \<in> set xs. need_of need author \<noteq> 0 \<and>
          r \<in> lr_url ` set rs \<and> r |\<notin>| assigned_to assignment author \<and> r |\<notin>| selected)" for xs scores
  proof (induction xs arbitrary: scores)
    case (Cons x xs)
    then show ?case by (cases x) (auto simp: score_list_keys split: if_splits)
  qed simp
  from this[of "sorted_list_of_fmap candidates" fmempty] show ?thesis
    unfolding relay_scores_def set_sorted_list_of_fmap by simp
qed

lemma fold_keep_better_None: "fold keep_better xs acc = None \<longleftrightarrow> acc = None \<and> xs = []"
  by (induction xs arbitrary: acc) (auto simp: keep_better_def split: option.splits)

lemma fold_keep_better_mem:
  "fold keep_better xs acc = Some y \<Longrightarrow> y \<in> set xs \<or> acc = Some y"
proof (induction xs arbitrary: acc)
  case (Cons x xs)
  then have "y \<in> set xs \<or> keep_better x acc = Some y" by simp
  then show ?case by (auto simp: keep_better_def split: option.splits if_splits)
qed simp

lemma best_relay_mem: "best_relay scores = Some r \<Longrightarrow> r |\<in>| fmdom scores"
  unfolding best_relay_def
  by (auto dest!: fold_keep_better_mem simp: set_sorted_list_of_fmap intro: fmdomI)

lemma best_relay_None: "best_relay scores = None \<longleftrightarrow> fmdom scores = {||}"
proof -
  have "best_relay scores = None \<longleftrightarrow> sorted_list_of_fmap scores = []"
    by (simp add: best_relay_def fold_keep_better_None)
  also have "\<dots> \<longleftrightarrow> sorted_list_of_fset (fmdom scores) = sorted_list_of_fset {||}"
    by (simp add: sorted_list_of_fmap_def)
  finally show ?thesis by (simp only: sorted_list_of_fset_inject)
qed

text \<open>The greedy loop.\<close>

function solve_loop ::
  "coverage_input \<Rightarrow> relay_url fset \<Rightarrow> (public_key, relay_url fset) fmap \<Rightarrow> (public_key, nat) fmap \<Rightarrow>
   relay_url fset \<times> (public_key, relay_url fset) fmap \<times> (public_key, nat) fmap" where
  "solve_loop input selected assignment need =
     (if fcard selected \<ge> ci_cap input then (selected, assignment, need)
      else if list_all (\<lambda>n. n = 0) (fm_values need) then (selected, assignment, need)
      else case best_relay (relay_scores (ci_candidates input) selected assignment need) of
             None \<Rightarrow> (selected, assignment, need)
           | Some best \<Rightarrow>
               (let (assignment', need') =
                      assign_relay (ci_candidates input) best (assignment, need)
                in solve_loop input (finsert best selected) assignment' need'))"
  by pat_completeness auto
termination
proof (relation "measure (\<lambda>(input, selected, _, _). ci_cap input - fcard selected)")
  fix input selected assignment need best x assignment' need'
  assume "\<not> ci_cap input \<le> fcard selected"
    "best_relay (relay_scores (ci_candidates input) selected assignment need) = Some best"
  moreover from this(2) have "best |\<notin>| selected"
    by (auto dest!: best_relay_mem simp: relay_scores_keys)
  ultimately show "((input, finsert best selected, assignment', need'), input, selected, assignment, need)
      \<in> measure (\<lambda>(input, selected, _, _). ci_cap input - fcard selected)"
    by (simp add: fcard_finsert_disjoint)
qed simp

declare solve_loop.simps [simp del]

definition shortfall_reason_of :: "nat \<Rightarrow> relay_url fset \<Rightarrow> shortfall_reason" where
  "shortfall_reason_of k candidate_urls =
     (if candidate_urls = {||} then NoCandidates
      else if fcard candidate_urls < k then FewerCandidatesThanK
      else CapExhausted)"

definition shortfalls ::
  "coverage_input \<Rightarrow> (public_key, relay_url fset) fmap \<Rightarrow> (public_key, shortfall) fmap" where
  "shortfalls input assignment =
     fm_filter_map (\<lambda>author assigned.
         if fcard assigned \<ge> ci_k input then None
         else Some (Shortfall (ci_k input) (fcard assigned)
                (shortfall_reason_of (ci_k input)
                  (distinct_urls (the (fmlookup (ci_candidates input) author))))))
       assignment"

definition initial_assignment :: "coverage_input \<Rightarrow> (public_key, relay_url fset) fmap" where
  "initial_assignment input = fmmap (\<lambda>_. {||}) (ci_candidates input)"

definition ceilings :: "coverage_input \<Rightarrow> (public_key, nat) fmap" where
  "ceilings input = fmmap (\<lambda>rs. min (fcard (distinct_urls rs)) (ci_k input)) (ci_candidates input)"

definition solve :: "coverage_input \<Rightarrow> coverage" where
  "solve input =
     (let (selected, assignment, need) =
            solve_loop input {||} (initial_assignment input) (ceilings input)
      in \<lparr>cov_selected = selected, cov_assignment = assignment,
          cov_shortfall = shortfalls input assignment\<rparr>)"

end
