(* ===== verification/Solver_Props.thy ===== *)
theory Solver_Props
  imports Solver
begin

text \<open>
  Correctness of the coverage solver: the loop invariant (what an author still needs plus what it
  has is its ceiling, an open author has every selected relay it lists) and what it gives on exit.
\<close>

definition author_ok ::
  "nat \<Rightarrow> relay_url fset \<Rightarrow> relay_url fset \<Rightarrow> nat \<Rightarrow> relay_url fset \<Rightarrow> bool" where
  "author_ok k selected assigned n urls \<longleftrightarrow>
     assigned |\<subseteq>| urls \<and> assigned |\<subseteq>| selected \<and> n + fcard assigned = min (fcard urls) k \<and>
     (n \<noteq> 0 \<longrightarrow> selected |\<inter>| urls |\<subseteq>| assigned)"

lemma author_ok_hit:
  assumes "author_ok k selected assigned n urls" "b |\<notin>| selected" "b |\<in>| urls" "n \<noteq> 0"
  shows "author_ok k (finsert b selected) (finsert b assigned) (n - 1) urls"
proof -
  have "b |\<notin>| assigned" using assms(1,2) unfolding author_ok_def by blast
  then have "n - 1 + fcard (finsert b assigned) = min (fcard urls) k"
    using assms(1,4) unfolding author_ok_def by (cases n) (simp_all add: fcard_finsert_disjoint)
  then show ?thesis using assms unfolding author_ok_def by blast
qed

lemma author_ok_miss:
  "author_ok k selected assigned n urls \<Longrightarrow> n = 0 \<or> b |\<notin>| urls \<Longrightarrow>
   author_ok k (finsert b selected) assigned n urls"
  unfolding author_ok_def by blast

definition cover_inv ::
  "coverage_input \<Rightarrow> relay_url fset \<Rightarrow> (public_key, relay_url fset) fmap \<Rightarrow>
   (public_key, nat) fmap \<Rightarrow> bool" where
  "cover_inv input selected assignment need \<longleftrightarrow>
     fcard selected \<le> ci_cap input \<and>
     fmdom assignment = fmdom (ci_candidates input) \<and>
     (\<forall>author. fmlookup (ci_candidates input) author = None \<longrightarrow> need_of need author = 0) \<and>
     (\<forall>author rs. fmlookup (ci_candidates input) author = Some rs \<longrightarrow>
        author_ok (ci_k input) selected (assigned_to assignment author) (need_of need author)
          (distinct_urls rs))"

lemma cover_invD:
  assumes "cover_inv input selected assignment need"
  shows "fcard selected \<le> ci_cap input" "fmdom assignment = fmdom (ci_candidates input)"
    and "fmlookup (ci_candidates input) author = None \<Longrightarrow> need_of need author = 0"
    and "fmlookup (ci_candidates input) author = Some rs \<Longrightarrow>
      author_ok (ci_k input) selected (assigned_to assignment author) (need_of need author)
        (distinct_urls rs)"
  using assms unfolding cover_inv_def by blast+

definition relay_hits ::
  "(public_key \<times> laned_relay list) list \<Rightarrow> relay_url \<Rightarrow> (public_key, nat) fmap \<Rightarrow> public_key \<Rightarrow> bool" where
  "relay_hits xs best need a \<longleftrightarrow>
     need_of need a \<noteq> 0 \<and> (\<exists>rs. map_of xs a = Some rs \<and> best |\<in>| distinct_urls rs)"

lemma list_ex_url: "list_ex (\<lambda>lr. lr_url lr = best) rs \<longleftrightarrow> best |\<in>| distinct_urls rs"
  by (auto simp: list_ex_iff distinct_urls_def fset_of_list.rep_eq image_iff)

lemma need_of_fmupd: "need_of (fmupd a n need) b = (if b = a then n else need_of need b)"
  by (simp add: need_of_def)

lemma assigned_to_fmupd:
  "assigned_to (fmupd a s assignment) b = (if b = a then s else assigned_to assignment b)"
  by (simp add: assigned_to_def)

lemma assign_fold:
  assumes "distinct (map fst xs)"
    and "fold (\<lambda>(author, rs) (assignment, need).
         if need_of need author = 0 then (assignment, need)
         else if list_ex (\<lambda>lr. lr_url lr = best) rs
         then (fmupd author (finsert best (assigned_to assignment author)) assignment,
               fmupd author (need_of need author - 1) need)
         else (assignment, need)) xs (assignment, need) = (assignment', need')"
    and "fst ` set xs \<subseteq> fset (fmdom assignment)"
  shows "assigned_to assignment' a =
      (if relay_hits xs best need a then finsert best (assigned_to assignment a)
       else assigned_to assignment a) \<and>
    need_of need' a = (if relay_hits xs best need a then need_of need a - 1 else need_of need a) \<and>
    fmdom assignment' = fmdom assignment"
  using assms
proof (induction xs arbitrary: assignment need)
  case Nil
  then show ?case by (simp add: relay_hits_def)
next
  case (Cons x xs)
  obtain author rs where x: "x = (author, rs)" by (cases x)
  have fresh: "map_of xs author = None" using Cons.prems(1) x by (simp add: map_of_eq_None_iff)
  show ?case
  proof (cases "need_of need author \<noteq> 0 \<and> best |\<in>| distinct_urls rs")
    case True
    let ?asg = "fmupd author (finsert best (assigned_to assignment author)) assignment"
    let ?need = "fmupd author (need_of need author - 1) need"
    have dom: "fmdom ?asg = fmdom assignment"
      using Cons.prems(3) x by (auto simp: finsert_absorb)
    have ih: "assigned_to assignment' a =
        (if relay_hits xs best ?need a then finsert best (assigned_to ?asg a) else assigned_to ?asg a) \<and>
      need_of need' a = (if relay_hits xs best ?need a then need_of ?need a - 1 else need_of ?need a) \<and>
      fmdom assignment' = fmdom ?asg"
      using Cons.prems True x dom by (intro Cons.IH) (auto simp: list_ex_url)
    show ?thesis
    proof (cases "a = author")
      case eq: True
      have "\<not> relay_hits xs best ?need a" "relay_hits (x # xs) best need a"
        using fresh True eq x by (auto simp: relay_hits_def)
      then show ?thesis using ih dom eq by (simp add: need_of_fmupd assigned_to_fmupd)
    next
      case False
      then have "relay_hits xs best ?need a \<longleftrightarrow> relay_hits (x # xs) best need a"
        using x by (auto simp: relay_hits_def need_of_fmupd)
      then show ?thesis using ih dom False by (simp add: need_of_fmupd assigned_to_fmupd)
    qed
  next
    case False
    then have "relay_hits xs best need a \<longleftrightarrow> relay_hits (x # xs) best need a"
      using fresh x by (auto simp: relay_hits_def)
    moreover have "fold (\<lambda>(author, rs) (assignment, need).
         if need_of need author = 0 then (assignment, need)
         else if list_ex (\<lambda>lr. lr_url lr = best) rs
         then (fmupd author (finsert best (assigned_to assignment author)) assignment,
               fmupd author (need_of need author - 1) need)
         else (assignment, need)) xs (assignment, need) = (assignment', need')"
      using Cons.prems(2) False x list_ex_url[of best rs]
      by (cases "need_of need author = 0") simp_all
    ultimately show ?thesis
      using Cons.IH[of assignment need] Cons.prems(1,3) by simp
  qed
qed

lemma assign_relay_pointwise:
  assumes "assign_relay candidates best (assignment, need) = (assignment', need')"
    and "fmdom assignment = fmdom candidates"
  shows "assigned_to assignment' a =
      (if relay_hits (sorted_list_of_fmap candidates) best need a
       then finsert best (assigned_to assignment a) else assigned_to assignment a)"
    and "need_of need' a =
      (if relay_hits (sorted_list_of_fmap candidates) best need a
       then need_of need a - 1 else need_of need a)"
    and "fmdom assignment' = fmdom candidates"
proof -
  have "fst ` set (sorted_list_of_fmap candidates) \<subseteq> fset (fmdom assignment)"
    by (auto simp: set_sorted_list_of_fmap assms(2) fmdomI)
  from assign_fold[OF distinct_map_fst_sorted_list_of_fmap assms(1)[unfolded assign_relay_def] this]
  show "assigned_to assignment' a =
      (if relay_hits (sorted_list_of_fmap candidates) best need a
       then finsert best (assigned_to assignment a) else assigned_to assignment a)"
    "need_of need' a =
      (if relay_hits (sorted_list_of_fmap candidates) best need a
       then need_of need a - 1 else need_of need a)"
    "fmdom assignment' = fmdom candidates"
    using assms(2) by auto
qed

lemma relay_hits_lookup:
  "relay_hits (sorted_list_of_fmap candidates) best need a \<longleftrightarrow>
     need_of need a \<noteq> 0 \<and> (\<exists>rs. fmlookup candidates a = Some rs \<and> best |\<in>| distinct_urls rs)"
  by (simp add: relay_hits_def map_of_sorted_list_of_fmap)

lemma best_relay_open:
  assumes "best_relay (relay_scores candidates selected assignment need) = Some best"
  shows "best |\<notin>| selected" "\<exists>a. relay_hits (sorted_list_of_fmap candidates) best need a"
  using best_relay_mem[OF assms]
  by (auto simp: relay_scores_keys relay_hits_lookup distinct_urls_def fset_of_list.rep_eq)

definition open_slots :: "coverage_input \<Rightarrow> (public_key, nat) fmap \<Rightarrow> nat" where
  "open_slots input need = (\<Sum>a \<in> fset (fmdom (ci_candidates input)). need_of need a)"

lemma cover_inv_step:
  assumes inv: "cover_inv input selected assignment need"
    and cap: "fcard selected < ci_cap input"
    and best: "best_relay (relay_scores (ci_candidates input) selected assignment need) = Some best"
    and asg: "assign_relay (ci_candidates input) best (assignment, need) = (assignment', need')"
  shows "cover_inv input (finsert best selected) assignment' need'"
    and "open_slots input need' < open_slots input need"
proof -
  note dom = cover_invD(2)[OF inv]
  note pw = assign_relay_pointwise[OF asg dom, unfolded relay_hits_lookup]
  have new: "best |\<notin>| selected" by (rule best_relay_open(1)[OF best])
  show "cover_inv input (finsert best selected) assignment' need'"
    unfolding cover_inv_def
  proof (intro conjI allI impI)
    show "fcard (finsert best selected) \<le> ci_cap input"
      using cap new by (simp add: fcard_finsert_disjoint)
    show "fmdom assignment' = fmdom (ci_candidates input)" by (rule pw(3))
  next
    fix a assume "fmlookup (ci_candidates input) a = None"
    then show "need_of need' a = 0" using cover_invD(3)[OF inv] pw(2)[of a] by simp
  next
    fix a rs assume rs: "fmlookup (ci_candidates input) a = Some rs"
    note ok = cover_invD(4)[OF inv rs]
    show "author_ok (ci_k input) (finsert best selected) (assigned_to assignment' a)
        (need_of need' a) (distinct_urls rs)"
    proof (cases "need_of need a \<noteq> 0 \<and> best |\<in>| distinct_urls rs")
      case True
      then have "assigned_to assignment' a = finsert best (assigned_to assignment a)"
        "need_of need' a = need_of need a - 1"
        using pw(1,2)[of a] rs by simp_all
      then show ?thesis using author_ok_hit[OF ok new] True by simp
    next
      case False
      then have "assigned_to assignment' a = assigned_to assignment a" "need_of need' a = need_of need a"
        using pw(1,2)[of a] rs by auto
      then show ?thesis using author_ok_miss[OF ok] False by simp
    qed
  qed
  obtain b where b: "relay_hits (sorted_list_of_fmap (ci_candidates input)) best need b"
    using best_relay_open(2)[OF best] by blast
  have "b |\<in>| fmdom (ci_candidates input)" "need_of need' b < need_of need b"
    using b pw(2)[of b] by (auto simp: relay_hits_lookup intro: fmdomI)
  moreover have "need_of need' a \<le> need_of need a" for a
    using pw(2)[of a] by simp
  ultimately show "open_slots input need' < open_slots input need"
    unfolding open_slots_def by (intro sum_strict_mono_ex1) auto
qed

lemma need_values_zero: "list_all (\<lambda>n. n = 0) (fm_values need) \<longleftrightarrow> (\<forall>a. need_of need a = 0)"
  unfolding list_all_iff set_fm_values need_of_def by (auto split: option.splits)

lemma solve_loop_stop:
  assumes "fcard selected \<ge> ci_cap input \<or> list_all (\<lambda>n. n = 0) (fm_values need) \<or>
    best_relay (relay_scores (ci_candidates input) selected assignment need) = None"
  shows "solve_loop input selected assignment need = (selected, assignment, need)"
  using assms solve_loop.simps[of input selected assignment need] by (auto split: if_splits option.splits)

lemma solve_loop_round:
  assumes "\<not> fcard selected \<ge> ci_cap input" "\<not> list_all (\<lambda>n. n = 0) (fm_values need)"
    and "best_relay (relay_scores (ci_candidates input) selected assignment need) = Some best"
    and "assign_relay (ci_candidates input) best (assignment, need) = (assignment', need')"
  shows "solve_loop input selected assignment need =
    solve_loop input (finsert best selected) assignment' need'"
  by (subst solve_loop.simps) (simp add: assms)

lemma solve_loop_result:
  assumes "cover_inv input selected assignment need"
    and "solve_loop input selected assignment need = (selected', assignment', need')"
  shows "cover_inv input selected' assignment' need' \<and>
    (fcard selected' = ci_cap input \<or> (\<forall>a. need_of need' a = 0)) \<and>
    fcard selected' + open_slots input need' \<le> fcard selected + open_slots input need"
  using assms
proof (induction input selected assignment need rule: solve_loop.induct)
  case (1 input selected assignment need)
  show ?case
  proof (cases "fcard selected \<ge> ci_cap input \<or> list_all (\<lambda>n. n = 0) (fm_values need)")
    case True
    then have "(selected', assignment', need') = (selected, assignment, need)"
      using 1(3) solve_loop_stop by metis
    then show ?thesis using True 1(2) cover_invD(1)[OF 1(2)] need_values_zero[of need] by auto
  next
    case False
    show ?thesis
    proof (cases "best_relay (relay_scores (ci_candidates input) selected assignment need)")
      case None
      then have same: "(selected', assignment', need') = (selected, assignment, need)"
        using 1(3) solve_loop_stop by metis
      have "need_of need a = 0" for a
      proof (rule ccontr)
        assume n: "need_of need a \<noteq> 0"
        then obtain rs where rs: "fmlookup (ci_candidates input) a = Some rs"
          using cover_invD(3)[OF 1(2), of a] by (cases "fmlookup (ci_candidates input) a") auto
        note ok = cover_invD(4)[OF 1(2) rs, unfolded author_ok_def]
        have "distinct_urls rs |\<subseteq>| assigned_to assignment a |\<union>| selected"
          using None n rs relay_scores_keys[of _ "ci_candidates input" selected assignment need]
          by (fastforce simp: best_relay_None distinct_urls_def fset_of_list.rep_eq)
        then have "distinct_urls rs |\<subseteq>| assigned_to assignment a"
          using ok n by blast
        then have "fcard (distinct_urls rs) \<le> fcard (assigned_to assignment a)" by (rule fcard_mono)
        then show False using ok n by (auto simp: min_def split: if_splits)
      qed
      then show ?thesis using same 1(2) by auto
    next
      case (Some best)
      obtain asg nd where an: "assign_relay (ci_candidates input) best (assignment, need) = (asg, nd)"
        by (cases "assign_relay (ci_candidates input) best (assignment, need)")
      have cap: "fcard selected < ci_cap input" using False by simp
      note step = cover_inv_step[OF 1(2) cap Some an]
      have "solve_loop input (finsert best selected) asg nd = (selected', assignment', need')"
        using 1(3) False solve_loop_round[OF _ _ Some an] by simp
      then have "cover_inv input selected' assignment' need' \<and>
          (fcard selected' = ci_cap input \<or> (\<forall>a. need_of need' a = 0)) \<and>
          fcard selected' + open_slots input need' \<le> fcard (finsert best selected) + open_slots input nd"
        using 1(1)[OF _ _ Some _ refl] False an step(1) by auto
      then show ?thesis
        using step(2) best_relay_open(1)[OF Some] by (auto simp: fcard_finsert_disjoint)
    qed
  qed
qed

lemma cover_inv_initial: "cover_inv input {||} (initial_assignment input) (ceilings input)"
  by (auto simp: cover_inv_def author_ok_def initial_assignment_def ceilings_def need_of_def
      assigned_to_def fcard_fempty)

lemma open_slots_initial:
  "open_slots input (ceilings input) \<le> ci_k input * fcard (fmdom (ci_candidates input))"
proof -
  have "need_of (ceilings input) a \<le> ci_k input" for a
    by (auto simp: need_of_def ceilings_def split: option.splits)
  then have "open_slots input (ceilings input) \<le> (\<Sum>a \<in> fset (fmdom (ci_candidates input)). ci_k input)"
    unfolding open_slots_def by (intro sum_mono)
  then show ?thesis by (simp add: fcard.rep_eq mult.commute)
qed

lemma solve_result:
  obtains need where
    "cover_inv input (cov_selected (solve input)) (cov_assignment (solve input)) need"
    "fcard (cov_selected (solve input)) = ci_cap input \<or> (\<forall>a. need_of need a = 0)"
    "fcard (cov_selected (solve input)) \<le> ci_k input * fcard (fmdom (ci_candidates input))"
    "cov_shortfall (solve input) = shortfalls input (cov_assignment (solve input))"
proof -
  obtain selected assignment need
    where loop: "solve_loop input {||} (initial_assignment input) (ceilings input) = (selected, assignment, need)"
    by (metis prod_cases3)
  note r = solve_loop_result[OF cover_inv_initial loop]
  have "cov_selected (solve input) = selected" "cov_assignment (solve input) = assignment"
    "cov_shortfall (solve input) = shortfalls input assignment"
    by (simp_all add: solve_def loop)
  then show ?thesis using that[of need] r open_slots_initial[of input] by (simp add: fcard_fempty)
qed

lemma solve_author:
  assumes "fmlookup (ci_candidates input) author = Some rs"
  obtains assigned where "fmlookup (cov_assignment (solve input)) author = Some assigned"
    "assigned |\<subseteq>| distinct_urls rs" "assigned |\<subseteq>| cov_selected (solve input)"
    "fcard assigned \<le> min (fcard (distinct_urls rs)) (ci_k input)"
    "fcard assigned = min (fcard (distinct_urls rs)) (ci_k input) \<or>
     fcard (cov_selected (solve input)) = ci_cap input"
proof -
  obtain need where n: "cover_inv input (cov_selected (solve input)) (cov_assignment (solve input)) need"
    "fcard (cov_selected (solve input)) = ci_cap input \<or> (\<forall>a. need_of need a = 0)"
    by (rule solve_result)
  have "author |\<in>| fmdom (cov_assignment (solve input))"
    using cover_invD(2)[OF n(1)] assms by (simp add: fmdomI)
  then obtain assigned where a: "fmlookup (cov_assignment (solve input)) author = Some assigned"
    by (auto simp: fmlookup_dom_iff)
  have ok: "author_ok (ci_k input) (cov_selected (solve input)) assigned (need_of need author) (distinct_urls rs)"
    using cover_invD(4)[OF n(1) assms] a by (simp add: assigned_to_def)
  have bound: "fcard assigned \<le> min (fcard (distinct_urls rs)) (ci_k input)"
    using ok unfolding author_ok_def by linarith
  have "fcard assigned = min (fcard (distinct_urls rs)) (ci_k input) \<or>
      fcard (cov_selected (solve input)) = ci_cap input"
    using ok n(2) unfolding author_ok_def by (metis add_0)
  then show ?thesis using that[OF a _ _ bound] ok unfolding author_ok_def by blast
qed

text \<open>C23: The coverage solve. The selected relays never exceed the cap; every author's assignment
  consists of relays it lists and that were selected, at most \<open>k\<close> of them; and an author gets all
  it can, \<open>min k\<close> of its distinct relays, unless the cap was reached.\<close>

theorem solve_covers_authors:
  assumes "fmlookup (ci_candidates input) author = Some rs"
  shows "fcard (cov_selected (solve input)) \<le> ci_cap input \<and>
    (\<exists>assigned. fmlookup (cov_assignment (solve input)) author = Some assigned \<and>
       assigned |\<subseteq>| distinct_urls rs \<and> assigned |\<subseteq>| cov_selected (solve input) \<and>
       fcard assigned \<le> ci_k input \<and>
       (fcard assigned = min (fcard (distinct_urls rs)) (ci_k input) \<or>
        fcard (cov_selected (solve input)) = ci_cap input))"
proof -
  obtain need where "cover_inv input (cov_selected (solve input)) (cov_assignment (solve input)) need"
    by (rule solve_result)
  then have "fcard (cov_selected (solve input)) \<le> ci_cap input" by (rule cover_invD(1))
  moreover obtain assigned where "fmlookup (cov_assignment (solve input)) author = Some assigned"
    "assigned |\<subseteq>| distinct_urls rs" "assigned |\<subseteq>| cov_selected (solve input)"
    "fcard assigned \<le> min (fcard (distinct_urls rs)) (ci_k input)"
    "fcard assigned = min (fcard (distinct_urls rs)) (ci_k input) \<or>
     fcard (cov_selected (solve input)) = ci_cap input"
    using solve_author[OF assms] by blast
  ultimately show ?thesis by auto
qed

definition two_author_input :: coverage_input where
  "two_author_input =
     \<lparr>ci_candidates = fmap_of_list
        [(''a'', [LanedRelay ''r1'' AuthorOutbound, LanedRelay ''r2'' AuthorOutbound]),
         (''b'', [LanedRelay ''r2'' AuthorOutbound])],
      ci_k = 2, ci_cap = 10\<rparr>"

theorem solve_covers_authors_witness:
  "fmlookup (ci_candidates two_author_input) ''b'' = Some [LanedRelay ''r2'' AuthorOutbound] \<and>
   (\<exists>assigned. fmlookup (cov_assignment (solve two_author_input)) ''b'' = Some assigned \<and>
      assigned |\<subseteq>| {|''r2''|})"
proof -
  have lk: "fmlookup (ci_candidates two_author_input) ''b'' = Some [LanedRelay ''r2'' AuthorOutbound]"
    by (simp add: two_author_input_def fmlookup_of_list)
  with solve_covers_authors[OF lk] show ?thesis by (auto simp: distinct_urls_def)
qed

text \<open>C24: The shortfall report. An author of the input is reported exactly when it got fewer than
  \<open>k\<close> relays, with the number it got; \<open>NoCandidates\<close> means it lists no relay, and \<open>CapExhausted\<close>
  means that the cap really was reached.\<close>

theorem solve_shortfall_exact:
  "fmlookup (cov_shortfall (solve input)) author = Some sf \<longleftrightarrow>
     (\<exists>assigned rs. fmlookup (cov_assignment (solve input)) author = Some assigned \<and>
        fmlookup (ci_candidates input) author = Some rs \<and> fcard assigned < ci_k input \<and>
        sf = Shortfall (ci_k input) (fcard assigned)
          (shortfall_reason_of (ci_k input) (distinct_urls rs)) \<and>
        (sf_reason sf = NoCandidates \<longleftrightarrow> rs = []) \<and>
        (sf_reason sf = CapExhausted \<longrightarrow> fcard (cov_selected (solve input)) = ci_cap input))"
proof -
  obtain need where n: "cover_inv input (cov_selected (solve input)) (cov_assignment (solve input)) need"
    "cov_shortfall (solve input) = shortfalls input (cov_assignment (solve input))"
    by (rule solve_result)
  show ?thesis
  proof (cases "fmlookup (ci_candidates input) author")
    case None
    then have "fmlookup (cov_assignment (solve input)) author = None"
      using cover_invD(2)[OF n(1)] by (metis fmdom_notD fmdom_notI)
    then show ?thesis using None by (simp add: n(2) shortfalls_def)
  next
    case (Some rs)
    obtain assigned where a: "fmlookup (cov_assignment (solve input)) author = Some assigned"
      "fcard assigned = min (fcard (distinct_urls rs)) (ci_k input) \<or>
       fcard (cov_selected (solve input)) = ci_cap input"
      by (rule solve_author[OF Some])
    have empty: "distinct_urls rs = {||} \<longleftrightarrow> rs = []"
      by (cases rs) (auto simp: distinct_urls_def)
    have "shortfall_reason_of (ci_k input) (distinct_urls rs) = CapExhausted \<Longrightarrow>
        fcard assigned < ci_k input \<Longrightarrow> fcard (cov_selected (solve input)) = ci_cap input"
      using a(2) by (auto simp: shortfall_reason_of_def split: if_splits)
    moreover have "shortfall_reason_of (ci_k input) (distinct_urls rs) = NoCandidates \<longleftrightarrow> rs = []"
      by (simp add: shortfall_reason_of_def empty)
    ultimately show ?thesis using Some a(1) by (auto simp: n(2) shortfalls_def split: if_splits)
  qed
qed

theorem solve_shortfall_exact_witness:
  "fmlookup (cov_shortfall (solve two_author_input)) ''zz'' = None"
proof -
  have "fmlookup (ci_candidates two_author_input) ''zz'' = None"
    by (simp add: two_author_input_def fmlookup_of_list)
  then show ?thesis
    using solve_shortfall_exact[of two_author_input "''zz''"]
    by (cases "fmlookup (cov_shortfall (solve two_author_input)) ''zz''") auto
qed

text \<open>C37: With no effective cap, as the compile calls it, the number of selected relays (the number
  of greedy rounds) is at most \<open>k\<close> times the number of authors.\<close>

theorem solve_rounds_bounded:
  "fcard (cov_selected (solve input)) \<le> ci_k input * fcard (fmdom (ci_candidates input))"
  by (rule solve_result)

text \<open>C40: What \<open>FewerCandidatesThanK\<close> reports. An author that lists some relay but fewer than \<open>k\<close> distinct
  ones always gets this reason, and the achieved count is the number of its relays that were selected.
  The documentation calls that count the author's ceiling; under any cap below the number of its relays
  it is smaller.\<close>

theorem fewer_candidates_below_ceiling:
  assumes "fmlookup (ci_candidates input) author = Some rs" "rs \<noteq> []" "fcard (distinct_urls rs) < ci_k input"
  shows "fmlookup (cov_shortfall (solve input)) author =
      Some (Shortfall (ci_k input) (fcard (distinct_urls rs |\<inter>| cov_selected (solve input))) FewerCandidatesThanK) \<and>
    (ci_cap input < fcard (distinct_urls rs) \<longrightarrow> fcard (distinct_urls rs |\<inter>| cov_selected (solve input)) < fcard (distinct_urls rs))"
proof -
  let ?urls = "distinct_urls rs" and ?sel = "cov_selected (solve input)"
  obtain need where n: "cover_inv input ?sel (cov_assignment (solve input)) need"
    "cov_shortfall (solve input) = shortfalls input (cov_assignment (solve input))" by (rule solve_result)
  obtain assigned where a: "fmlookup (cov_assignment (solve input)) author = Some assigned" by (rule solve_author[OF assms(1)])
  have ok: "assigned |\<subseteq>| ?urls" "assigned |\<subseteq>| ?sel" "need_of need author + fcard assigned = fcard ?urls"
    "need_of need author \<noteq> 0 \<longrightarrow> ?sel |\<inter>| ?urls |\<subseteq>| assigned"
    using cover_invD(4)[OF n(1) assms(1)] a assms(3) by (auto simp: author_ok_def assigned_to_def)
  have "assigned = ?urls |\<inter>| ?sel"
  proof (cases "need_of need author = 0")
    case True
    then have "assigned = ?urls" using ok(1,3) by (intro fcard_seteq) simp_all
    then show ?thesis using ok(2) by blast
  qed (use ok in blast)
  moreover have "?urls \<noteq> {||}" using assms(2) by (cases rs) (auto simp: distinct_urls_def)
  moreover have "fcard (?urls |\<inter>| ?sel) \<le> fcard ?sel" by (intro fcard_mono) blast
  ultimately show ?thesis
    using a assms(1,3) cover_invD(1)[OF n(1)] fcard_mono[OF ok(1)] by (auto simp: n(2) shortfalls_def shortfall_reason_of_def)
qed

theorem fewer_candidates_below_ceiling_witness:
  "\<exists>n. fmlookup (cov_shortfall (solve
       \<lparr>ci_candidates = fmap_of_list [(''a'', [LanedRelay ''r1'' AuthorOutbound, LanedRelay ''r2'' AuthorOutbound])], ci_k = 3, ci_cap = 1\<rparr>)) ''a'' =
     Some (Shortfall 3 n FewerCandidatesThanK) \<and> n < 2"
proof -
  let ?rs = "[LanedRelay ''r1'' AuthorOutbound, LanedRelay ''r2'' AuthorOutbound]"
  have two: "fcard (distinct_urls ?rs) = 2" by (simp add: distinct_urls_def fcard.rep_eq)
  from fewer_candidates_below_ceiling[of "\<lparr>ci_candidates = fmap_of_list [(''a'', ?rs)], ci_k = 3, ci_cap = 1\<rparr>" "''a''" ?rs]
  show ?thesis unfolding two by (auto simp: fmlookup_of_list)
qed

end
