(* ===== verification/Route.thy ===== *)
theory Route
  imports Solver_Props
begin

text \<open>
  \<open>crates/nmp-router/src/route.rs\<close>: author-erased skeletons, classification by declared routing,
  candidate lists and the route lanes. A route is a pair of a relay and its provenance.
\<close>

datatype skeleton = Skeleton (sk_base: concrete_filter)

lemma sk_base_inject [simp]: "sk_base a = sk_base b \<longleftrightarrow> a = b"
  by (cases a; cases b) simp

instantiation skeleton :: linorder
begin

definition less_eq_skeleton :: "skeleton \<Rightarrow> skeleton \<Rightarrow> bool" where
  "less_eq_skeleton a b \<longleftrightarrow> sk_base a \<le> sk_base b"

definition less_skeleton :: "skeleton \<Rightarrow> skeleton \<Rightarrow> bool" where
  "less_skeleton a b \<longleftrightarrow> sk_base a < sk_base b"

instance
  by standard (auto simp: less_eq_skeleton_def less_skeleton_def simp flip: sk_base_inject)

end

definition skeleton_of :: "concrete_filter \<Rightarrow> skeleton \<times> public_key fset" where
  "skeleton_of atom =
     (Skeleton (with_author_set atom None),
      (case cf_authors atom of None \<Rightarrow> {||} | Some authors \<Rightarrow> authors))"

definition with_authors :: "skeleton \<Rightarrow> public_key fset \<Rightarrow> concrete_filter" where
  "with_authors sk authors =
     with_author_set (sk_base sk) (if authors = {||} then None else Some authors)"

datatype atom_class = ClassAuto | ClassExact "relay_url fset"

fun classify :: "read_routing \<Rightarrow> atom_class" where
  "classify Auto = ClassAuto"
| "classify (Explicit relays) = ClassExact (fset_of_list relays)"

fun outbox_authors :: "concrete_filter \<Rightarrow> read_routing \<Rightarrow> public_key fset" where
  "outbox_authors atom Auto = snd (skeleton_of atom)"
| "outbox_authors atom (Explicit relays) = {||}"

definition build_candidates ::
  "public_key fset \<Rightarrow> routing_facts \<Rightarrow> (public_key, laned_relay list) fmap" where
  "build_candidates authors facts =
     fs_filter_map (\<lambda>author. Some (case rf_author_routes facts author of
         Present routes \<Rightarrow>
           map (\<lambda>url. LanedRelay url AuthorOutbound) (sorted_list_of_fset (ar_outbound routes))
       | Unknown \<Rightarrow> []
       | Absent \<Rightarrow> [])) authors"

fun evidence_lane :: "routing_evidence_kind \<Rightarrow> lane" where
  "evidence_lane EvHint = LnHint"
| "evidence_lane SourceProvenance = LnProvenance"

definition push_evidence :: "routing_evidence \<Rightarrow> laned_relay list \<Rightarrow> laned_relay list" where
  "push_evidence ev rs =
     (if list_ex (\<lambda>candidate. lr_url candidate = re_relay ev) rs then rs
      else rs @ [LanedRelay (re_relay ev) (evidence_lane (re_origin ev))])"

definition add_projected_candidates ::
  "(public_key, laned_relay list) fmap \<Rightarrow> (public_key, routing_evidence fset) fmap \<Rightarrow>
   (public_key, laned_relay list) fmap" where
  "add_projected_candidates candidates evidence_by_author =
     fold (\<lambda>(author, evidence) acc.
         fmupd author (fold push_evidence (sorted_list_of_fset evidence)
           (case fmlookup acc author of None \<Rightarrow> [] | Some rs \<Rightarrow> rs)) acc)
       (sorted_list_of_fmap evidence_by_author) candidates"

type_synonym laned_route = "relay_url \<times> route_provenance"

definition provenance_for_projected :: "routing_evidence fset \<Rightarrow> laned_route list" where
  "provenance_for_projected evidence =
     map (\<lambda>ev. (re_relay ev,
            RouteProvenance (re_relay ev) (evidence_lane (re_origin ev)) {||} RkSupplemental))
       (sorted_list_of_fset evidence)"

definition operator_app_routes :: "routing_facts \<Rightarrow> public_key fset \<Rightarrow> laned_route list" where
  "operator_app_routes facts covers_authors =
     map (\<lambda>relay. (relay, RouteProvenance relay OperatorApp covers_authors RkSupplemental))
       (rf_operator_app_relays facts)"

definition operator_fallback_routes :: "routing_facts \<Rightarrow> public_key fset \<Rightarrow> laned_route list" where
  "operator_fallback_routes facts shortfall_authors =
     (if shortfall_authors = {||} \<or> rf_operator_app_relays facts \<noteq> [] then []
      else map (\<lambda>relay. (relay, RouteProvenance relay OperatorFallback shortfall_authors RkSupplemental))
             (rf_operator_fallback_relays facts))"

text \<open>The \<open>expect\<close> of \<open>lane_of\<close> is the \<open>None\<close> of this function.\<close>

definition lane_of ::
  "(public_key, laned_relay list) fmap \<Rightarrow> public_key \<Rightarrow> relay_url \<Rightarrow> lane option" where
  "lane_of candidates author relay =
     Option.bind (fmlookup candidates author)
       (\<lambda>rs. map_option lr_lane (find (\<lambda>candidate. lr_url candidate = relay) rs))"

definition provenance_for_coverage ::
  "coverage \<Rightarrow> (public_key, laned_relay list) fmap \<Rightarrow> laned_route list" where
  "provenance_for_coverage coverage candidates =
     concat (map (\<lambda>(author, relays).
         map (\<lambda>relay. (relay, RouteProvenance relay (the (lane_of candidates author relay))
                {|author|} RkCoverage))
           (sorted_list_of_fset relays))
       (sorted_list_of_fmap (cov_assignment coverage)))"

definition provenance_for_exact :: "relay_url fset \<Rightarrow> laned_route list" where
  "provenance_for_exact relays =
     map (\<lambda>relay. (relay, RouteProvenance relay LnExact {||} RkExact)) (sorted_list_of_fset relays)"

section \<open>Facts about the lanes\<close>

lemma with_authors_skeleton_of:
  "cf_authors f = None \<or> cf_authors f = Some a \<and> a \<noteq> {||} \<Longrightarrow>
   with_authors (fst (skeleton_of f)) (snd (skeleton_of f)) = f"
  by (cases f) (auto simp: with_authors_def skeleton_of_def with_author_set_def)

lemma lane_of_solved:
  assumes "fmlookup (cov_assignment (solve \<lparr>ci_candidates = candidates, ci_k = k, ci_cap = cap\<rparr>)) author
      = Some relays"
    and "relay |\<in>| relays"
  shows "lane_of candidates author relay \<noteq> None"
proof -
  let ?input = "\<lparr>ci_candidates = candidates, ci_k = k, ci_cap = cap\<rparr>"
  obtain need where inv: "cover_inv ?input (cov_selected (solve ?input)) (cov_assignment (solve ?input)) need"
    by (rule solve_result)
  have "author |\<in>| fmdom candidates"
    using cover_invD(2)[OF inv] assms(1) by (metis coverage_input.select_convs(1) fmdomI)
  then obtain rs where rs: "fmlookup candidates author = Some rs" by (auto simp: fmlookup_dom_iff)
  have "relay |\<in>| distinct_urls rs"
    using cover_invD(4)[OF inv, of author rs] rs assms
    by (auto simp: author_ok_def assigned_to_def)
  then have "find (\<lambda>candidate. lr_url candidate = relay) rs \<noteq> None"
    by (auto simp: find_None_iff distinct_urls_def fset_of_list.rep_eq)
  then show ?thesis using rs by (auto simp: lane_of_def)
qed

end
