(* ===== verification/Relay_Plan.thy ===== *)
theory Relay_Plan
  imports Coalesce
begin

text \<open>
  \<open>crates/nmp-router/src/plan.rs\<close>: wire tokens, subscription ids, wire requests, the relay plan and
  the plan diff.
\<close>

datatype wire_token = WireToken (wt_mint: u64)

datatype sub_id = SubId
  (sid_relay: relay_url) (sid_token: wire_token) (sid_authenticate_as: "public_key option")

definition sid_ord :: "sub_id \<Rightarrow> relay_url \<times> u64 \<times> public_key option" where
  "sid_ord s = (sid_relay s, wt_mint (sid_token s), sid_authenticate_as s)"

lemma sid_ord_inject [simp]: "sid_ord a = sid_ord b \<longleftrightarrow> a = b"
  by (auto simp: sid_ord_def sub_id.expand wire_token.expand)

instantiation sub_id :: linorder
begin

definition less_eq_sub_id :: "sub_id \<Rightarrow> sub_id \<Rightarrow> bool" where
  "less_eq_sub_id a b \<longleftrightarrow> sid_ord a \<le> sid_ord b"

definition less_sub_id :: "sub_id \<Rightarrow> sub_id \<Rightarrow> bool" where
  "less_sub_id a b \<longleftrightarrow> sid_ord a < sid_ord b"

instance
  by standard (auto simp: less_eq_sub_id_def less_sub_id_def simp flip: sid_ord_inject)

end

definition allocate :: "relay_url \<Rightarrow> read_routing \<Rightarrow> public_key option \<Rightarrow> u64 \<Rightarrow> sub_id" where
  "allocate relay source authenticate_as counter =
     SubId relay (WireToken counter) authenticate_as"

record wire_req =
  wr_sub_id :: sub_id
  wr_filter :: concrete_filter
  wr_routing :: read_routing
  wr_provenance :: "route_provenance fset"
  wr_coverage_claims :: "coverage_key fset"
  wr_owner_demands :: "demand_key fset"
  wr_coverage_assignments :: "(demand_key \<times> public_key) fset"

record budget_shortfall =
  bs_budget :: nat
  bs_planned :: nat
  bs_refused :: nat

record relay_plan =
  pl_reqs :: "(relay_session_key, wire_req list) fmap"
  pl_limited_demands :: "demand_key fset"
  pl_refused_sessions :: "relay_session_key fset"
  pl_subscription_shortfalls :: "(relay_session_key, budget_shortfall) fmap"

definition default_plan :: relay_plan where
  "default_plan = \<lparr>pl_reqs = fmempty, pl_limited_demands = {||}, pl_refused_sessions = {||},
     pl_subscription_shortfalls = fmempty\<rparr>"

datatype wire_op = Req sub_id concrete_filter | Close sub_id

text \<open>\<open>collect::<BTreeMap<_, _>>()\<close> inserts in order, so the last duplicate wins.\<close>

definition requests_by_sub :: "wire_req list \<Rightarrow> (sub_id, concrete_filter) fmap" where
  "requests_by_sub reqs = fold (\<lambda>r. fmupd (wr_sub_id r) (wr_filter r)) reqs fmempty"

definition session_reqs_of :: "relay_plan \<Rightarrow> relay_session_key \<Rightarrow> wire_req list" where
  "session_reqs_of plan session =
     (case fmlookup (pl_reqs plan) session of None \<Rightarrow> [] | Some reqs \<Rightarrow> reqs)"

definition diff_session ::
  "(sub_id, concrete_filter) fmap \<Rightarrow> (sub_id, concrete_filter) fmap \<Rightarrow> wire_op list" where
  "diff_session prev_by_sub next_by_sub =
     map Close (filter (\<lambda>sub_id. sub_id |\<notin>| fmdom next_by_sub)
                  (sorted_list_of_fset (fmdom prev_by_sub))) @
     map (\<lambda>(s, f). Req s f)
       (filter (\<lambda>(s, f). fmlookup prev_by_sub s \<noteq> Some f) (sorted_list_of_fmap next_by_sub))"

definition diff_plans :: "relay_plan \<Rightarrow> relay_plan \<Rightarrow> (relay_session_key \<times> wire_op list) list" where
  "diff_plans prev nxt =
     filter (\<lambda>(session, relay_ops). relay_ops \<noteq> [])
       (map (\<lambda>session. (session,
              diff_session (requests_by_sub (session_reqs_of prev session))
                (requests_by_sub (session_reqs_of nxt session))))
          (sorted_list_of_fset (fmdom (pl_reqs prev) |\<union>| fmdom (pl_reqs nxt))))"

section \<open>What a delta does to the open subscriptions of a relay session\<close>

fun apply_op :: "wire_op \<Rightarrow> (sub_id, concrete_filter) fmap \<Rightarrow> (sub_id, concrete_filter) fmap" where
  "apply_op (Req s f) m = fmupd s f m"
| "apply_op (Close s) m = fmdrop s m"

definition delta_for ::
  "(relay_session_key \<times> wire_op list) list \<Rightarrow> relay_session_key \<Rightarrow> wire_op list" where
  "delta_for delta session = (case map_of delta session of None \<Rightarrow> [] | Some ops \<Rightarrow> ops)"

lemma fold_close:
  "fmlookup (fold apply_op (map Close ss) m) s = (if s \<in> set ss then None else fmlookup m s)"
  by (induction ss arbitrary: m) auto

lemma fold_req:
  "distinct (map fst xs) \<Longrightarrow>
   fmlookup (fold apply_op (map (\<lambda>(s, f). Req s f) xs) m) s =
     (case map_of xs s of None \<Rightarrow> fmlookup m s | Some f \<Rightarrow> Some f)"
proof (induction xs arbitrary: m)
  case (Cons x xs)
  obtain a b where x: "x = (a, b)" by (cases x)
  have "map_of xs a = None" using Cons.prems x by (simp add: map_of_eq_None_iff)
  then show ?case using Cons x by (auto split: option.splits)
qed simp

lemma map_of_filter_distinct:
  assumes "distinct (map fst xs)"
  shows "map_of (filter P xs) key = Option.bind (map_of xs key) (\<lambda>v. if P (key, v) then Some v else None)"
  using assms
proof (induction xs)
  case (Cons x xs)
  obtain a b where x: "x = (a, b)" by (cases x)
  have "map_of xs a = None" using Cons.prems x by (simp add: map_of_eq_None_iff)
  then show ?case using Cons x by (cases "key = a") auto
qed simp

lemma map_of_filter_fmap:
  "map_of (filter P (sorted_list_of_fmap m)) key =
     Option.bind (fmlookup m key) (\<lambda>v. if P (key, v) then Some v else None)"
  by (simp only: map_of_filter_distinct[OF distinct_map_fst_sorted_list_of_fmap]
      map_of_sorted_list_of_fmap)

lemma diff_session_applies: "fold apply_op (diff_session prev nxt) prev = nxt"
proof (rule fmap_ext)
  fix s
  let ?closed = "filter (\<lambda>sub_id. sub_id |\<notin>| fmdom nxt) (sorted_list_of_fset (fmdom prev))"
  have d: "distinct (map fst (filter (\<lambda>(s, f). fmlookup prev s \<noteq> Some f) (sorted_list_of_fmap nxt)))"
    by (rule distinct_map_filter) (rule distinct_map_fst_sorted_list_of_fmap)
  have closed: "s \<in> set ?closed \<longleftrightarrow> fmlookup prev s \<noteq> None \<and> fmlookup nxt s = None"
    by (simp add: fmlookup_dom_iff)
  show "fmlookup (fold apply_op (diff_session prev nxt) prev) s = fmlookup nxt s"
    unfolding diff_session_def fold_append o_apply fold_req[OF d] map_of_filter_fmap fold_close closed
    by (cases "fmlookup prev s"; cases "fmlookup nxt s") simp_all
qed

lemma diff_session_same: "diff_session m m = []"
  by (auto simp: diff_session_def filter_empty_conv set_sorted_list_of_fmap)

lemma diff_session_closes: "Close s \<in> set (diff_session prev nxt) \<Longrightarrow> s |\<notin>| fmdom nxt"
  by (auto simp: diff_session_def)

lemma requests_by_sub_Nil [simp]: "requests_by_sub [] = fmempty"
  by (simp add: requests_by_sub_def)

lemma delta_for_diff_plans:
  "delta_for (diff_plans prev nxt) session =
     diff_session (requests_by_sub (session_reqs_of prev session))
       (requests_by_sub (session_reqs_of nxt session))"
proof -
  let ?ss = "sorted_list_of_fset (fmdom (pl_reqs prev) |\<union>| fmdom (pl_reqs nxt))"
  let ?d = "\<lambda>s. diff_session (requests_by_sub (session_reqs_of prev s)) (requests_by_sub (session_reqs_of nxt s))"
  have m: "map_of (filter (\<lambda>(session, relay_ops). relay_ops \<noteq> []) (map (\<lambda>s. (s, ?d s)) ss)) session =
      (if session \<in> set ss \<and> ?d session \<noteq> [] then Some (?d session) else None)" if "distinct ss" for ss
    using that by (induction ss) auto
  have "session \<notin> set ?ss \<Longrightarrow> ?d session = []"
    by (simp add: session_reqs_of_def fmdom_notD diff_session_same)
  then show ?thesis
    unfolding delta_for_def diff_plans_def m[OF distinct_sorted_list_of_fset] by auto
qed

text \<open>C22: The wire delta is exact. Applying the operations of \<open>diff_plans prev nxt\<close> to the open
  subscriptions of the previous plan gives, on every relay session, exactly the subscriptions of
  the next plan; a session whose subscriptions did not change does not appear, and no operation
  closes a subscription the next plan keeps.\<close>

theorem diff_plans_exact:
  "fold apply_op (delta_for (diff_plans prev nxt) session)
       (requests_by_sub (session_reqs_of prev session)) =
     requests_by_sub (session_reqs_of nxt session) \<and>
   (requests_by_sub (session_reqs_of prev session) = requests_by_sub (session_reqs_of nxt session)
      \<longrightarrow> session \<notin> fst ` set (diff_plans prev nxt)) \<and>
   (\<forall>s. Close s \<in> set (delta_for (diff_plans prev nxt) session) \<longrightarrow>
      s |\<notin>| fmdom (requests_by_sub (session_reqs_of nxt session)))"
  unfolding delta_for_diff_plans
  using diff_session_applies diff_session_same diff_session_closes
  by (auto simp: diff_plans_def)

theorem diff_plans_exact_witness:
  "diff_plans default_plan default_plan = [] \<and>
   RelaySessionKey ''r'' None \<notin> fst ` set (diff_plans default_plan default_plan)"
  using diff_plans_exact[of default_plan default_plan "RelaySessionKey ''r'' None"]
  by (simp add: diff_plans_def default_plan_def)

end
