(* ===== verification/Wire_Id.thy ===== *)
theory Wire_Id
  imports Relay_Plan Filter_Component
begin

text \<open>
  \<open>crates/nmp-router/src/wire_id.rs\<close>: which wire token a newly compiled filter carries. The
  mint closure is a state transformer \<open>mint :: 's \<Rightarrow> sub_id \<times> 's\<close>; \<open>Reverse\<close> in the tie-break key is
  the negated integer.
\<close>

definition overlap :: "'a fset option \<Rightarrow> 'a fset option \<Rightarrow> nat \<times> u64" where
  "overlap a b =
     (case (a, b) of (Some x, Some y) \<Rightarrow> (fcard (x |\<inter>| y), 0) | _ \<Rightarrow> (0, 0))"

definition abs_diff :: "u64 \<Rightarrow> u64 \<Rightarrow> u64" where
  "abs_diff a b = (if a < b then b - a else a - b)"

definition nearest :: "u64 option \<Rightarrow> u64 option \<Rightarrow> nat \<times> u64" where
  "nearest a b = (case (a, b) of (Some x, Some y) \<Rightarrow> (0, abs_diff x y) | _ \<Rightarrow> (0, - 1))"

fun affinity :: "component \<Rightarrow> concrete_filter \<Rightarrow> concrete_filter \<Rightarrow> nat \<times> u64" where
  "affinity Kinds a b = overlap (cf_kinds a) (cf_kinds b)"
| "affinity Authors a b = overlap (cf_authors a) (cf_authors b)"
| "affinity Ids a b = overlap (cf_ids a) (cf_ids b)"
| "affinity (Tag name) a b = overlap (fmlookup (cf_tags a) name) (fmlookup (cf_tags b) name)"
| "affinity Since a b = nearest (cf_since a) (cf_since b)"
| "affinity Until a b = nearest (cf_until a) (cf_until b)"
| "affinity Limit a b = nearest (cf_limit a) (cf_limit b)"

datatype assignment = Assignment (as_sub_id: sub_id) (as_predecessor: "sub_id option")

type_synonym prior = "concrete_filter \<times> sub_id"

definition canonical_order :: "concrete_filter list \<Rightarrow> nat list" where
  "canonical_order nxt = sort_key (\<lambda>i. (nxt ! i, i)) [0..<length nxt]"

definition best_exact :: "prior list \<Rightarrow> bool list \<Rightarrow> concrete_filter \<Rightarrow> nat option" where
  "best_exact priors taken f =
     fold (\<lambda>p best.
         if taken ! p \<or> fst (priors ! p) \<noteq> f then best
         else case best of
                None \<Rightarrow> Some p
              | Some b \<Rightarrow> if snd (priors ! p) < snd (priors ! b) then Some p else best)
       [0..<length priors] None"

type_synonym tie_break = "int \<times> u64 \<times> concrete_filter \<times> sub_id"

definition tie_break_key :: "prior \<Rightarrow> component \<Rightarrow> concrete_filter \<Rightarrow> tie_break" where
  "tie_break_key prior c f =
     (let (shared, distance) = affinity c (fst prior) f
      in (- int shared, distance, fst prior, snd prior))"

definition best_one_diff :: "prior list \<Rightarrow> bool list \<Rightarrow> concrete_filter \<Rightarrow> nat option" where
  "best_one_diff priors taken f =
     map_option fst (fold (\<lambda>p best.
         if taken ! p then best
         else case sole_difference (fst (priors ! p)) f of
                None \<Rightarrow> best
              | Some c \<Rightarrow>
                  (let key = tie_break_key (priors ! p) c f
                   in case best of
                        None \<Rightarrow> Some (p, key)
                      | Some (_, best_key) \<Rightarrow> if key < best_key then Some (p, key) else best))
       [0..<length priors] None)"

definition zero_diff_step ::
  "prior list \<Rightarrow> concrete_filter list \<Rightarrow> nat \<Rightarrow> bool list \<times> assignment option list \<Rightarrow>
   bool list \<times> assignment option list" where
  "zero_diff_step priors nxt i state =
     (case state of (taken, out) \<Rightarrow>
        (case best_exact priors taken (nxt ! i) of
           None \<Rightarrow> (taken, out)
         | Some p \<Rightarrow> (taken[p := True], out[i := Some (Assignment (snd (priors ! p)) None)])))"

definition one_diff_step ::
  "('s \<Rightarrow> sub_id \<times> 's) \<Rightarrow> prior list \<Rightarrow> concrete_filter list \<Rightarrow> nat \<Rightarrow>
   bool list \<times> assignment option list \<times> 's \<Rightarrow> bool list \<times> assignment option list \<times> 's" where
  "one_diff_step mint priors nxt i state =
     (case state of (taken, out, s) \<Rightarrow>
        if out ! i \<noteq> None then (taken, out, s)
        else case best_one_diff priors taken (nxt ! i) of
               None \<Rightarrow> (taken, out, s)
             | Some p \<Rightarrow>
                 (let (token, s') = mint s
                  in (taken[p := True],
                      out[i := Some (Assignment token (Some (snd (priors ! p))))], s')))"

definition mint_step ::
  "('s \<Rightarrow> sub_id \<times> 's) \<Rightarrow> nat \<Rightarrow> assignment option list \<times> 's \<Rightarrow> assignment option list \<times> 's" where
  "mint_step mint i state =
     (case state of (out, s) \<Rightarrow>
        if out ! i \<noteq> None then (out, s)
        else (let (token, s') = mint s in (out[i := Some (Assignment token None)], s')))"

definition assign ::
  "('s \<Rightarrow> sub_id \<times> 's) \<Rightarrow> prior list \<Rightarrow> concrete_filter list \<Rightarrow> 's \<Rightarrow> assignment list \<times> 's" where
  "assign mint priors nxt s =
     (let order = canonical_order nxt;
          (taken1, out1) = fold (zero_diff_step priors nxt) order
             (replicate (length priors) False, replicate (length nxt) None);
          (taken2, out2, s2) = fold (one_diff_step mint priors nxt) order (taken1, out1, s);
          (out3, s3) = fold (mint_step mint) order (out2, s2)
      in (map the out3, s3))"

text \<open>The closure the compile passes: \<open>SubId::allocate\<close> under a counter that is incremented.\<close>

definition mint_wire :: "relay_url \<Rightarrow> read_routing \<Rightarrow> public_key option \<Rightarrow> u64 \<Rightarrow> sub_id \<times> u64" where
  "mint_wire relay source authenticate_as counter =
     (allocate relay source authenticate_as counter, counter + 1)"

section \<open>The searches\<close>

lemma set_canonical_order: "set (canonical_order nxt) = {..<length nxt}"
  by (auto simp: canonical_order_def)

lemma distinct_canonical_order: "distinct (canonical_order nxt)"
  by (simp add: canonical_order_def)

lemma best_exact_fold:
  "case fold (\<lambda>p best. if taken ! p \<or> fst (priors ! p) \<noteq> f then best
         else case best of None \<Rightarrow> Some p
              | Some b \<Rightarrow> if snd (priors ! p) < snd (priors ! b) then Some p else best) ps acc of
     None \<Rightarrow> acc = None \<and> (\<forall>p \<in> set ps. taken ! p \<or> fst (priors ! p) \<noteq> f)
   | Some q \<Rightarrow> acc = Some q \<or> q \<in> set ps \<and> \<not> taken ! q \<and> fst (priors ! q) = f"
proof (induction ps arbitrary: acc)
  case (Cons p ps)
  show ?case using Cons[of acc] Cons[of "Some p"] by (cases acc) (auto split: option.splits)
qed (simp split: option.split)

lemma best_exact_Some:
  "best_exact priors taken f = Some p \<Longrightarrow>
   p < length priors \<and> \<not> taken ! p \<and> fst (priors ! p) = f"
  using best_exact_fold[where taken = taken and priors = priors and f = f and ps = "[0..<length priors]" and acc = None]
  by (simp add: best_exact_def)

lemma best_exact_None:
  "best_exact priors taken f = None \<Longrightarrow> p < length priors \<Longrightarrow> taken ! p \<or> fst (priors ! p) \<noteq> f"
  using best_exact_fold[where taken = taken and priors = priors and f = f and ps = "[0..<length priors]" and acc = None]
  by (simp add: best_exact_def)

lemma best_one_diff_fold:
  "fold (\<lambda>p best. if taken ! p then best
         else case sole_difference (fst (priors ! p)) f of None \<Rightarrow> best
              | Some c \<Rightarrow> (let key = tie_break_key (priors ! p) c f in case best of None \<Rightarrow> Some (p, key)
                      | Some (_, best_key) \<Rightarrow> if key < best_key then Some (p, key) else best)) ps acc
     = Some (q, key) \<Longrightarrow>
   acc = Some (q, key) \<or> q \<in> set ps \<and> \<not> taken ! q \<and> sole_difference (fst (priors ! q)) f \<noteq> None"
proof (induction ps arbitrary: acc)
  case (Cons p ps)
  show ?case using Cons.prems by (auto dest!: Cons.IH simp: Let_def split: if_splits option.splits)
qed simp

lemma best_one_diff_Some:
  "best_one_diff priors taken f = Some p \<Longrightarrow>
   p < length priors \<and> \<not> taken ! p \<and> sole_difference (fst (priors ! p)) f \<noteq> None"
  unfolding best_one_diff_def by (auto dest!: best_one_diff_fold)

end
