(* ===== verification/Wire_Id_Props.thy ===== *)
theory Wire_Id_Props
  imports Wire_Id
begin

text \<open>
  Correctness of the token assignment. The interface to the counter is the locale \<open>token_mint\<close>
  (a mint yields a token never issued before, while capacity is left); it is interpreted on the
  64-bit counter of the router. The proof keeps a ghost function \<open>g\<close> from filters to the prior
  they claimed.
\<close>

definition claims_prior ::
  "prior list \<Rightarrow> concrete_filter \<Rightarrow> sub_id set \<Rightarrow> assignment \<Rightarrow> nat option \<Rightarrow> bool" where
  "claims_prior priors f minted a c \<longleftrightarrow>
     (case c of
        None \<Rightarrow> as_predecessor a = None \<and> as_sub_id a \<in> minted
      | Some p \<Rightarrow> p < length priors \<and>
          (as_predecessor a = None \<and> as_sub_id a = snd (priors ! p) \<and> fst (priors ! p) = f \<or>
           as_predecessor a = Some (snd (priors ! p)) \<and> as_sub_id a \<in> minted \<and>
           sole_difference (fst (priors ! p)) f \<noteq> None))"

definition assign_inv ::
  "prior list \<Rightarrow> concrete_filter list \<Rightarrow> sub_id set \<Rightarrow> bool list \<Rightarrow> assignment option list \<Rightarrow>
   (nat \<Rightarrow> nat option) \<Rightarrow> bool" where
  "assign_inv priors nxt minted taken out g \<longleftrightarrow>
     length taken = length priors \<and> length out = length nxt \<and>
     (\<forall>i < length nxt. case out ! i of
        None \<Rightarrow> g i = None
      | Some a \<Rightarrow> claims_prior priors (nxt ! i) minted a (g i)) \<and>
     (\<forall>i < length nxt. \<forall>p. g i = Some p \<longrightarrow> taken ! p) \<and>
     (\<forall>i < length nxt. \<forall>j < length nxt. i \<noteq> j \<longrightarrow> g i \<noteq> None \<longrightarrow> g i \<noteq> g j) \<and>
     (\<forall>i < length nxt. \<forall>j < length nxt. \<forall>a b. i \<noteq> j \<longrightarrow> out ! i = Some a \<longrightarrow> out ! j = Some b \<longrightarrow>
        as_sub_id a \<in> minted \<longrightarrow> as_sub_id a \<noteq> as_sub_id b)"

lemma claims_prior_mono: "claims_prior priors f minted a c \<Longrightarrow> minted \<subseteq> minted' \<Longrightarrow> claims_prior priors f minted' a c"
  by (auto simp: claims_prior_def split: option.splits)

lemma assign_inv_claim:
  assumes "assign_inv priors nxt minted taken out g" "i < length nxt" "out ! i = Some a"
  shows "claims_prior priors (nxt ! i) minted a (g i)"
  using assms unfolding assign_inv_def by (metis option.simps(5))

lemma sub_id_cases:
  assumes "assign_inv priors nxt minted taken out g" "i < length nxt" "out ! i = Some a"
  shows "as_sub_id a \<in> minted \<or> as_sub_id a \<in> snd ` set priors"
  using assign_inv_claim[OF assms] by (auto simp: claims_prior_def split: option.splits)

text \<open>Writing one still empty slot of the output.\<close>

lemma assign_inv_set:
  assumes inv: "assign_inv priors nxt minted taken out g"
    and i: "i < length nxt" "out ! i = None"
    and sub: "minted \<subseteq> minted'" "minted' \<inter> snd ` set priors = {}"
    and claim: "claims_prior priors (nxt ! i) minted' a c"
    and free: "\<And>p. c = Some p \<Longrightarrow> \<not> taken ! p \<and> p < length priors"
    and fresh: "as_sub_id a \<in> minted' \<Longrightarrow> as_sub_id a \<notin> minted"
    and ext: "minted' \<subseteq> insert (as_sub_id a) minted"
  shows "assign_inv priors nxt minted' (case c of None \<Rightarrow> taken | Some p \<Rightarrow> taken[p := True])
    (out[i := Some a]) (g(i := c))"
proof -
  have len: "length out = length nxt" "length taken = length priors"
    using inv by (auto simp: assign_inv_def)
  have g: "g j = Some p \<Longrightarrow> taken ! p" if "j < length nxt" for j p
    using inv that unfolding assign_inv_def by blast
  have gi: "g j \<noteq> c" if "j < length nxt" "c \<noteq> None" for j
    using g[OF that(1)] free that(2) by (cases c) auto
  have old: "as_sub_id b \<noteq> as_sub_id a" if "j < length nxt" "j \<noteq> i" "out ! j = Some b"
    "as_sub_id a \<in> minted' \<or> as_sub_id b \<in> minted'" for j b
  proof
    assume eq: "as_sub_id b = as_sub_id a"
    then have m: "as_sub_id a \<in> minted'" using that(4) by auto
    then have "as_sub_id b \<notin> snd ` set priors" using sub(2) eq by auto
    then show False using sub_id_cases[OF inv that(1,3)] fresh[OF m] eq by simp
  qed
  have claims: "case (out[i := Some a]) ! j of None \<Rightarrow> (g(i := c)) j = None
      | Some b \<Rightarrow> claims_prior priors (nxt ! j) minted' b ((g(i := c)) j)" if "j < length nxt" for j
  proof (cases "j = i")
    case True
    then show ?thesis using claim i len by simp
  next
    case False
    then show ?thesis
      using inv that claims_prior_mono[OF _ sub(1)] unfolding assign_inv_def
      by (auto split: option.splits)
  qed
  have t: "(case c of None \<Rightarrow> taken | Some p \<Rightarrow> taken[p := True]) ! q" if "taken ! q" for q
    using that len free by (auto simp: nth_list_update split: option.splits)
  show ?thesis
    unfolding assign_inv_def
  proof (intro conjI allI impI)
    show "length (case c of None \<Rightarrow> taken | Some p \<Rightarrow> taken[p := True]) = length priors"
      "length (out[i := Some a]) = length nxt" using len by (auto split: option.splits)
  next
    fix j p assume "j < length nxt" "(g(i := c)) j = Some p"
    then show "(case c of None \<Rightarrow> taken | Some p \<Rightarrow> taken[p := True]) ! p"
      using g t free len by (cases "j = i") auto
  next
    fix j k assume "j < length nxt" "k < length nxt" "j \<noteq> k" "(g(i := c)) j \<noteq> None"
    then show "(g(i := c)) j \<noteq> (g(i := c)) k"
      using gi inv unfolding assign_inv_def by (metis fun_upd_apply)
  next
    fix j k x y
    assume jk: "j < length nxt" "k < length nxt" "j \<noteq> k" "out[i := Some a] ! j = Some x"
      "out[i := Some a] ! k = Some y" "as_sub_id x \<in> minted'"
    consider "j = i" | "k = i" "j \<noteq> i" | "j \<noteq> i" "k \<noteq> i" by blast
    then show "as_sub_id x \<noteq> as_sub_id y"
    proof cases
      case 1
      then show ?thesis using old[of k y] jk i len by auto
    next
      case 2
      then show ?thesis using old[of j x] jk i len by auto
    next
      case 3
      then have xy: "out ! j = Some x" "out ! k = Some y" using jk by auto
      show ?thesis
      proof (cases "as_sub_id x \<in> minted")
        case True
        then show ?thesis using inv xy jk unfolding assign_inv_def by blast
      next
        case False
        then show ?thesis
          using jk(6) ext old[of j x] xy 3 jk(1) by auto
      qed
    qed
  qed (use claims in blast)
qed

definition open_slots_of :: "assignment option list \<Rightarrow> nat set" where
  "open_slots_of out = {i. i < length out \<and> out ! i = None}"

lemma open_slots_of_set:
  "i < length out \<Longrightarrow> open_slots_of (out[i := Some a]) = open_slots_of out - {i}"
  by (auto simp: open_slots_of_def nth_list_update)

lemma finite_open_slots [simp]: "finite (open_slots_of out)"
  by (simp add: open_slots_of_def)

lemma mint_step_fills:
  "mint_step mint i (out, s) = (out', s') \<Longrightarrow> length out' = length out \<and>
     (i < length out \<longrightarrow> out' ! i \<noteq> None) \<and> (\<forall>j. out ! j \<noteq> None \<longrightarrow> out' ! j \<noteq> None)"
  by (cases "i < length out") (auto simp: mint_step_def nth_list_update list_update_beyond split: if_splits prod.splits)

lemma mint_fold_fills:
  "fold (mint_step mint) is (out, s) = (out', s') \<Longrightarrow> length out' = length out \<and>
     (\<forall>i \<in> set is. i < length out \<longrightarrow> out' ! i \<noteq> None) \<and> (\<forall>j. out ! j \<noteq> None \<longrightarrow> out' ! j \<noteq> None)"
proof (induction "is" arbitrary: out s)
  case (Cons i "is")
  obtain o1 s1 where step: "mint_step mint i (out, s) = (o1, s1)" by fastforce
  have "length out' = length o1 \<and> (\<forall>i \<in> set is. i < length o1 \<longrightarrow> out' ! i \<noteq> None) \<and>
      (\<forall>j. o1 ! j \<noteq> None \<longrightarrow> out' ! j \<noteq> None)"
    using Cons.IH[of o1 s1] Cons.prems step by simp
  then show ?case using mint_step_fills[OF step] by auto
qed simp

locale token_mint =
  fixes mint :: "'s \<Rightarrow> sub_id \<times> 's"
    and issued :: "'s \<Rightarrow> sub_id set"
    and capacity :: "'s \<Rightarrow> nat"
  assumes mint_fresh: "0 < capacity s \<Longrightarrow> mint s = (t, s') \<Longrightarrow>
    t \<notin> issued s \<and> issued s' = insert t (issued s) \<and> capacity s = Suc (capacity s')"
begin

definition sound_state ::
  "prior list \<Rightarrow> concrete_filter list \<Rightarrow> 's \<Rightarrow> bool list \<Rightarrow> assignment option list \<Rightarrow> 's \<Rightarrow> bool" where
  "sound_state priors nxt s0 taken out s \<longleftrightarrow>
     snd ` set priors \<subseteq> issued s0 \<and> issued s0 \<subseteq> issued s \<and>
     card (open_slots_of out) \<le> capacity s \<and>
     capacity s0 \<le> capacity s + length nxt - card (open_slots_of out) \<and>
     card (open_slots_of out) \<le> length nxt \<and>
     (\<exists>g. assign_inv priors nxt (issued s - issued s0) taken out g)"

lemma sound_state_lengths:
  "sound_state priors nxt s0 taken out s \<Longrightarrow> length out = length nxt \<and> length taken = length priors"
  by (auto simp: sound_state_def assign_inv_def)

lemma sound_state_init:
  assumes "snd ` set priors \<subseteq> issued s0" "length nxt \<le> capacity s0"
  shows "sound_state priors nxt s0 (replicate (length priors) False) (replicate (length nxt) None) s0"
proof -
  have "open_slots_of (replicate (length nxt) None) = {..<length nxt}"
    by (auto simp: open_slots_of_def)
  moreover have "assign_inv priors nxt (issued s0 - issued s0) (replicate (length priors) False)
      (replicate (length nxt) None) (\<lambda>_. None)"
    by (auto simp: assign_inv_def)
  ultimately show ?thesis using assms by (auto simp: sound_state_def)
qed

lemma sound_state_keep:
  assumes st: "sound_state priors nxt s0 taken out s"
    and i: "i < length nxt" "out ! i = None"
    and p: "p < length priors" "\<not> taken ! p" "fst (priors ! p) = nxt ! i"
  shows "sound_state priors nxt s0 (taken[p := True])
    (out[i := Some (Assignment (snd (priors ! p)) None)]) s"
proof -
  let ?m = "issued s - issued s0"
  obtain g where g: "assign_inv priors nxt ?m taken out g" using st by (auto simp: sound_state_def)
  have tok: "snd (priors ! p) \<notin> ?m" using st p(1) by (auto simp: sound_state_def)
  have "assign_inv priors nxt ?m (case Some p of None \<Rightarrow> taken | Some p \<Rightarrow> taken[p := True])
      (out[i := Some (Assignment (snd (priors ! p)) None)]) (g(i := Some p))"
    using st p tok by (intro assign_inv_set[OF g i]) (auto simp: claims_prior_def sound_state_def)
  moreover have "card (open_slots_of (out[i := Some (Assignment (snd (priors ! p)) None)])) =
      card (open_slots_of out) - 1"
    using sound_state_lengths[OF st] i by (simp add: open_slots_of_set) (simp add: open_slots_of_def)
  ultimately show ?thesis using st by (auto simp: sound_state_def)
qed

lemma sound_state_mint:
  assumes st: "sound_state priors nxt s0 taken out s"
    and i: "i < length nxt" "out ! i = None"
    and m: "mint s = (t, s')"
    and c: "case c of None \<Rightarrow> pred = None
      | Some p \<Rightarrow> p < length priors \<and> \<not> taken ! p \<and> pred = Some (snd (priors ! p)) \<and>
          sole_difference (fst (priors ! p)) (nxt ! i) \<noteq> None"
  shows "sound_state priors nxt s0 (case c of None \<Rightarrow> taken | Some p \<Rightarrow> taken[p := True])
    (out[i := Some (Assignment t pred)]) s'"
proof -
  obtain g where g: "assign_inv priors nxt (issued s - issued s0) taken out g"
    using st by (auto simp: sound_state_def)
  have open_i: "i \<in> open_slots_of out"
    using sound_state_lengths[OF st] i by (simp add: open_slots_of_def)
  then have pos: "0 < card (open_slots_of out)" by (auto simp: card_gt_0_iff)
  then have cap: "0 < capacity s" using st by (auto simp: sound_state_def)
  note fresh = mint_fresh[OF cap m]
  have minted: "issued s' - issued s0 = insert t (issued s - issued s0)"
    using fresh st by (auto simp: sound_state_def)
  have "assign_inv priors nxt (issued s' - issued s0)
      (case c of None \<Rightarrow> taken | Some p \<Rightarrow> taken[p := True]) (out[i := Some (Assignment t pred)]) (g(i := c))"
    using st c fresh minted
    by (intro assign_inv_set[OF g i]) (auto simp: claims_prior_def sound_state_def split: option.splits)
  moreover have "card (open_slots_of (out[i := Some (Assignment t pred)])) = card (open_slots_of out) - 1"
    using sound_state_lengths[OF st] i open_i by (simp add: open_slots_of_set)
  ultimately show ?thesis
    using st fresh pos by (auto simp: sound_state_def)
qed

lemma zero_diff_sound:
  "sound_state priors nxt s0 taken out s \<Longrightarrow> distinct is \<Longrightarrow> \<forall>i \<in> set is. i < length nxt \<and> out ! i = None \<Longrightarrow>
   fold (zero_diff_step priors nxt) is (taken, out) = (taken', out') \<Longrightarrow>
   sound_state priors nxt s0 taken' out' s"
proof (induction "is" arbitrary: taken out)
  case (Cons i "is")
  obtain t1 o1 where step: "zero_diff_step priors nxt i (taken, out) = (t1, o1)" by fastforce
  have "sound_state priors nxt s0 t1 o1 s \<and> (\<forall>j \<in> set is. o1 ! j = None)"
  proof (cases "best_exact priors taken (nxt ! i)")
    case None
    then show ?thesis using step Cons.prems by (simp add: zero_diff_step_def)
  next
    case (Some p)
    note b = best_exact_Some[OF Some]
    have "sound_state priors nxt s0 (taken[p := True])
        (out[i := Some (Assignment (snd (priors ! p)) None)]) s"
      using b Cons.prems(3) by (intro sound_state_keep[OF Cons.prems(1)]) auto
    moreover have "\<forall>j \<in> set is. j \<noteq> i" using Cons.prems(2) by auto
    ultimately show ?thesis using step Some Cons.prems(3) by (auto simp: zero_diff_step_def)
  qed
  then show ?case using Cons.IH[of t1 o1] Cons.prems step by simp
qed simp

lemma one_diff_sound:
  "sound_state priors nxt s0 taken out s \<Longrightarrow> \<forall>i \<in> set is. i < length nxt \<Longrightarrow>
   fold (one_diff_step mint priors nxt) is (taken, out, s) = (taken', out', s') \<Longrightarrow>
   sound_state priors nxt s0 taken' out' s'"
proof (induction "is" arbitrary: taken out s)
  case (Cons i "is")
  obtain t1 o1 s1 where step: "one_diff_step mint priors nxt i (taken, out, s) = (t1, o1, s1)"
    by (metis prod_cases3)
  have "sound_state priors nxt s0 t1 o1 s1"
  proof (cases "out ! i \<noteq> None \<or> best_one_diff priors taken (nxt ! i) = None")
    case True
    then show ?thesis using step Cons.prems(1) by (auto simp: one_diff_step_def split: if_splits)
  next
    case False
    then obtain p where p: "best_one_diff priors taken (nxt ! i) = Some p" "out ! i = None" by auto
    obtain t s2 where m: "mint s = (t, s2)" by fastforce
    have "sound_state priors nxt s0 (case Some p of None \<Rightarrow> taken | Some p \<Rightarrow> taken[p := True])
        (out[i := Some (Assignment t (Some (snd (priors ! p))))]) s2"
      using Cons.prems(2) p(2) best_one_diff_Some[OF p(1)]
      by (intro sound_state_mint[OF Cons.prems(1) _ _ m]) auto
    then show ?thesis using step p m by (auto simp: one_diff_step_def)
  qed
  then show ?case using Cons.IH[of t1 o1 s1] Cons.prems step by simp
qed simp

lemma mint_sound:
  "sound_state priors nxt s0 taken out s \<Longrightarrow> \<forall>i \<in> set is. i < length nxt \<Longrightarrow>
   fold (mint_step mint) is (out, s) = (out', s') \<Longrightarrow>
   sound_state priors nxt s0 taken out' s'"
proof (induction "is" arbitrary: out s)
  case (Cons i "is")
  obtain o1 s1 where step: "mint_step mint i (out, s) = (o1, s1)" by fastforce
  have "sound_state priors nxt s0 taken o1 s1"
  proof (cases "out ! i")
    case None
    obtain t s2 where m: "mint s = (t, s2)" by fastforce
    have "sound_state priors nxt s0 (case None of None \<Rightarrow> taken | Some p \<Rightarrow> taken[p := True])
        (out[i := Some (Assignment t None)]) s2"
      using Cons.prems(2) None by (intro sound_state_mint[OF Cons.prems(1) _ _ m]) auto
    then show ?thesis using step None m by (auto simp: mint_step_def)
  qed (use step Cons.prems(1) in \<open>auto simp: mint_step_def\<close>)
  then show ?case using Cons.IH[of o1 s1] Cons.prems step by simp
qed simp

lemma assign_sound:
  assumes "snd ` set priors \<subseteq> issued s0" "length nxt \<le> capacity s0"
    and "assign mint priors nxt s0 = (as, s)"
  obtains taken out where "sound_state priors nxt s0 taken out s" "as = map the out"
    "\<forall>i < length nxt. out ! i \<noteq> None"
proof -
  let ?o = "canonical_order nxt"
  obtain t1 o1 where f1: "fold (zero_diff_step priors nxt) ?o
      (replicate (length priors) False, replicate (length nxt) None) = (t1, o1)" by fastforce
  obtain t2 o2 s2 where f2: "fold (one_diff_step mint priors nxt) ?o (t1, o1, s0) = (t2, o2, s2)"
    by (metis prod_cases3)
  obtain o3 s3 where f3: "fold (mint_step mint) ?o (o2, s2) = (o3, s3)" by fastforce
  have as: "as = map the o3" "s = s3" using assms(3) f1 f2 f3 by (auto simp: assign_def Let_def)
  have "sound_state priors nxt s0 t1 o1 s0"
    by (rule zero_diff_sound[OF sound_state_init[OF assms(1,2)] distinct_canonical_order _ f1])
      (auto simp: set_canonical_order)
  then have "sound_state priors nxt s0 t2 o2 s2"
    by (rule one_diff_sound[OF _ _ f2]) (auto simp: set_canonical_order)
  then have st: "sound_state priors nxt s0 t2 o3 s3"
    by (rule mint_sound[OF _ _ f3]) (auto simp: set_canonical_order)
  have "o3 ! i \<noteq> None" if "i < length nxt" for i
    using mint_fold_fills[OF f3] that sound_state_lengths[OF \<open>sound_state priors nxt s0 t2 o2 s2\<close>]
    by (auto simp: set_canonical_order)
  then show ?thesis using that[of t2 o3] st as by blast
qed

lemma assign_injective:
  assumes "snd ` set priors \<subseteq> issued s0" "length nxt \<le> capacity s0" "distinct (map snd priors)"
    and "assign mint priors nxt s0 = (as, s)"
  shows "length as = length nxt" "distinct (map as_sub_id as)" "issued s0 \<subseteq> issued s"
    "capacity s0 \<le> capacity s + length nxt"
    "\<And>a. a \<in> set as \<Longrightarrow> as_sub_id a \<in> snd ` set priors \<or> as_sub_id a \<in> issued s - issued s0"
proof -
  obtain taken out where st: "sound_state priors nxt s0 taken out s" and as: "as = map the out"
    and full: "\<forall>i < length nxt. out ! i \<noteq> None"
    using assign_sound[OF assms(1,2,4)] by blast
  obtain g where inv: "assign_inv priors nxt (issued s - issued s0) taken out g"
    using st by (auto simp: sound_state_def)
  have len: "length out = length nxt" using sound_state_lengths[OF st] by simp
  show "length as = length nxt" using as len by simp
  show "issued s0 \<subseteq> issued s" using st by (simp add: sound_state_def)
  show "capacity s0 \<le> capacity s + length nxt" using st by (auto simp: sound_state_def)
  have at: "out ! i = Some (as ! i)" if "i < length nxt" for i
    using full that as len by auto
  show "as_sub_id a \<in> snd ` set priors \<or> as_sub_id a \<in> issued s - issued s0" if a: "a \<in> set as" for a
  proof -
    obtain i where "i < length nxt" "a = as ! i" using a as len by (auto simp: in_set_conv_nth)
    then show ?thesis using sub_id_cases[OF inv _ at] by blast
  qed
  show "distinct (map as_sub_id as)"
    unfolding distinct_conv_nth
  proof (intro allI impI)
    fix i j assume ij: "i < length (map as_sub_id as)" "j < length (map as_sub_id as)" "i \<noteq> j"
    then have lt: "i < length nxt" "j < length nxt" using as len by auto
    note ci = assign_inv_claim[OF inv lt(1) at[OF lt(1)]] and cj = assign_inv_claim[OF inv lt(2) at[OF lt(2)]]
    have "as_sub_id (as ! i) \<noteq> as_sub_id (as ! j)"
    proof (cases "as_sub_id (as ! i) \<in> issued s - issued s0 \<or> as_sub_id (as ! j) \<in> issued s - issued s0")
      case True
      then show ?thesis using inv lt at ij(3) unfolding assign_inv_def by metis
    next
      case False
      then obtain p q where "g i = Some p" "g j = Some q" "p < length priors" "q < length priors"
        "as_sub_id (as ! i) = snd (priors ! p)" "as_sub_id (as ! j) = snd (priors ! q)"
        using ci cj by (auto simp: claims_prior_def split: option.splits)
      moreover have "g i \<noteq> g j" using inv lt ij(3) \<open>g i = Some p\<close> unfolding assign_inv_def by blast
      ultimately show ?thesis using assms(3) by (simp add: distinct_conv_nth)
    qed
    then show "map as_sub_id as ! i \<noteq> map as_sub_id as ! j" using ij by simp
  qed
qed

lemma assign_predecessors:
  assumes "snd ` set priors \<subseteq> issued s0" "length nxt \<le> capacity s0" "distinct (map snd priors)"
    and "assign mint priors nxt s0 = (as, s)"
    and "i < length nxt" "as_predecessor (as ! i) = Some t"
  shows "\<exists>f. (f, t) \<in> set priors \<and> sole_difference f (nxt ! i) \<noteq> None"
    and "t \<notin> as_sub_id ` set as"
    and "j < length nxt \<Longrightarrow> as_predecessor (as ! j) = Some t \<Longrightarrow> j = i"
proof -
  obtain taken out where st: "sound_state priors nxt s0 taken out s" and as: "as = map the out"
    and full: "\<forall>i < length nxt. out ! i \<noteq> None"
    using assign_sound[OF assms(1,2,4)] by blast
  obtain g where inv: "assign_inv priors nxt (issued s - issued s0) taken out g"
    using st by (auto simp: sound_state_def)
  have len: "length out = length nxt" using sound_state_lengths[OF st] by simp
  have at: "out ! k = Some (as ! k)" if "k < length nxt" for k
    using full that as len by auto
  note claim = assign_inv_claim[OF inv _ at]
  obtain p where p: "g i = Some p" "p < length priors" "t = snd (priors ! p)"
    "sole_difference (fst (priors ! p)) (nxt ! i) \<noteq> None"
    using claim[OF assms(5) assms(5)] assms(6) by (auto simp: claims_prior_def split: option.splits)
  then show "\<exists>f. (f, t) \<in> set priors \<and> sole_difference f (nxt ! i) \<noteq> None"
    by (metis nth_mem prod.collapse)
  have other: "g k = Some p \<Longrightarrow> k = i" if "k < length nxt" for k
    using inv that assms(5) p(1) unfolding assign_inv_def by (metis option.distinct(1))
  have tok: "snd (priors ! q) = t \<Longrightarrow> q < length priors \<Longrightarrow> q = p" for q
    using assms(3) p(2,3) by (simp add: distinct_conv_nth) metis
  have old: "t \<notin> issued s - issued s0" using p(2,3) assms(1) by auto
  show "t \<notin> as_sub_id ` set as"
  proof
    assume "t \<in> as_sub_id ` set as"
    then obtain k where k: "k < length nxt" "as_sub_id (as ! k) = t"
      using as len by (auto simp: in_set_conv_nth)
    then have "g k = Some p \<and> as_predecessor (as ! k) = None"
      using claim[OF k(1) k(1)] old tok by (auto simp: claims_prior_def split: option.splits)
    then show False using other[OF k(1)] assms(6) by auto
  qed
  show "j = i" if "j < length nxt" "as_predecessor (as ! j) = Some t"
    using claim[OF that(1) that(1)] that(2) tok other[OF that(1)]
    by (auto simp: claims_prior_def split: option.splits)
qed

end

text \<open>Tokens below the counter are issued; the capacity is what the 64-bit counter has left.\<close>

definition issued_below :: "relay_url \<Rightarrow> public_key option \<Rightarrow> u64 \<Rightarrow> sub_id set" where
  "issued_below relay authenticate_as c = {SubId relay (WireToken t) authenticate_as | t. t < c}"

definition mints_left :: "u64 \<Rightarrow> nat" where
  "mints_left c = 2 ^ 64 - 1 - unat c"

lemma unat_succ_u64: "0 < mints_left c \<Longrightarrow> unat (c + 1) = Suc (unat c)"
  by (simp add: mints_left_def unat_word_ariths)

interpretation counter_mint: token_mint "mint_wire relay source authenticate_as"
  "issued_below relay authenticate_as" mints_left
  for relay source authenticate_as
proof
  fix s s' :: u64 and t
  assume pos: "0 < mints_left s" and m: "mint_wire relay source authenticate_as s = (t, s')"
  have s': "s' = s + 1" and t: "t = SubId relay (WireToken s) authenticate_as"
    using m by (auto simp: mint_wire_def allocate_def)
  have u: "unat s' = Suc (unat s)" using unat_succ_u64[OF pos] s' by simp
  have lt: "x < s' \<longleftrightarrow> x = s \<or> x < s" for x
    unfolding word_less_nat_alt u word_unat_eq_iff by (rule less_Suc_eq[unfolded disj_commute[of "_ < _"]])
  have "issued_below relay authenticate_as s' = insert t (issued_below relay authenticate_as s)"
    unfolding issued_below_def lt t by blast
  moreover have "t \<notin> issued_below relay authenticate_as s"
    by (simp add: issued_below_def t)
  moreover have "mints_left s = Suc (mints_left s')"
    using pos u unfolding mints_left_def by linarith
  ultimately show "t \<notin> issued_below relay authenticate_as s \<and>
      issued_below relay authenticate_as s' = insert t (issued_below relay authenticate_as s) \<and>
      mints_left s = Suc (mints_left s')" by blast
qed

section \<open>Unchanged filters keep their tokens\<close>

definition keeps_token :: "prior list \<Rightarrow> concrete_filter \<Rightarrow> assignment option \<Rightarrow> bool" where
  "keeps_token priors f a \<longleftrightarrow> (\<exists>tok. (f, tok) \<in> set priors \<and> a = Some (Assignment tok None))"

lemma zero_diff_fold_keeps:
  assumes "distinct nxt" "distinct (done @ is)" "\<forall>i \<in> set (done @ is). i < length nxt"
    and "length taken = length priors" "length out = length nxt"
    and "\<forall>p < length priors. taken ! p \<longrightarrow> (\<exists>j \<in> set done. fst (priors ! p) = nxt ! j)"
    and "\<forall>i \<in> set done. nxt ! i \<in> fst ` set priors \<longrightarrow> keeps_token priors (nxt ! i) (out ! i)"
    and "fold (zero_diff_step priors nxt) is (taken, out) = (taken', out')"
  shows "length out' = length nxt \<and>
    (\<forall>i \<in> set (done @ is). nxt ! i \<in> fst ` set priors \<longrightarrow> keeps_token priors (nxt ! i) (out' ! i))"
  using assms
proof (induction "is" arbitrary: taken out "done")
  case Nil
  then show ?case by simp
next
  case (Cons i "is")
  have i: "i < length nxt" "i \<notin> set done" using Cons.prems(2,3) by auto
  show ?case
  proof (cases "best_exact priors taken (nxt ! i)")
    case None
    have "nxt ! i \<notin> fst ` set priors"
    proof
      assume "nxt ! i \<in> fst ` set priors"
      then obtain p where p: "p < length priors" "fst (priors ! p) = nxt ! i"
        by (auto simp: in_set_conv_nth)
      then have "taken ! p" using best_exact_None[OF None p(1)] by simp
      then obtain j where "j \<in> set done" "nxt ! i = nxt ! j" using Cons.prems(6) p by metis
      then show False using Cons.prems(1,3) i by (auto simp: nth_eq_iff_index_eq)
    qed
    then show ?thesis
      using Cons.IH[of "done @ [i]" taken out] Cons.prems None by (auto simp: zero_diff_step_def)
  next
    case (Some p)
    note b = best_exact_Some[OF Some]
    let ?t = "taken[p := True]" and ?o = "out[i := Some (Assignment (snd (priors ! p)) None)]"
    have "(nxt ! i, snd (priors ! p)) \<in> set priors" using b by (metis nth_mem prod.collapse)
    then have "keeps_token priors (nxt ! i) (?o ! i)" using i Cons.prems(5) by (auto simp: keeps_token_def)
    moreover have "?o ! j = out ! j" if "j \<in> set done" for j
      using that i(2) by (cases "j = i") auto
    ultimately have k: "\<forall>j \<in> set (done @ [i]). nxt ! j \<in> fst ` set priors \<longrightarrow> keeps_token priors (nxt ! j) (?o ! j)"
      using Cons.prems(7) by simp
    have t: "\<forall>q < length priors. ?t ! q \<longrightarrow> (\<exists>j \<in> set (done @ [i]). fst (priors ! q) = nxt ! j)"
      using Cons.prems(4,6) b by (auto simp: nth_list_update)
    show ?thesis
      using Cons.IH[of "done @ [i]" ?t ?o] Cons.prems k t Some by (auto simp: zero_diff_step_def)
  qed
qed

lemma one_diff_fold_preserves:
  "out ! i \<noteq> None \<Longrightarrow> fst (snd (fold (one_diff_step mint priors nxt) is (taken, out, s))) ! i = out ! i"
proof (induction "is" arbitrary: taken out s)
  case (Cons j "is")
  obtain t1 o1 s1 where step: "one_diff_step mint priors nxt j (taken, out, s) = (t1, o1, s1)"
    by (metis prod_cases3)
  have "o1 ! i = out ! i"
    using step Cons.prems
    by (cases "j = i") (auto simp: one_diff_step_def split: if_splits option.splits prod.splits)
  then show ?case using Cons step by simp
qed simp

lemma one_diff_fold_length:
  "fold (one_diff_step mint priors nxt) is (taken, out, s) = (taken', out', s') \<Longrightarrow> length out' = length out"
proof (induction "is" arbitrary: taken out s)
  case (Cons j "is")
  obtain t1 o1 s1 where step: "one_diff_step mint priors nxt j (taken, out, s) = (t1, o1, s1)"
    by (metis prod_cases3)
  have "length o1 = length out"
    using step by (auto simp: one_diff_step_def split: if_splits option.splits prod.splits)
  then show ?case using Cons step by simp
qed simp

lemma mint_fold_preserves:
  "out ! i \<noteq> None \<Longrightarrow> fst (fold (mint_step mint) is (out, s)) ! i = out ! i"
proof (induction "is" arbitrary: out s)
  case (Cons j "is")
  obtain o1 s1 where step: "mint_step mint j (out, s) = (o1, s1)" by fastforce
  have "o1 ! i = out ! i"
    using step Cons.prems
    by (cases "j = i") (auto simp: mint_step_def split: if_splits prod.splits)
  then show ?case using Cons step by simp
qed simp

lemma one_diff_fold_full:
  "\<forall>i \<in> set is. out ! i \<noteq> None \<Longrightarrow> fold (one_diff_step mint priors nxt) is (taken, out, s) = (taken, out, s)"
  by (induction "is") (auto simp: one_diff_step_def)

lemma mint_fold_full:
  "\<forall>i \<in> set is. out ! i \<noteq> None \<Longrightarrow> fold (mint_step mint) is (out, s) = (out, s)"
  by (induction "is") (auto simp: mint_step_def)

lemma zero_diff_phase:
  assumes "distinct nxt"
    and "fold (zero_diff_step priors nxt) (canonical_order nxt)
      (replicate (length priors) False, replicate (length nxt) None) = (taken, out)"
  shows "length out = length nxt"
    "i < length nxt \<Longrightarrow> nxt ! i \<in> fst ` set priors \<Longrightarrow> keeps_token priors (nxt ! i) (out ! i)"
  using zero_diff_fold_keeps[OF assms(1), of "[]" "canonical_order nxt" "replicate (length priors) False"
      priors "replicate (length nxt) None" taken out] assms(2)
  by (auto simp: distinct_canonical_order set_canonical_order)

text \<open>C20: Token allocation is injective and never recycles. Against priors with pairwise distinct
  tokens below the counter, every new filter gets a token, all tokens differ, each is either one of
  the priors' or newly minted at or above the old counter, and the new counter bounds them all. The
  named predecessors differ, are priors one component away, and none of them is still in use.\<close>

theorem assign_is_injective:
  assumes "distinct (map snd priors)"
    and "snd ` set priors \<subseteq> issued_below relay authenticate_as counter"
    and "unat counter + length nxt < 2 ^ 64"
    and "assign (mint_wire relay source authenticate_as) priors nxt counter = (as, counter')"
  shows "length as = length nxt \<and> distinct (map as_sub_id as) \<and>
    as_sub_id ` set as \<subseteq> snd ` set priors \<union>
      (issued_below relay authenticate_as counter' - issued_below relay authenticate_as counter) \<and>
    issued_below relay authenticate_as counter \<subseteq> issued_below relay authenticate_as counter' \<and>
    (\<forall>i < length nxt. \<forall>t. as_predecessor (as ! i) = Some t \<longrightarrow>
       (\<exists>f. (f, t) \<in> set priors \<and> sole_difference f (nxt ! i) \<noteq> None) \<and>
       t \<notin> as_sub_id ` set as \<and>
       (\<forall>j < length nxt. as_predecessor (as ! j) = Some t \<longrightarrow> j = i))"
proof -
  have cap: "length nxt \<le> mints_left counter" using assms(3) by (simp add: mints_left_def)
  note inj = counter_mint.assign_injective[OF assms(2) cap assms(1,4)]
    and pred = counter_mint.assign_predecessors[OF assms(2) cap assms(1,4)]
  show ?thesis
    using inj(1,2,3,5) pred by (intro conjI allI impI) blast+
qed

lemma unat_u64_small: "unat (0 :: u64) = 0" "unat (7 :: u64) = 7"
  by simp_all

theorem assign_is_injective_witness:
  "length (fst (assign (mint_wire ''r'' Auto None) [(empty_filter, SubId ''r'' (WireToken 3) None)]
     [empty_filter, empty_filter] 7)) = 2"
proof -
  obtain as c where a: "assign (mint_wire ''r'' Auto None) [(empty_filter, SubId ''r'' (WireToken 3) None)]
     [empty_filter, empty_filter] 7 = (as, c)" by fastforce
  have "snd ` set [(empty_filter, SubId ''r'' (WireToken 3) None)] \<subseteq> issued_below ''r'' None 7"
    by (simp add: issued_below_def)
  then show ?thesis using assign_is_injective[OF _ _ _ a] a by simp
qed

text \<open>C21: Zero-diff ranks first. A new filter that is byte-identical to a prior keeps a token of
  that filter and names no predecessor, whatever else changed; when every new filter is a prior,
  the compile mints nothing and leaves the counter unchanged.\<close>

theorem assign_keeps_unchanged_filters:
  assumes "distinct nxt" and "assign mint priors nxt s = (as, s')"
  shows "(\<forall>i < length nxt. nxt ! i \<in> fst ` set priors \<longrightarrow>
      (\<exists>tok. (nxt ! i, tok) \<in> set priors \<and> as ! i = Assignment tok None)) \<and>
    (set nxt \<subseteq> fst ` set priors \<longrightarrow> s' = s)"
proof -
  let ?o = "canonical_order nxt"
  obtain t1 o1 where f1: "fold (zero_diff_step priors nxt) ?o
      (replicate (length priors) False, replicate (length nxt) None) = (t1, o1)" by fastforce
  obtain t2 o2 s2 where f2: "fold (one_diff_step mint priors nxt) ?o (t1, o1, s) = (t2, o2, s2)"
    by (metis prod_cases3)
  obtain o3 s3 where f3: "fold (mint_step mint) ?o (o2, s2) = (o3, s3)" by fastforce
  have as: "as = map the o3" "s' = s3" using assms(2) f1 f2 f3 by (auto simp: assign_def Let_def)
  note z = zero_diff_phase[OF assms(1) f1]
  have keep: "o3 ! i = o1 ! i" if "o1 ! i \<noteq> None" for i
    using one_diff_fold_preserves[OF that, of mint priors nxt ?o t1 s] f2
      mint_fold_preserves[of o2 i mint ?o s2] f3 that by simp
  have "length o3 = length nxt"
    using mint_fold_fills[OF f3] one_diff_fold_length[OF f2] z(1) by simp
  then have "\<exists>tok. (nxt ! i, tok) \<in> set priors \<and> as ! i = Assignment tok None"
    if "i < length nxt" "nxt ! i \<in> fst ` set priors" for i
    using z(2)[OF that] keep[of i] that(1) as(1) by (auto simp: keeps_token_def)
  moreover have "s' = s" if "set nxt \<subseteq> fst ` set priors"
  proof -
    have "\<forall>i \<in> set ?o. o1 ! i \<noteq> None"
      using z(2) that by (force simp: keeps_token_def set_canonical_order)
    then show ?thesis using f2 f3 one_diff_fold_full mint_fold_full as(2) by (metis prod.inject)
  qed
  ultimately show ?thesis by blast
qed

theorem assign_keeps_unchanged_filters_witness:
  "snd (assign (mint_wire ''r'' Auto None) [(empty_filter, SubId ''r'' (WireToken 3) None)]
     [empty_filter] 7) = 7"
proof -
  obtain as c where a: "assign (mint_wire ''r'' Auto None) [(empty_filter, SubId ''r'' (WireToken 3) None)]
     [empty_filter] 7 = (as, c)" by fastforce
  then show ?thesis using assign_keeps_unchanged_filters[OF _ a] by simp
qed

end
