(* ===== verification/Compile.thy ===== *)
theory Compile
  imports Coalesce_Semantics Route Wire_Id_Props
begin

text \<open>
  \<open>crates/nmp-router/src/router.rs\<close>: the pure compile of a demand set into a relay plan
  (\<open>compile_demand\<close>) and its helpers, with \<open>reduce_outbox_shortfall\<close> of \<open>ownership.rs\<close>.

  The pair-attempt cell of the rule registry and the mint counter are threaded explicitly. The
  digest \<open>ConcreteFilter::hash\<close> (blake3) only breaks ties in \<open>refuse_over_budget\<close>; it is the
  parameter \<open>filter_hash\<close>. The release-build assertion on subscription ids makes \<open>compile_demand\<close>
  return an \<open>option\<close>: \<open>None\<close> is the panic.
\<close>

type_synonym session_bag = "(relay_session_key, (read_routing, entry list) fmap) fmap"

section \<open>The whole-demand relay ceiling\<close>

record relay_cap_outcome =
  rc_limited_demands :: "demand_key fset"
  rc_refused_sessions :: "relay_session_key fset"
  rc_refused_demands :: "(relay_session_key, demand_key fset) fmap"
  rc_refused_coverage_assignments :: "(demand_key \<times> public_key) fset"

definition source_entries :: "(read_routing, entry list) fmap \<Rightarrow> entry list" where
  "source_entries by_source = concat (fm_values by_source)"

definition session_coverage :: "(read_routing, entry list) fmap \<Rightarrow> nat" where
  "session_coverage by_source =
     fcard (ffUnion (fset_of_list
       (map (\<lambda>(_, _, ow). eo_coverage_assignments ow) (source_entries by_source))))"

definition session_secondary :: "(read_routing, entry list) fmap \<Rightarrow> nat" where
  "session_secondary by_source =
     sum_list (map (\<lambda>(_, provenance, ow).
         max (max (length provenance) (fcard (eo_coverage_claims ow))) 1) (source_entries by_source))"

definition ranked_sessions :: "session_bag \<Rightarrow> relay_session_key list" where
  "ranked_sessions bag =
     map fst (sort_key (\<lambda>(session, cov, secondary). (- int cov, - int secondary, session))
       (map (\<lambda>(session, by_source).
            (session, session_coverage by_source, session_secondary by_source))
          (sorted_list_of_fmap bag)))"

definition record_refused_entry ::
  "relay_session_key \<Rightarrow> entry \<Rightarrow> relay_cap_outcome \<Rightarrow> relay_cap_outcome" where
  "record_refused_entry session e out =
     out\<lparr>rc_limited_demands := rc_limited_demands out |\<union>| eo_owner_demands (snd (snd e)),
         rc_refused_demands := fm_upsert session (\<lambda>ds. ds |\<union>| eo_owner_demands (snd (snd e)))
            (eo_owner_demands (snd (snd e))) (rc_refused_demands out),
         rc_refused_coverage_assignments :=
            rc_refused_coverage_assignments out |\<union>| eo_coverage_assignments (snd (snd e))\<rparr>"

definition apply_global_relay_cap :: "session_bag \<Rightarrow> nat \<Rightarrow> session_bag \<times> relay_cap_outcome" where
  "apply_global_relay_cap bag cap =
     (if fcard (fmdom bag) \<le> cap
      then (bag, \<lparr>rc_limited_demands = {||}, rc_refused_sessions = {||},
                  rc_refused_demands = fmempty, rc_refused_coverage_assignments = {||}\<rparr>)
      else
        (let selected = fset_of_list (take cap (ranked_sessions bag));
             refused = ffilter (\<lambda>session. session |\<notin>| selected) (fmdom bag);
             outcome = fold (\<lambda>session out.
                 (case fmlookup bag session of
                    None \<Rightarrow> out
                  | Some by_source \<Rightarrow>
                      fold (record_refused_entry session) (source_entries by_source) out))
               (sorted_list_of_fset refused)
               \<lparr>rc_limited_demands = {||}, rc_refused_sessions = refused,
                rc_refused_demands = fmempty, rc_refused_coverage_assignments = {||}\<rparr>
         in (fmfilter (\<lambda>session. session |\<in>| selected) bag, outcome)))"

section \<open>The per-relay subscription budget\<close>

definition budget_rank ::
  "(concrete_filter \<Rightarrow> u8 list) \<Rightarrow> sub_id fset \<Rightarrow> wire_req \<Rightarrow> bool \<times> int \<times> int \<times> int \<times> u8 list" where
  "budget_rank filter_hash incumbents req =
     (wr_sub_id req |\<notin>| incumbents,
      - int (fcard (wr_coverage_assignments req)),
      - int (fcard (wr_coverage_claims req)),
      - int (fcard (wr_provenance req)),
      filter_hash (wr_filter req))"

definition refuse_over_budget ::
  "(concrete_filter \<Rightarrow> u8 list) \<Rightarrow> wire_req list \<Rightarrow> nat \<Rightarrow> wire_req list option \<Rightarrow>
   wire_req list \<times> wire_req list" where
  "refuse_over_budget filter_hash session_reqs allowed prior_reqs =
     (let incumbents = fset_of_list (map wr_sub_id (case prior_reqs of None \<Rightarrow> [] | Some rs \<Rightarrow> rs));
          ranked = sort_key (budget_rank filter_hash incumbents) session_reqs;
          cut = min allowed (length ranked)
      in (sort_key wr_sub_id (take cut ranked), drop cut ranked))"

section \<open>Bagging routes\<close>

definition bag_push ::
  "relay_session_key \<Rightarrow> read_routing \<Rightarrow> entry \<Rightarrow> session_bag \<Rightarrow> session_bag" where
  "bag_push session source e bag =
     fm_upsert session (fm_upsert source (\<lambda>es. es @ [e]) [e]) (fmupd source [e] fmempty) bag"

definition push_routes ::
  "concrete_filter \<Rightarrow> read_routing \<Rightarrow> public_key option \<Rightarrow> laned_route list \<Rightarrow> entry_ownership \<Rightarrow>
   session_bag \<Rightarrow> session_bag" where
  "push_routes f source authenticate_as routes ownership =
     fold (\<lambda>(relay, prov). bag_push (RelaySessionKey relay authenticate_as) source
         (f, [prov], ownership)) routes"

definition exact_atom_ownership :: "contextual_atom \<Rightarrow> entry_ownership" where
  "exact_atom_ownership atom =
     \<lparr>eo_coverage_claims = coverage_key |`| coverage_claim_atoms atom,
      eo_owner_demands = {|demand_key_for_atom atom|},
      eo_coverage_assignments = {||}\<rparr>"

record auto_atom_group =
  ag_evidence_by_author :: "(public_key, routing_evidence fset) fmap"
  ag_routing_evidence :: "routing_evidence fset"
  ag_authors :: "public_key fset"
  ag_unbounded :: bool
  ag_demands :: "demand_key fset"
  ag_authors_by_demand :: "(demand_key, public_key fset) fmap"

definition default_group :: auto_atom_group where
  "default_group = \<lparr>ag_evidence_by_author = fmempty, ag_routing_evidence = {||}, ag_authors = {||},
     ag_unbounded = False, ag_demands = {||}, ag_authors_by_demand = fmempty\<rparr>"

definition evidence_for :: "auto_atom_group \<Rightarrow> public_key \<Rightarrow> routing_evidence fset" where
  "evidence_for grp author =
     (case fmlookup (ag_evidence_by_author grp) author of None \<Rightarrow> {||} | Some e \<Rightarrow> e)"

definition auto_ownership ::
  "skeleton \<Rightarrow> public_key option \<Rightarrow> auto_atom_group \<Rightarrow> public_key fset \<Rightarrow> public_key fset \<Rightarrow> bool \<Rightarrow>
   entry_ownership" where
  "auto_ownership sk authenticate_as grp authors coverage_authors unbounded =
     (let claims = (\<lambda>author. coverage_key (ContextualAtom (with_authors sk {|author|}) Auto
            authenticate_as (evidence_for grp author))) |`| authors;
          owners = fmdom (fmfilter (\<lambda>demand.
              authors |\<inter>| the (fmlookup (ag_authors_by_demand grp) demand) \<noteq> {||})
            (ag_authors_by_demand grp));
          unbound_claim = coverage_key (ContextualAtom (with_authors sk {||}) Auto
            authenticate_as (ag_routing_evidence grp));
          unbound_owners = fmdom (fmfilter (\<lambda>demand.
              the (fmlookup (ag_authors_by_demand grp) demand) = {||})
            (ag_authors_by_demand grp));
          assignments = ffUnion ((\<lambda>demand. Pair demand |`| (coverage_authors |\<inter>|
              the (fmlookup (ag_authors_by_demand grp) demand)))
            |`| fmdom (ag_authors_by_demand grp))
      in \<lparr>eo_coverage_claims = (if unbounded then finsert unbound_claim claims else claims),
          eo_owner_demands = (if unbounded then owners |\<union>| unbound_owners else owners),
          eo_coverage_assignments = assignments\<rparr>)"

section \<open>Step 1: grouping and classification\<close>

record demand_groups =
  dg_auto_groups :: "(skeleton \<times> public_key option, auto_atom_group) fmap"
  dg_authors_by_demand :: "(demand_key, public_key fset) fmap"
  dg_exact_atoms :: "(contextual_atom \<times> relay_url fset) list"

definition group_add :: "contextual_atom \<Rightarrow> public_key fset \<Rightarrow> auto_atom_group \<Rightarrow> auto_atom_group" where
  "group_add atom authors grp =
     (let demand = demand_key_for_atom atom
      in \<lparr>ag_evidence_by_author =
            fold (\<lambda>author. fm_upsert author (\<lambda>e. e |\<union>| ca_routing_evidence atom) (ca_routing_evidence atom))
              (sorted_list_of_fset authors) (ag_evidence_by_author grp),
          ag_routing_evidence = ag_routing_evidence grp |\<union>| ca_routing_evidence atom,
          ag_authors = ag_authors grp |\<union>| authors,
          ag_unbounded = (ag_unbounded grp \<or> cf_authors (ca_filter atom) = None),
          ag_demands = finsert demand (ag_demands grp),
          ag_authors_by_demand = fmupd demand authors (ag_authors_by_demand grp)\<rparr>)"

definition classify_atom :: "contextual_atom \<Rightarrow> demand_groups \<Rightarrow> demand_groups" where
  "classify_atom atom dg =
     (case classify (ca_routing atom) of
        ClassAuto \<Rightarrow>
          (let (sk, authors) = skeleton_of (ca_filter atom)
           in dg\<lparr>dg_authors_by_demand :=
                   fmupd (demand_key_for_atom atom) authors (dg_authors_by_demand dg),
                 dg_auto_groups :=
                   fm_upsert (sk, ca_authenticate_as atom) (group_add atom authors)
                     (group_add atom authors default_group) (dg_auto_groups dg)\<rparr>)
      | ClassExact relays \<Rightarrow> dg\<lparr>dg_exact_atoms := dg_exact_atoms dg @ [(atom, relays)]\<rparr>)"

definition group_demand :: "contextual_atom fset \<Rightarrow> demand_groups" where
  "group_demand demand =
     fold classify_atom (sorted_list_of_fset demand)
       \<lparr>dg_auto_groups = fmempty, dg_authors_by_demand = fmempty, dg_exact_atoms = []\<rparr>"

section \<open>Steps 2 and 3: routing\<close>

definition K_COVER :: nat where
  "K_COVER = 2"

definition USIZE_MAX :: nat where
  "USIZE_MAX = 2 ^ 64 - 1"

type_synonym uncovered_map = "(demand_key, (public_key, shortfall) fmap) fmap"

definition group_candidates :: "auto_atom_group \<Rightarrow> routing_facts \<Rightarrow> (public_key, laned_relay list) fmap" where
  "group_candidates grp facts =
     add_projected_candidates (build_candidates (ag_authors grp) facts) (ag_evidence_by_author grp)"

definition group_coverage :: "auto_atom_group \<Rightarrow> routing_facts \<Rightarrow> coverage" where
  "group_coverage grp facts =
     solve \<lparr>ci_candidates = group_candidates grp facts, ci_k = K_COVER, ci_cap = USIZE_MAX\<rparr>"

definition record_uncovered :: "auto_atom_group \<Rightarrow> coverage \<Rightarrow> demand_key \<Rightarrow> uncovered_map \<Rightarrow> uncovered_map" where
  "record_uncovered grp cov demand uncovered =
     (let exact = fs_filter_map (\<lambda>author. fmlookup (cov_shortfall cov) author)
                    (case fmlookup (ag_authors_by_demand grp) demand of None \<Rightarrow> {||} | Some a \<Rightarrow> a)
      in if fmdom exact = {||} then uncovered else fmupd demand exact uncovered)"

definition coverage_by_relay ::
  "laned_route list \<Rightarrow> (relay_url, public_key fset \<times> route_provenance list) fmap" where
  "coverage_by_relay routes =
     fold (\<lambda>(relay, prov). fm_upsert relay
         (\<lambda>(authors, provs). (authors |\<union>| rp_covers_authors prov, provs @ [prov]))
         (rp_covers_authors prov, [prov])) routes fmempty"

definition push_coverage ::
  "skeleton \<Rightarrow> public_key option \<Rightarrow> auto_atom_group \<Rightarrow>
   (relay_url, public_key fset \<times> route_provenance list) fmap \<Rightarrow> session_bag \<Rightarrow> session_bag" where
  "push_coverage sk authenticate_as grp by_relay =
     fold (\<lambda>(relay, relay_authors, provenance).
         bag_push (RelaySessionKey relay authenticate_as) Auto
           (with_authors sk relay_authors, provenance,
            auto_ownership sk authenticate_as grp relay_authors relay_authors False))
       (sorted_list_of_fmap by_relay)"

definition lane_filter :: "skeleton \<Rightarrow> auto_atom_group \<Rightarrow> concrete_filter" where
  "lane_filter sk grp =
     (if ag_unbounded grp then with_authors sk {||} else with_authors sk (ag_authors grp))"

definition route_group ::
  "routing_facts \<Rightarrow> skeleton \<Rightarrow> public_key option \<Rightarrow> auto_atom_group \<Rightarrow>
   session_bag \<times> uncovered_map \<Rightarrow> session_bag \<times> uncovered_map" where
  "route_group facts sk authenticate_as grp state =
     (let (bag, uncovered) = state;
          cov = group_coverage grp facts;
          uncovered' = fold (record_uncovered grp cov) (sorted_list_of_fset (ag_demands grp)) uncovered;
          by_relay = coverage_by_relay (provenance_for_coverage cov (group_candidates grp facts));
          bag1 = push_coverage sk authenticate_as grp by_relay bag;
          lane_ownership = auto_ownership sk authenticate_as grp (ag_authors grp) {||} (ag_unbounded grp);
          bag2 = (if ag_unbounded grp
                  then push_routes (lane_filter sk grp) Auto authenticate_as
                         (provenance_for_projected (ag_routing_evidence grp)) lane_ownership bag1
                  else bag1);
          bag3 = push_routes (lane_filter sk grp) Auto authenticate_as
                   (operator_app_routes facts (ag_authors grp)) lane_ownership bag2;
          shortfall_authors = fmdom (cov_shortfall cov);
          bag4 = push_routes (with_authors sk shortfall_authors) Auto authenticate_as
                   (operator_fallback_routes facts shortfall_authors)
                   (auto_ownership sk authenticate_as grp shortfall_authors {||} False) bag3
      in (bag4, uncovered'))"

definition route_exact :: "contextual_atom \<times> relay_url fset \<Rightarrow> session_bag \<Rightarrow> session_bag" where
  "route_exact ar bag =
     (let (atom, relays) = ar;
          source = Explicit (sorted_list_of_fset relays)
      in fold (\<lambda>(relay, prov). bag_push (RelaySessionKey relay (ca_authenticate_as atom)) source
             (ca_filter atom, [prov], exact_atom_ownership atom))
           (provenance_for_exact relays) bag)"

definition route_demand :: "routing_facts \<Rightarrow> demand_groups \<Rightarrow> session_bag \<times> uncovered_map" where
  "route_demand facts dg =
     (let (bag, uncovered) =
            fold (\<lambda>((sk, authenticate_as), grp). route_group facts sk authenticate_as grp)
              (sorted_list_of_fmap (dg_auto_groups dg)) (fmempty, fmempty)
      in (fold route_exact (dg_exact_atoms dg) bag, uncovered))"

section \<open>Steps 5 and 6: coalescing, token assignment, subscription budget\<close>

datatype request_replacement = RequestReplacement
  (rpl_session: relay_session_key) (rpl_prior: sub_id) (rpl_next: sub_id)

record compile_state =
  cs_rules :: rule_registry
  cs_mint_counter :: u64
  cs_reqs :: "(relay_session_key, wire_req list) fmap"
  cs_replacements :: "request_replacement fset"
  cs_subscription_shortfalls :: "(relay_session_key, budget_shortfall) fmap"
  cs_budget_refused :: "(relay_session_key \<times> wire_req) list"
  cs_limited_demands :: "demand_key fset"
  cs_refused_sessions :: "relay_session_key fset"

definition priors_of ::
  "(relay_session_key, wire_req list) fmap \<Rightarrow> relay_session_key \<Rightarrow> read_routing \<Rightarrow> prior list" where
  "priors_of incumbent_reqs session source =
     map (\<lambda>req. (wr_filter req, wr_sub_id req))
       (filter (\<lambda>req. wr_routing req = source)
          (case fmlookup incumbent_reqs session of None \<Rightarrow> [] | Some rs \<Rightarrow> rs))"

definition build_req :: "read_routing \<Rightarrow> entry \<Rightarrow> assignment \<Rightarrow> wire_req" where
  "build_req source e a =
     \<lparr>wr_sub_id = as_sub_id a, wr_filter = fst e, wr_routing = source,
      wr_provenance = fset_of_list (fst (snd e)),
      wr_coverage_claims = eo_coverage_claims (snd (snd e)),
      wr_owner_demands = eo_owner_demands (snd (snd e)),
      wr_coverage_assignments = eo_coverage_assignments (snd (snd e))\<rparr>"

definition replacements_of ::
  "relay_session_key \<Rightarrow> assignment list \<Rightarrow> request_replacement fset" where
  "replacements_of session as =
     fset_of_list (List.map_filter (\<lambda>a.
       map_option (\<lambda>prior. RequestReplacement session prior (as_sub_id a)) (as_predecessor a)) as)"

definition compile_source ::
  "(relay_session_key, wire_req list) fmap \<Rightarrow> relay_session_key \<Rightarrow> read_routing \<times> entry list \<Rightarrow>
   wire_req list \<times> compile_state \<Rightarrow> wire_req list \<times> compile_state" where
  "compile_source incumbent_reqs session se state =
     (let (source, entries) = se;
          (session_reqs, cs) = state;
          (merged, rules') = coalesce_with (cs_rules cs) entries;
          (assigned, counter') =
             assign (mint_wire (rsk_relay session) source (rsk_authenticate_as session))
               (priors_of incumbent_reqs session source) (map fst merged) (cs_mint_counter cs)
      in (session_reqs @ map2 (build_req source) merged assigned,
          cs\<lparr>cs_rules := rules', cs_mint_counter := counter',
             cs_replacements := cs_replacements cs |\<union>| replacements_of session assigned\<rparr>))"

definition install_session :: "relay_session_key \<Rightarrow> wire_req list \<Rightarrow> compile_state \<Rightarrow> compile_state" where
  "install_session session reqs cs = cs\<lparr>cs_reqs := fmupd session reqs (cs_reqs cs)\<rparr>"

definition apply_subscription_budget ::
  "(concrete_filter \<Rightarrow> u8 list) \<Rightarrow> compile_budget \<Rightarrow> (relay_session_key, wire_req list) fmap \<Rightarrow>
   relay_session_key \<Rightarrow> wire_req list \<Rightarrow> compile_state \<Rightarrow> compile_state" where
  "apply_subscription_budget filter_hash budget incumbent_reqs session session_reqs cs =
     (let planned = length session_reqs
      in case max_subscriptions budget (rsk_relay session) of
           None \<Rightarrow> install_session session session_reqs cs
         | Some allowed \<Rightarrow>
             if planned \<le> allowed then install_session session session_reqs cs
             else
               (let (kept, refused) = refuse_over_budget filter_hash session_reqs allowed
                        (fmlookup incumbent_reqs session);
                    cs' = cs\<lparr>cs_limited_demands := cs_limited_demands cs |\<union>|
                               ffUnion (fset_of_list (map wr_owner_demands refused)),
                             cs_budget_refused := cs_budget_refused cs @ map (Pair session) refused,
                             cs_subscription_shortfalls := fmupd session
                               \<lparr>bs_budget = allowed, bs_planned = planned, bs_refused = length refused\<rparr>
                               (cs_subscription_shortfalls cs)\<rparr>
                in if kept = []
                   then cs'\<lparr>cs_refused_sessions := finsert session (cs_refused_sessions cs')\<rparr>
                   else install_session session kept cs'))"

definition compile_session ::
  "(concrete_filter \<Rightarrow> u8 list) \<Rightarrow> compile_budget \<Rightarrow> (relay_session_key, wire_req list) fmap \<Rightarrow>
   relay_session_key \<times> (read_routing, entry list) fmap \<Rightarrow> compile_state \<Rightarrow> compile_state" where
  "compile_session filter_hash budget incumbent_reqs sb cs =
     (let (session, by_source) = sb;
          (session_reqs, cs') = fold (compile_source incumbent_reqs session)
             (sorted_list_of_fmap by_source) ([], cs)
      in apply_subscription_budget filter_hash budget incumbent_reqs session
           (sort_key wr_sub_id session_reqs) cs')"

section \<open>The shortfall reduction and the compile\<close>

definition reduce_outbox_shortfall :: "shortfall option \<Rightarrow> nat \<Rightarrow> bool \<Rightarrow> shortfall option" where
  "reduce_outbox_shortfall intrinsic achieved refused_by_local_limit =
     (if achieved \<ge> 2 then None
      else case intrinsic of
        Some sf \<Rightarrow>
          Some (Shortfall (sf_requested_k sf) achieved
            (if achieved > 0 \<and> sf_reason sf = NoCandidates then FewerCandidatesThanK
             else sf_reason sf))
      | None \<Rightarrow> if refused_by_local_limit then Some (Shortfall 2 achieved CapExhausted) else None)"

definition selected_assignments ::
  "(relay_session_key, wire_req list) fmap \<Rightarrow> (demand_key \<times> public_key) \<Rightarrow> relay_session_key fset" where
  "selected_assignments reqs a =
     ffilter (\<lambda>session. list_ex (\<lambda>req. a |\<in>| wr_coverage_assignments req)
        (case fmlookup reqs session of None \<Rightarrow> [] | Some rs \<Rightarrow> rs)) (fmdom reqs)"

definition reduce_demand ::
  "(relay_session_key, wire_req list) fmap \<Rightarrow> (demand_key \<times> public_key) fset \<Rightarrow>
   demand_key \<times> public_key fset \<Rightarrow> uncovered_map \<Rightarrow> uncovered_map" where
  "reduce_demand reqs refused da uncovered =
     (let (demand, authors) = da;
          intrinsic = (case fmlookup uncovered demand of None \<Rightarrow> fmempty | Some m \<Rightarrow> m);
          uncovered' = fmdrop demand uncovered;
          exact = fs_filter_map (\<lambda>author.
              reduce_outbox_shortfall (fmlookup intrinsic author)
                (fcard (selected_assignments reqs (demand, author)))
                ((demand, author) |\<in>| refused)) authors
      in if fmdom exact = {||} then uncovered' else fmupd demand exact uncovered')"

definition plan_sub_ids :: "(relay_session_key, wire_req list) fmap \<Rightarrow> sub_id list" where
  "plan_sub_ids reqs = map wr_sub_id (concat (fm_values reqs))"

record compiled_demand =
  cd_plan :: relay_plan
  cd_replacements :: "request_replacement fset"
  cd_uncovered_by_demand :: uncovered_map
  cd_cap_refused_demands :: "(relay_session_key, demand_key fset) fmap"
  cd_cap_refused_coverage_assignments :: "(demand_key \<times> public_key) fset"
  cd_budget_refused_requests :: "(relay_session_key \<times> wire_req) list"

definition compile_demand ::
  "(concrete_filter \<Rightarrow> u8 list) \<Rightarrow> rule_registry \<Rightarrow> u64 \<Rightarrow> (relay_session_key, wire_req list) fmap \<Rightarrow>
   contextual_atom fset \<Rightarrow> routing_facts \<Rightarrow> compile_budget \<Rightarrow>
   (compiled_demand \<times> u64 \<times> rule_registry) option" where
  "compile_demand filter_hash rules next_token incumbent_reqs demand facts budget =
     (let dg = group_demand demand;
          (bag, uncovered) = route_demand facts dg;
          (bag', capped) = apply_global_relay_cap bag (cb_relay_cap budget);
          cs = fold (compile_session filter_hash budget incumbent_reqs) (sorted_list_of_fmap bag')
             \<lparr>cs_rules = rules, cs_mint_counter = next_token, cs_reqs = fmempty,
              cs_replacements = {||}, cs_subscription_shortfalls = fmempty, cs_budget_refused = [],
              cs_limited_demands = rc_limited_demands capped,
              cs_refused_sessions = rc_refused_sessions capped\<rparr>;
          refused = rc_refused_coverage_assignments capped |\<union>|
             ffUnion (fset_of_list (map (\<lambda>(_, req). wr_coverage_assignments req) (cs_budget_refused cs)));
          uncovered' = fold (reduce_demand (cs_reqs cs) refused)
             (sorted_list_of_fmap (dg_authors_by_demand dg)) uncovered
      in if \<not> distinct (plan_sub_ids (cs_reqs cs)) then None
         else Some
           (\<lparr>cd_plan = \<lparr>pl_reqs = cs_reqs cs, pl_limited_demands = cs_limited_demands cs,
               pl_refused_sessions = cs_refused_sessions cs,
               pl_subscription_shortfalls = cs_subscription_shortfalls cs\<rparr>,
             cd_replacements = cs_replacements cs,
             cd_uncovered_by_demand = uncovered',
             cd_cap_refused_demands = rc_refused_demands capped,
             cd_cap_refused_coverage_assignments = rc_refused_coverage_assignments capped,
             cd_budget_refused_requests = cs_budget_refused cs\<rparr>,
            cs_mint_counter cs, cs_rules cs))"

end
