(* ===== verification/Compile_Props.thy ===== *)
theory Compile_Props
  imports Compile
begin

text \<open>
  Steps 5 and 6 of the compile, session by session: the tokens of a session stay injective and below
  the mint counter, the advertised budget holds, and every routed entry is served by a request
  that contains it or its demands are reported as limited.
\<close>

section \<open>Tokens\<close>

lemma issued_below_mono_iff: "issued_below relay auth c \<subseteq> issued_below relay auth c' \<longleftrightarrow> c \<le> c'"
proof
  assume sub: "issued_below relay auth c \<subseteq> issued_below relay auth c'"
  show "c \<le> c'"
  proof (rule ccontr)
    assume "\<not> c \<le> c'"
    then have "SubId relay (WireToken c') auth \<in> issued_below relay auth c" by (simp add: issued_below_def)
    with sub have "SubId relay (WireToken c') auth \<in> issued_below relay auth c'" by blast
    then show False by (simp add: issued_below_def)
  qed
next
  assume "c \<le> c'"
  then show "issued_below relay auth c \<subseteq> issued_below relay auth c'"
    by (auto simp: issued_below_def intro: less_le_trans)
qed

definition incumbent_ids :: "wire_req list \<Rightarrow> read_routing set \<Rightarrow> sub_id set" where
  "incumbent_ids rs sources = wr_sub_id ` {r \<in> set rs. wr_routing r \<in> sources}"

definition session_incumbents ::
  "(relay_session_key, wire_req list) fmap \<Rightarrow> relay_session_key \<Rightarrow> wire_req list" where
  "session_incumbents incumbent_reqs session =
     (case fmlookup incumbent_reqs session of None \<Rightarrow> [] | Some rs \<Rightarrow> rs)"

definition session_tokens_ok :: "u64 \<Rightarrow> relay_session_key \<Rightarrow> wire_req list \<Rightarrow> bool" where
  "session_tokens_ok counter session rs \<longleftrightarrow>
     distinct (map wr_sub_id rs) \<and>
     wr_sub_id ` set rs \<subseteq> issued_below (rsk_relay session) (rsk_authenticate_as session) counter"

definition plan_tokens_ok :: "u64 \<Rightarrow> (relay_session_key, wire_req list) fmap \<Rightarrow> bool" where
  "plan_tokens_ok counter reqs \<longleftrightarrow>
     (\<forall>session rs. fmlookup reqs session = Some rs \<longrightarrow> session_tokens_ok counter session rs)"

lemma session_tokens_ok_mono:
  "session_tokens_ok c session rs \<Longrightarrow> c \<le> c' \<Longrightarrow> session_tokens_ok c' session rs"
  unfolding session_tokens_ok_def using issued_below_mono_iff by blast

lemma plan_tokens_incumbents:
  "plan_tokens_ok c reqs \<Longrightarrow> session_tokens_ok c session (session_incumbents reqs session)"
  by (auto simp: plan_tokens_ok_def session_incumbents_def session_tokens_ok_def split: option.splits)

lemma priors_of_incumbents:
  "priors_of incumbent_reqs session source =
     map (\<lambda>req. (wr_filter req, wr_sub_id req))
       (filter (\<lambda>req. wr_routing req = source) (session_incumbents incumbent_reqs session))"
  by (simp add: priors_of_def session_incumbents_def)

lemma snd_priors_of:
  "snd ` set (priors_of incumbent_reqs session source) =
     incumbent_ids (session_incumbents incumbent_reqs session) {source}"
  by (auto simp: priors_of_incumbents incumbent_ids_def image_iff)

lemma distinct_priors_of:
  "distinct (map wr_sub_id (session_incumbents incumbent_reqs session)) \<Longrightarrow>
   distinct (map snd (priors_of incumbent_reqs session source))"
  by (simp add: priors_of_incumbents o_def distinct_map_filter)

lemma incumbent_ids_disjoint:
  assumes "distinct (map wr_sub_id rs)" "sources \<inter> sources' = {}"
  shows "incumbent_ids rs sources \<inter> incumbent_ids rs sources' = {}"
proof -
  have "inj_on wr_sub_id (set rs)" using assms(1) by (simp add: distinct_map)
  then show ?thesis using assms(2) by (auto simp: incumbent_ids_def inj_on_def)
qed

lemma length_merge_restart: "length (merge_restart rules current) \<le> length current"
proof (induction rules current rule: merge_restart.induct)
  case (1 rules current)
  show ?case
  proof (cases "first_pair rules current")
    case None
    then show ?thesis by (subst merge_restart.simps) simp
  next
    case (Some p)
    obtain i j where p: "p = (i, j)" by (cases p)
    have "length (apply_merge current i j (the (first_merge rules (current ! i) (current ! j)))) \<le> length current"
      using first_pair_SomeD[OF Some[unfolded p]] by (simp add: length_apply_merge)
    then show ?thesis
      using 1[OF Some p[symmetric]] Some p by (subst merge_restart.simps) simp
  qed
qed

lemma length_coalesce_with: "length (fst (coalesce_with reg entries)) \<le> length entries"
  unfolding fst_coalesce_with
  using groups_of_length[OF dedup_survivors_groups] length_merge_restart
    groups_of_length[OF dedup_exact_groups] by (meson le_trans)

lemma rules_coalesce_with: "rr_rules (snd (coalesce_with reg entries)) = rr_rules reg"
  unfolding snd_coalesce_with merge_fixed_point_def
  by (rule conjunct2[OF merge_loop_restart]) (auto simp: rows_free_def)

section \<open>One session\<close>

text \<open>What \<open>compile_source\<close> keeps while it walks the sources of a session.\<close>

definition sources_inv ::
  "(relay_session_key, wire_req list) fmap \<Rightarrow> relay_session_key \<Rightarrow> u64 \<Rightarrow> read_routing set \<Rightarrow>
   wire_req list \<Rightarrow> u64 \<Rightarrow> bool" where
  "sources_inv incumbent_reqs session c0 done reqs c \<longleftrightarrow>
     c0 \<le> c \<and> distinct (map wr_sub_id reqs) \<and>
     wr_sub_id ` set reqs \<subseteq> incumbent_ids (session_incumbents incumbent_reqs session) done \<union>
       (issued_below (rsk_relay session) (rsk_authenticate_as session) c -
        issued_below (rsk_relay session) (rsk_authenticate_as session) c0)"

definition same_outputs :: "compile_state \<Rightarrow> compile_state \<Rightarrow> bool" where
  "same_outputs cs cs' \<longleftrightarrow>
     cs_reqs cs' = cs_reqs cs \<and> cs_subscription_shortfalls cs' = cs_subscription_shortfalls cs \<and>
     cs_budget_refused cs' = cs_budget_refused cs \<and> cs_limited_demands cs' = cs_limited_demands cs \<and>
     cs_refused_sessions cs' = cs_refused_sessions cs"

lemma compile_source_step:
  assumes step: "compile_source incumbent_reqs session (source, entries) (reqs, cs) = (reqs', cs')"
    and inc: "session_tokens_ok c0 session (session_incumbents incumbent_reqs session)"
    and inv: "sources_inv incumbent_reqs session c0 done reqs (cs_mint_counter cs)"
    and new: "source \<notin> done"
    and room: "length entries \<le> mints_left (cs_mint_counter cs)"
  shows "sources_inv incumbent_reqs session c0 (insert source done) reqs' (cs_mint_counter cs')"
    and "mints_left (cs_mint_counter cs) \<le> mints_left (cs_mint_counter cs') + length entries"
    and "\<exists>as. reqs' = reqs @ map2 (build_req source) (fst (coalesce_with (cs_rules cs) entries)) as \<and>
      length as = length (fst (coalesce_with (cs_rules cs) entries))"
    and "rr_rules (cs_rules cs') = rr_rules (cs_rules cs)"
    and "same_outputs cs cs'"
proof -
  let ?relay = "rsk_relay session" and ?auth = "rsk_authenticate_as session"
  let ?issued = "issued_below ?relay ?auth"
  let ?incs = "session_incumbents incumbent_reqs session"
  let ?priors = "priors_of incumbent_reqs session source"
  obtain merged rules' where co: "coalesce_with (cs_rules cs) entries = (merged, rules')" by fastforce
  obtain as c where asg: "assign (mint_wire ?relay source ?auth) ?priors (map fst merged) (cs_mint_counter cs) = (as, c)"
    by fastforce
  have res: "reqs' = reqs @ map2 (build_req source) merged as"
    "cs' = cs\<lparr>cs_rules := rules', cs_mint_counter := c,
       cs_replacements := cs_replacements cs |\<union>| replacements_of session as\<rparr>"
    using step co asg by (auto simp: compile_source_def)
  have c0: "c0 \<le> cs_mint_counter cs" using inv by (simp add: sources_inv_def)
  have len: "length merged \<le> length entries"
    using length_coalesce_with[of "cs_rules cs" entries] co by simp
  have pri: "snd ` set ?priors \<subseteq> ?issued (cs_mint_counter cs)"
  proof -
    have "snd ` set ?priors \<subseteq> ?issued c0"
      using inc by (auto simp: snd_priors_of incumbent_ids_def session_tokens_ok_def)
    then show ?thesis using issued_below_mono_iff c0 by blast
  qed
  have dp: "distinct (map snd ?priors)"
    using inc by (intro distinct_priors_of) (simp add: session_tokens_ok_def)
  have room': "length (map fst merged) \<le> mints_left (cs_mint_counter cs)" using room len by simp
  note inj = counter_mint.assign_injective[OF pri room' dp asg]
  have cc: "cs_mint_counter cs \<le> c" using inj(3) by (simp add: issued_below_mono_iff)
  have ids: "map wr_sub_id (map2 (build_req source) merged as) = map as_sub_id as"
    using inj(1) by (intro nth_equalityI) (auto simp: build_req_def)
  have new_ids: "as_sub_id ` set as \<subseteq> incumbent_ids ?incs {source} \<union> (?issued c - ?issued (cs_mint_counter cs))"
    using inj(5) by (auto simp: snd_priors_of)
  have old_ids: "wr_sub_id ` set reqs \<subseteq> incumbent_ids ?incs done \<union> (?issued (cs_mint_counter cs) - ?issued c0)"
    using inv by (simp add: sources_inv_def)
  have inc0: "incumbent_ids ?incs S \<subseteq> ?issued c0" for S
    using inc by (auto simp: session_tokens_ok_def incumbent_ids_def)
  have mono0: "?issued c0 \<subseteq> ?issued (cs_mint_counter cs)" using c0 by (simp add: issued_below_mono_iff)
  have "incumbent_ids ?incs {source} \<inter> incumbent_ids ?incs done = {}"
    using inc new by (intro incumbent_ids_disjoint) (auto simp: session_tokens_ok_def)
  then have disj: "as_sub_id ` set as \<inter> wr_sub_id ` set reqs = {}"
    using new_ids old_ids inc0 mono0 by blast
  have idset: "wr_sub_id ` set (map2 (build_req source) merged as) = as_sub_id ` set as"
    using ids by (metis list.set_map)
  have "distinct (map wr_sub_id reqs')"
    unfolding res map_append distinct_append ids
    using inv inj(2) disj by (auto simp: sources_inv_def)
  moreover have "wr_sub_id ` set reqs' \<subseteq> incumbent_ids ?incs (insert source done) \<union> (?issued c - ?issued c0)"
  proof -
    have "incumbent_ids ?incs (insert source done) = incumbent_ids ?incs {source} \<union> incumbent_ids ?incs done"
      by (auto simp: incumbent_ids_def)
    then show ?thesis
      unfolding res set_append image_Un idset using new_ids old_ids mono0 inj(3) by blast
  qed
  ultimately show "sources_inv incumbent_reqs session c0 (insert source done) reqs' (cs_mint_counter cs')"
    unfolding sources_inv_def using c0 cc res(2) by simp
  show "mints_left (cs_mint_counter cs) \<le> mints_left (cs_mint_counter cs') + length entries"
    using inj(4) len res(2) by simp
  show "\<exists>as. reqs' = reqs @ map2 (build_req source) (fst (coalesce_with (cs_rules cs) entries)) as \<and>
      length as = length (fst (coalesce_with (cs_rules cs) entries))"
    using res(1) co inj(1) by auto
  show "rr_rules (cs_rules cs') = rr_rules (cs_rules cs)"
    using rules_coalesce_with[of "cs_rules cs" entries] co res(2) by simp
  show "same_outputs cs cs'" using res(2) by (simp add: same_outputs_def)
qed

definition serves ::
  "(concrete_filter \<Rightarrow> event \<Rightarrow> bool) \<Rightarrow> read_routing \<Rightarrow> entry \<Rightarrow> wire_req \<Rightarrow> bool" where
  "serves m source e r \<longleftrightarrow>
     wr_routing r = source \<and> (\<forall>ev. m (fst e) ev \<longrightarrow> m (wr_filter r) ev) \<and>
     eo_coverage_claims (snd (snd e)) |\<subseteq>| wr_coverage_claims r \<and>
     eo_owner_demands (snd (snd e)) |\<subseteq>| wr_owner_demands r \<and>
     eo_coverage_assignments (snd (snd e)) |\<subseteq>| wr_coverage_assignments r"

lemma owned_subsetD:
  assumes "owned x \<subseteq> owned y"
  shows "eo_coverage_claims (snd (snd x)) |\<subseteq>| eo_coverage_claims (snd (snd y))"
    "eo_owner_demands (snd (snd x)) |\<subseteq>| eo_owner_demands (snd (snd y))"
    "eo_coverage_assignments (snd (snd x)) |\<subseteq>| eo_coverage_assignments (snd (snd y))"
proof -
  have "OwnedClaim c \<in> owned z \<longleftrightarrow> c |\<in>| eo_coverage_claims (snd (snd z))"
    "OwnedDemand d \<in> owned z \<longleftrightarrow> d |\<in>| eo_owner_demands (snd (snd z))"
    "OwnedAssignment a \<in> owned z \<longleftrightarrow> a |\<in>| eo_coverage_assignments (snd (snd z))" for c d a z
    by (auto simp: owned_def ownership_items_def)
  then show "eo_coverage_claims (snd (snd x)) |\<subseteq>| eo_coverage_claims (snd (snd y))"
    "eo_owner_demands (snd (snd x)) |\<subseteq>| eo_owner_demands (snd (snd y))"
    "eo_coverage_assignments (snd (snd x)) |\<subseteq>| eo_coverage_assignments (snd (snd y))"
    using assms by blast+
qed

lemma built_reqs_serve:
  assumes "match_event_contract m" "widening_rules (rr_rules reg)"
    and "length as = length (fst (coalesce_with reg entries))" "e \<in> set entries"
  shows "\<exists>r \<in> set (map2 (build_req source) (fst (coalesce_with reg entries)) as). serves m source e r"
proof -
  let ?merged = "fst (coalesce_with reg entries)"
  have "regrouping m entries ?merged"
    by (rule widening_rules.coalesce_with_regrouping[OF assms(2,1) refl])
  then obtain y where y: "y \<in> set ?merged" "contained m e y" "owned e \<subseteq> owned y"
    using assms(4) unfolding regrouping_def by blast
  then obtain i where i: "i < length ?merged" "y = ?merged ! i" by (auto simp: in_set_conv_nth)
  have "serves m source e (build_req source y (as ! i))"
    using y(2) owned_subsetD[OF y(3)] by (auto simp: serves_def build_req_def contained_def)
  moreover have "build_req source y (as ! i) \<in> set (map2 (build_req source) ?merged as)"
    using i assms(3) by (auto simp: set_zip intro!: image_eqI[of _ _ "(y, as ! i)"])
  ultimately show ?thesis by blast
qed

definition entry_count :: "(read_routing \<times> entry list) list \<Rightarrow> nat" where
  "entry_count ss = sum_list (map (\<lambda>(_, es). length es) ss)"

lemma compile_sources:
  assumes "fold (compile_source incumbent_reqs session) ss (reqs, cs) = (reqs', cs')"
    and inc: "session_tokens_ok c0 session (session_incumbents incumbent_reqs session)"
    and "sources_inv incumbent_reqs session c0 done reqs (cs_mint_counter cs)"
    and "distinct (map fst ss)" "fst ` set ss \<inter> done = {}"
    and "entry_count ss \<le> mints_left (cs_mint_counter cs)"
  shows "sources_inv incumbent_reqs session c0 (done \<union> fst ` set ss) reqs' (cs_mint_counter cs') \<and>
    mints_left (cs_mint_counter cs) \<le> mints_left (cs_mint_counter cs') + entry_count ss \<and>
    rr_rules (cs_rules cs') = rr_rules (cs_rules cs) \<and>
    same_outputs cs cs' \<and>
    set reqs \<subseteq> set reqs' \<and> (\<forall>r \<in> set reqs' - set reqs. wr_routing r \<in> fst ` set ss) \<and>
    (\<forall>m. match_event_contract m \<longrightarrow> widening_rules (rr_rules (cs_rules cs)) \<longrightarrow>
       (\<forall>(source, entries) \<in> set ss. \<forall>e \<in> set entries. \<exists>r \<in> set reqs'. serves m source e r))"
  using assms(1,3-)
proof (induction ss arbitrary: reqs cs "done")
  case Nil
  then show ?case by (simp add: same_outputs_def)
next
  case (Cons x ss)
  obtain source entries where x: "x = (source, entries)" by (cases x)
  obtain reqs1 cs1 where step: "compile_source incumbent_reqs session (source, entries) (reqs, cs) = (reqs1, cs1)"
    by fastforce
  have cnt: "entry_count (x # ss) = length entries + entry_count ss" by (simp add: entry_count_def x)
  have "source \<notin> done" "length entries \<le> mints_left (cs_mint_counter cs)"
    using Cons.prems(4,5) cnt x by auto
  note st = compile_source_step[OF step inc Cons.prems(2) this]
  have rest: "fold (compile_source incumbent_reqs session) ss (reqs1, cs1) = (reqs', cs')"
    using Cons.prems(1) x step by simp
  have ih: "sources_inv incumbent_reqs session c0 (insert source done \<union> fst ` set ss) reqs' (cs_mint_counter cs') \<and>
      mints_left (cs_mint_counter cs1) \<le> mints_left (cs_mint_counter cs') + entry_count ss \<and>
      rr_rules (cs_rules cs') = rr_rules (cs_rules cs1) \<and>
      same_outputs cs1 cs' \<and>
      set reqs1 \<subseteq> set reqs' \<and> (\<forall>r \<in> set reqs' - set reqs1. wr_routing r \<in> fst ` set ss) \<and>
      (\<forall>m. match_event_contract m \<longrightarrow> widening_rules (rr_rules (cs_rules cs1)) \<longrightarrow>
         (\<forall>(source, entries) \<in> set ss. \<forall>e \<in> set entries. \<exists>r \<in> set reqs'. serves m source e r))"
    using Cons.prems(3,4,5) x cnt st(2) by (intro Cons.IH[OF rest st(1)]) auto
  obtain as where as: "reqs1 = reqs @ map2 (build_req source) (fst (coalesce_with (cs_rules cs) entries)) as"
    "length as = length (fst (coalesce_with (cs_rules cs) entries))" using st(3) by blast
  have routing: "wr_routing r = source" if "r \<in> set reqs1 - set reqs" for r
    using that as(1) by (auto simp: build_req_def)
  have serve: "\<exists>r \<in> set reqs1. serves m source e r"
    if "match_event_contract m" "widening_rules (rr_rules (cs_rules cs))" "e \<in> set entries" for m e
    using built_reqs_serve[OF that(1,2) as(2) that(3), of source] as(1) by auto
  have eq: "same_outputs cs cs'" using ih st(5) by (simp add: same_outputs_def)
  show ?case
  proof (intro conjI allI impI)
    show "sources_inv incumbent_reqs session c0 (done \<union> fst ` set (x # ss)) reqs' (cs_mint_counter cs')"
      using ih x by (simp add: insert_commute)
    show "mints_left (cs_mint_counter cs) \<le> mints_left (cs_mint_counter cs') + entry_count (x # ss)"
      using ih st(2) cnt by linarith
    show "rr_rules (cs_rules cs') = rr_rules (cs_rules cs)" using ih st(4) by simp
    show "set reqs \<subseteq> set reqs'" using ih as(1) by auto
    show "\<forall>r \<in> set reqs' - set reqs. wr_routing r \<in> fst ` set (x # ss)" using ih routing x by auto
  next
    fix m assume m: "match_event_contract m" "widening_rules (rr_rules (cs_rules cs))"
    then have tl: "\<forall>(source, entries) \<in> set ss. \<forall>e \<in> set entries. \<exists>r \<in> set reqs'. serves m source e r"
      using ih st(4) by simp
    have "set reqs1 \<subseteq> set reqs'" using ih by blast
    then have hd: "\<forall>e \<in> set entries. \<exists>r \<in> set reqs'. serves m source e r" using serve[OF m] by blast
    show "\<forall>(source, entries) \<in> set (x # ss). \<forall>e \<in> set entries. \<exists>r \<in> set reqs'. serves m source e r"
      using hd tl x by simp
  qed (rule eq)
qed

lemma refuse_over_budget_split:
  assumes "refuse_over_budget filter_hash reqs allowed prior_reqs = (kept, refused)"
  shows "mset kept + mset refused = mset reqs" "length kept = min allowed (length reqs)"
proof -
  obtain incumbents where k: "kept = sort_key wr_sub_id (take (min allowed (length reqs))
      (sort_key (budget_rank filter_hash incumbents) reqs))"
    "refused = drop (min allowed (length reqs)) (sort_key (budget_rank filter_hash incumbents) reqs)"
    using assms by (auto simp: refuse_over_budget_def Let_def)
  show "length kept = min allowed (length reqs)" by (simp add: k)
  show "mset kept + mset refused = mset reqs"
    unfolding k mset_sort mset_append[symmetric] append_take_drop_id by simp
qed

definition served_or_limited ::
  "(concrete_filter \<Rightarrow> event \<Rightarrow> bool) \<Rightarrow> (relay_session_key, wire_req list) fmap \<Rightarrow> demand_key fset \<Rightarrow>
   relay_session_key \<Rightarrow> read_routing \<Rightarrow> entry \<Rightarrow> bool" where
  "served_or_limited m reqs limited session source e \<longleftrightarrow>
     (\<exists>rs r. fmlookup reqs session = Some rs \<and> r \<in> set rs \<and> serves m source e r) \<or>
     eo_owner_demands (snd (snd e)) |\<subseteq>| limited"

definition session_reqs_ok ::
  "compile_budget \<Rightarrow> u64 \<Rightarrow> relay_session_key \<Rightarrow> read_routing set \<Rightarrow> wire_req list \<Rightarrow> bool" where
  "session_reqs_ok budget counter session sources rs \<longleftrightarrow>
     session_tokens_ok counter session rs \<and>
     (\<forall>limit. max_subscriptions budget (rsk_relay session) = Some limit \<longrightarrow> length rs \<le> limit) \<and>
     (\<forall>r \<in> set rs. wr_routing r \<in> sources)"

lemma apply_subscription_budget_result:
  fixes reqs :: "wire_req list"
  assumes "cs' = apply_subscription_budget filter_hash budget incumbent_reqs session reqs cs"
    and tok: "session_tokens_ok (cs_mint_counter cs) session reqs"
    and src: "\<forall>r \<in> set reqs. wr_routing r \<in> sources"
  shows "cs_rules cs' = cs_rules cs" "cs_mint_counter cs' = cs_mint_counter cs"
    "cs_limited_demands cs |\<subseteq>| cs_limited_demands cs'"
    "(\<exists>rs. cs_reqs cs' = fmupd session rs (cs_reqs cs) \<and>
        cs_refused_sessions cs' = cs_refused_sessions cs \<and>
        session_reqs_ok budget (cs_mint_counter cs') session sources rs \<and>
        (\<forall>r \<in> set reqs. r \<in> set rs \<or> wr_owner_demands r |\<subseteq>| cs_limited_demands cs')) \<or>
     cs_reqs cs' = cs_reqs cs \<and> cs_refused_sessions cs' = finsert session (cs_refused_sessions cs) \<and>
     (\<forall>r \<in> set reqs. wr_owner_demands r |\<subseteq>| cs_limited_demands cs')"
proof -
  consider (fits) "cs' = install_session session reqs cs"
      "\<forall>limit. max_subscriptions budget (rsk_relay session) = Some limit \<longrightarrow> length reqs \<le> limit"
    | (over) allowed kept refused where "max_subscriptions budget (rsk_relay session) = Some allowed"
      "refuse_over_budget filter_hash reqs allowed (fmlookup incumbent_reqs session) = (kept, refused)"
      "cs_rules cs' = cs_rules cs" "cs_mint_counter cs' = cs_mint_counter cs"
      "cs_limited_demands cs' = cs_limited_demands cs |\<union>| ffUnion (fset_of_list (map wr_owner_demands refused))"
      "kept = [] \<and> cs_reqs cs' = cs_reqs cs \<and> cs_refused_sessions cs' = finsert session (cs_refused_sessions cs) \<or>
       cs_reqs cs' = fmupd session kept (cs_reqs cs) \<and> cs_refused_sessions cs' = cs_refused_sessions cs"
    using assms(1)
    by (auto simp: apply_subscription_budget_def install_session_def Let_def
        split: option.splits if_splits prod.splits)
  then have "cs_rules cs' = cs_rules cs \<and> cs_mint_counter cs' = cs_mint_counter cs \<and>
    cs_limited_demands cs |\<subseteq>| cs_limited_demands cs' \<and>
    ((\<exists>rs. cs_reqs cs' = fmupd session rs (cs_reqs cs) \<and>
        cs_refused_sessions cs' = cs_refused_sessions cs \<and>
        session_reqs_ok budget (cs_mint_counter cs') session sources rs \<and>
        (\<forall>r \<in> set reqs. r \<in> set rs \<or> wr_owner_demands r |\<subseteq>| cs_limited_demands cs')) \<or>
     cs_reqs cs' = cs_reqs cs \<and> cs_refused_sessions cs' = finsert session (cs_refused_sessions cs) \<and>
     (\<forall>r \<in> set reqs. wr_owner_demands r |\<subseteq>| cs_limited_demands cs'))"
  proof cases
    case fits
    then show ?thesis using tok src by (auto simp: install_session_def session_reqs_ok_def)
  next
    case over
    note sp = refuse_over_budget_split[OF over(2)]
    have sets: "set kept \<union> set refused = set reqs" using arg_cong[OF sp(1), of set_mset] by simp
    have "mset (map wr_sub_id kept) + mset (map wr_sub_id refused) = mset (map wr_sub_id reqs)"
      using arg_cong[OF sp(1), of "image_mset wr_sub_id"] by simp
    then have "distinct (map wr_sub_id (kept @ refused))"
      using tok mset_eq_imp_distinct_iff[of "map wr_sub_id (kept @ refused)" "map wr_sub_id reqs"]
      by (simp add: session_tokens_ok_def)
    then have "session_tokens_ok (cs_mint_counter cs) session kept"
      using tok sets by (auto simp: session_tokens_ok_def)
    then have "session_reqs_ok budget (cs_mint_counter cs') session sources kept"
      using over(1,4) sp(2) src sets by (auto simp: session_reqs_ok_def)
    moreover have "wr_owner_demands r |\<subseteq>| cs_limited_demands cs'" if "r \<in> set refused" for r
      unfolding over(5) by (rule fsubsetI, simp) (use that in blast)
    then have "\<forall>r \<in> set reqs. r \<in> set kept \<or> wr_owner_demands r |\<subseteq>| cs_limited_demands cs'"
      using sets by blast
    moreover have "cs_limited_demands cs |\<subseteq>| cs_limited_demands cs'" using over(5) by blast
    ultimately show ?thesis using over(3,4,6) by auto
  qed
  then show "cs_rules cs' = cs_rules cs" "cs_mint_counter cs' = cs_mint_counter cs"
    "cs_limited_demands cs |\<subseteq>| cs_limited_demands cs'"
    "(\<exists>rs. cs_reqs cs' = fmupd session rs (cs_reqs cs) \<and>
        cs_refused_sessions cs' = cs_refused_sessions cs \<and>
        session_reqs_ok budget (cs_mint_counter cs') session sources rs \<and>
        (\<forall>r \<in> set reqs. r \<in> set rs \<or> wr_owner_demands r |\<subseteq>| cs_limited_demands cs')) \<or>
     cs_reqs cs' = cs_reqs cs \<and> cs_refused_sessions cs' = finsert session (cs_refused_sessions cs) \<and>
     (\<forall>r \<in> set reqs. wr_owner_demands r |\<subseteq>| cs_limited_demands cs')" by blast+
qed

section \<open>All sessions\<close>

definition bag_entries :: "(relay_session_key \<times> (read_routing, entry list) fmap) list \<Rightarrow> nat" where
  "bag_entries sbs = sum_list (map (\<lambda>(_, by_source). entry_count (sorted_list_of_fmap by_source)) sbs)"

definition sessions_inv ::
  "compile_budget \<Rightarrow> relay_session_key fset \<Rightarrow>
   (relay_session_key \<times> (read_routing, entry list) fmap) list \<Rightarrow> compile_state \<Rightarrow> bool" where
  "sessions_inv budget refused0 done cs \<longleftrightarrow>
     fset (fmdom (cs_reqs cs)) \<subseteq> fst ` set done \<and>
     (\<forall>session rs. fmlookup (cs_reqs cs) session = Some rs \<longrightarrow>
        (\<exists>by_source. (session, by_source) \<in> set done \<and>
           session_reqs_ok budget (cs_mint_counter cs) session (fset (fmdom by_source)) rs)) \<and>
     (\<forall>session. session |\<in>| cs_refused_sessions cs \<longrightarrow>
        session |\<in>| refused0 \<or> session \<in> fst ` set done \<and> fmlookup (cs_reqs cs) session = None) \<and>
     (\<forall>m. match_event_contract m \<longrightarrow> widening_rules (rr_rules (cs_rules cs)) \<longrightarrow>
        (\<forall>(session, by_source) \<in> set done. \<forall>source es e.
           fmlookup by_source source = Some es \<longrightarrow> e \<in> set es \<longrightarrow>
           served_or_limited m (cs_reqs cs) (cs_limited_demands cs) session source e))"

lemma compile_session_result:
  assumes cs': "cs' = compile_session filter_hash budget incumbent_reqs (session, by_source) cs"
    and inc: "plan_tokens_ok c0 incumbent_reqs" "c0 \<le> cs_mint_counter cs"
    and room: "entry_count (sorted_list_of_fmap by_source) \<le> mints_left (cs_mint_counter cs)"
  shows "cs_mint_counter cs \<le> cs_mint_counter cs'"
    "mints_left (cs_mint_counter cs) \<le> mints_left (cs_mint_counter cs') + entry_count (sorted_list_of_fmap by_source)"
    "rr_rules (cs_rules cs') = rr_rules (cs_rules cs)"
    "cs_limited_demands cs |\<subseteq>| cs_limited_demands cs'"
    "(\<exists>rs. cs_reqs cs' = fmupd session rs (cs_reqs cs) \<and>
        cs_refused_sessions cs' = cs_refused_sessions cs \<and>
        session_reqs_ok budget (cs_mint_counter cs') session (fset (fmdom by_source)) rs) \<or>
     cs_reqs cs' = cs_reqs cs \<and> cs_refused_sessions cs' = finsert session (cs_refused_sessions cs)"
    "match_event_contract m \<Longrightarrow> widening_rules (rr_rules (cs_rules cs)) \<Longrightarrow>
     fmlookup by_source source = Some es \<Longrightarrow> e \<in> set es \<Longrightarrow>
     served_or_limited m (cs_reqs cs') (cs_limited_demands cs') session source e"
proof -
  let ?ss = "sorted_list_of_fmap by_source"
  obtain reqs cs1 where f: "fold (compile_source incumbent_reqs session) ?ss ([], cs) = (reqs, cs1)" by fastforce
  have inc': "session_tokens_ok (cs_mint_counter cs) session (session_incumbents incumbent_reqs session)"
    by (rule session_tokens_ok_mono[OF plan_tokens_incumbents[OF inc(1)] inc(2)])
  have init: "sources_inv incumbent_reqs session (cs_mint_counter cs) {} [] (cs_mint_counter cs)"
    by (simp add: sources_inv_def)
  note src = compile_sources[OF f inc' init distinct_map_fst_sorted_list_of_fmap _ room, simplified]
  have dom: "fst ` set ?ss = fset (fmdom by_source)"
    by (auto simp: set_sorted_list_of_fmap image_iff fmlookup_dom_iff)
  have mono: "cs_mint_counter cs \<le> cs_mint_counter cs1"
    using src by (simp add: sources_inv_def)
  let ?reqs = "sort_key wr_sub_id reqs"
  have tok: "session_tokens_ok (cs_mint_counter cs1) session ?reqs"
  proof -
    have si: "sources_inv incumbent_reqs session (cs_mint_counter cs) (fst ` set ?ss) reqs (cs_mint_counter cs1)"
      using src by blast
    have "incumbent_ids (session_incumbents incumbent_reqs session) (fst ` set ?ss)
        \<subseteq> issued_below (rsk_relay session) (rsk_authenticate_as session) (cs_mint_counter cs)"
      using inc' by (auto simp: incumbent_ids_def session_tokens_ok_def)
    then have "wr_sub_id ` set reqs \<subseteq> issued_below (rsk_relay session) (rsk_authenticate_as session) (cs_mint_counter cs1)"
      using si mono issued_below_mono_iff unfolding sources_inv_def by blast
    moreover have "mset (map wr_sub_id ?reqs) = mset (map wr_sub_id reqs)" by simp
    then have "distinct (map wr_sub_id ?reqs)"
      using si mset_eq_imp_distinct_iff unfolding sources_inv_def by metis
    ultimately show ?thesis by (simp add: session_tokens_ok_def)
  qed
  have routing: "\<forall>r \<in> set ?reqs. wr_routing r \<in> fset (fmdom by_source)"
    using src dom by simp
  have cs'_eq: "cs' = apply_subscription_budget filter_hash budget incumbent_reqs session ?reqs cs1"
    using cs' f by (simp add: compile_session_def)
  note ap = apply_subscription_budget_result[OF cs'_eq tok routing]
  have same: "same_outputs cs cs1" using src by blast
  show "cs_mint_counter cs \<le> cs_mint_counter cs'" using mono ap(2) by simp
  show "mints_left (cs_mint_counter cs) \<le> mints_left (cs_mint_counter cs') + entry_count ?ss"
    using src ap(2) by simp
  show "rr_rules (cs_rules cs') = rr_rules (cs_rules cs)" using src ap(1) by simp
  show "cs_limited_demands cs |\<subseteq>| cs_limited_demands cs'"
    using ap(3) same by (simp add: same_outputs_def)
  show "(\<exists>rs. cs_reqs cs' = fmupd session rs (cs_reqs cs) \<and>
        cs_refused_sessions cs' = cs_refused_sessions cs \<and>
        session_reqs_ok budget (cs_mint_counter cs') session (fset (fmdom by_source)) rs) \<or>
     cs_reqs cs' = cs_reqs cs \<and> cs_refused_sessions cs' = finsert session (cs_refused_sessions cs)"
    using ap(4) same by (auto simp: same_outputs_def)
  assume m: "match_event_contract m" "widening_rules (rr_rules (cs_rules cs))"
    and e: "fmlookup by_source source = Some es" "e \<in> set es"
  have "(source, es) \<in> set ?ss" using e(1) by (simp add: set_sorted_list_of_fmap)
  then obtain r where r: "r \<in> set reqs" "serves m source e r" using src m e(2) by blast
  have "wr_owner_demands r |\<subseteq>| cs_limited_demands cs' \<Longrightarrow>
      eo_owner_demands (snd (snd e)) |\<subseteq>| cs_limited_demands cs'"
    using r(2) by (auto simp: serves_def)
  moreover have "r \<in> set ?reqs" using r(1) by simp
  ultimately show "served_or_limited m (cs_reqs cs') (cs_limited_demands cs') session source e"
    using ap(4) r(2) unfolding served_or_limited_def by (metis fmupd_lookup)
qed

lemma sessions_inv_served:
  assumes "sessions_inv budget refused0 done cs" "match_event_contract m" "widening_rules (rr_rules (cs_rules cs))"
  shows "\<forall>(s, bs) \<in> set done. \<forall>source es e. fmlookup bs source = Some es \<longrightarrow> e \<in> set es \<longrightarrow>
    served_or_limited m (cs_reqs cs) (cs_limited_demands cs) s source e"
  using assms(1)[unfolded sessions_inv_def, THEN conjunct2, THEN conjunct2, THEN conjunct2] assms(2,3) by blast

lemma served_or_limited_mono:
  "served_or_limited m reqs limited session source e \<Longrightarrow> limited |\<subseteq>| limited' \<Longrightarrow>
   fmlookup reqs' session = fmlookup reqs session \<Longrightarrow>
   served_or_limited m reqs' limited' session source e"
  by (auto simp: served_or_limited_def)

lemma compile_sessions:
  assumes "cs' = fold (compile_session filter_hash budget incumbent_reqs) sbs cs"
    and inc: "plan_tokens_ok c0 incumbent_reqs"
    and "c0 \<le> cs_mint_counter cs" "bag_entries sbs \<le> mints_left (cs_mint_counter cs)"
    and "distinct (map fst (done @ sbs))" "sessions_inv budget refused0 done cs"
  shows "sessions_inv budget refused0 (done @ sbs) cs' \<and> cs_mint_counter cs \<le> cs_mint_counter cs' \<and>
    rr_rules (cs_rules cs') = rr_rules (cs_rules cs) \<and> cs_limited_demands cs |\<subseteq>| cs_limited_demands cs'"
  using assms(1,3-)
proof (induction sbs arbitrary: cs "done")
  case Nil
  then show ?case by simp
next
  case (Cons sb sbs)
  obtain session by_source where sb: "sb = (session, by_source)" by (cases sb)
  define cs1 where "cs1 = compile_session filter_hash budget incumbent_reqs (session, by_source) cs"
  have cnt: "bag_entries (sb # sbs) = entry_count (sorted_list_of_fmap by_source) + bag_entries sbs"
    by (simp add: bag_entries_def sb)
  have room: "entry_count (sorted_list_of_fmap by_source) \<le> mints_left (cs_mint_counter cs)"
    using Cons.prems(3) cnt by simp
  note r = compile_session_result[OF cs1_def inc Cons.prems(2) room]
  have new: "session \<notin> fst ` set done" using Cons.prems(4) sb by auto
  then have notin: "fmlookup (cs_reqs cs) session = None"
    using Cons.prems(5) unfolding sessions_inv_def by (metis fmdom_notD subsetD)
  have other: "fmlookup (cs_reqs cs1) s = fmlookup (cs_reqs cs) s" if "s \<noteq> session" for s
    using r(5) that by auto
  have "sessions_inv budget refused0 (done @ [sb]) cs1"
    unfolding sessions_inv_def
  proof (intro conjI allI impI)
    show "fset (fmdom (cs_reqs cs1)) \<subseteq> fst ` set (done @ [sb])"
      using Cons.prems(5) r(5) sb unfolding sessions_inv_def by auto
  next
    fix s rs assume lk: "fmlookup (cs_reqs cs1) s = Some rs"
    show "\<exists>by_source. (s, by_source) \<in> set (done @ [sb]) \<and>
        session_reqs_ok budget (cs_mint_counter cs1) s (fset (fmdom by_source)) rs"
    proof (cases "s = session")
      case True
      then show ?thesis using lk r(5) notin sb by auto
    next
      case False
      then have "fmlookup (cs_reqs cs) s = Some rs" using lk other by simp
      then obtain bs where "(s, bs) \<in> set done"
        "session_reqs_ok budget (cs_mint_counter cs) s (fset (fmdom bs)) rs"
        using Cons.prems(5) unfolding sessions_inv_def by blast
      then show ?thesis
        using session_tokens_ok_mono[OF _ r(1)] by (auto simp: session_reqs_ok_def)
    qed
  next
    fix s assume s: "s |\<in>| cs_refused_sessions cs1"
    show "s |\<in>| refused0 \<or> s \<in> fst ` set (done @ [sb]) \<and> fmlookup (cs_reqs cs1) s = None"
    proof (cases "s |\<in>| cs_refused_sessions cs")
      case True
      then have "s |\<in>| refused0 \<or> s \<in> fst ` set done \<and> fmlookup (cs_reqs cs) s = None"
        using Cons.prems(5) unfolding sessions_inv_def by blast
      then show ?thesis
      proof
        assume d: "s \<in> fst ` set done \<and> fmlookup (cs_reqs cs) s = None"
        then have "s \<noteq> session" using new by blast
        with d show ?thesis using other[of s] by simp
      qed simp
    next
      case False
      then have "s = session" "cs_reqs cs1 = cs_reqs cs" using s r(5) by auto
      then show ?thesis using notin sb by simp
    qed
  next
    fix m assume m: "match_event_contract m" "widening_rules (rr_rules (cs_rules cs1))"
    have served: "\<forall>(s, bs) \<in> set done. \<forall>source es e. fmlookup bs source = Some es \<longrightarrow> e \<in> set es \<longrightarrow>
        served_or_limited m (cs_reqs cs) (cs_limited_demands cs) s source e"
      by (rule sessions_inv_served[OF Cons.prems(5) m(1)]) (use m(2) r(3) in simp)
    have "served_or_limited m (cs_reqs cs1) (cs_limited_demands cs1) s source e"
      if "(s, bs) \<in> set done" "fmlookup bs source = Some es" "e \<in> set es" for s bs source es e
    proof -
      have "s \<noteq> session" using that(1) new by force
      moreover have "served_or_limited m (cs_reqs cs) (cs_limited_demands cs) s source e"
        using bspec[OF served that(1)] that(2,3) by (cases e) simp
      ultimately show ?thesis using served_or_limited_mono[OF _ r(4)] other by blast
    qed
    moreover have "served_or_limited m (cs_reqs cs1) (cs_limited_demands cs1) session source e"
      if "fmlookup by_source source = Some es" "e \<in> set es" for source es e
      using r(6)[OF m(1)] m(2) r(3) that by simp
    ultimately show "\<forall>(s, bs) \<in> set (done @ [sb]). \<forall>source es e.
        fmlookup bs source = Some es \<longrightarrow> e \<in> set es \<longrightarrow>
        served_or_limited m (cs_reqs cs1) (cs_limited_demands cs1) s source e"
      using sb by auto
  qed
  then have "sessions_inv budget refused0 ((done @ [sb]) @ sbs) cs' \<and> cs_mint_counter cs1 \<le> cs_mint_counter cs' \<and>
      rr_rules (cs_rules cs') = rr_rules (cs_rules cs1) \<and> cs_limited_demands cs1 |\<subseteq>| cs_limited_demands cs'"
    using Cons.prems(1,2,3,4) r(1,2) cnt sb
    by (intro Cons.IH) (auto simp: cs1_def)
  then show ?case using r(1,3,4) by auto
qed

end
