(* ===== verification/Compile_Plan.thy ===== *)
theory Compile_Plan
  imports Compile_Props
begin

text \<open>
  Correctness of the whole compile: the release assertion never fires and the tokens stay fresh,
  the two budgets hold, every request stems from a declared atom, and every explicit atom is served
  on each of its relays or reported as limited.
\<close>

section \<open>The bag of routed entries\<close>

text \<open>The bag read as a set of routed entries, and that no source of it is empty.\<close>

definition bag_mem :: "session_bag \<Rightarrow> (relay_session_key \<times> read_routing \<times> entry) set" where
  "bag_mem bag = {(session, source, e). \<exists>by_source es. fmlookup bag session = Some by_source \<and>
     fmlookup by_source source = Some es \<and> e \<in> set es}"

definition bag_wf :: "session_bag \<Rightarrow> bool" where
  "bag_wf bag \<longleftrightarrow> (\<forall>session by_source source es.
     fmlookup bag session = Some by_source \<longrightarrow> fmlookup by_source source = Some es \<longrightarrow> es \<noteq> [])"

lemma bag_mem_empty [simp]: "bag_mem fmempty = {}"
  by (simp add: bag_mem_def)

lemma bag_wf_empty [simp]: "bag_wf fmempty"
  by (simp add: bag_wf_def)

lemma bag_mem_push [simp]: "bag_mem (bag_push session source e bag) = insert (session, source, e) (bag_mem bag)"
proof (intro set_eqI)
  fix x :: "relay_session_key \<times> read_routing \<times> entry"
  obtain s t y where x: "x = (s, t, y)" by (cases x) auto
  show "x \<in> bag_mem (bag_push session source e bag) \<longleftrightarrow> x \<in> insert (session, source, e) (bag_mem bag)"
    unfolding x by (cases "fmlookup bag session"; cases "s = session"; cases "t = source")
      (auto simp: bag_mem_def bag_push_def fmlookup_fm_upsert split: option.splits)
qed

lemma bag_wf_push [simp]: "bag_wf bag \<Longrightarrow> bag_wf (bag_push session source e bag)"
  unfolding bag_wf_def bag_push_def
  by (auto simp: fmlookup_fm_upsert split: if_splits option.splits)

lemma bag_mem_fold_push:
  "bag_mem (fold (\<lambda>x. bag_push (s x) (t x) (e x)) xs bag) = bag_mem bag \<union> (\<lambda>x. (s x, t x, e x)) ` set xs"
  by (induction xs arbitrary: bag) auto

lemma bag_wf_fold_push:
  "bag_wf bag \<Longrightarrow> bag_wf (fold (\<lambda>x. bag_push (s x) (t x) (e x)) xs bag)"
  by (induction xs arbitrary: bag) auto

lemma bag_mem_push_routes:
  "bag_mem (push_routes f source auth routes ow bag) =
     bag_mem bag \<union> (\<lambda>(relay, prov). (RelaySessionKey relay auth, source, (f, [prov], ow))) ` set routes"
  "bag_wf bag \<Longrightarrow> bag_wf (push_routes f source auth routes ow bag)"
  unfolding push_routes_def
  using bag_mem_fold_push[of "\<lambda>(relay, prov). RelaySessionKey relay auth" "\<lambda>_. source" "\<lambda>(relay, prov). (f, [prov], ow)" routes bag]
    bag_wf_fold_push[of bag "\<lambda>(relay, prov). RelaySessionKey relay auth" "\<lambda>_. source" "\<lambda>(relay, prov). (f, [prov], ow)" routes]
  by (simp_all add: split_def)

lemma bag_mem_push_coverage:
  "bag_mem (push_coverage sk auth grp by_relay bag) =
     bag_mem bag \<union> (\<lambda>(relay, authors, prov). (RelaySessionKey relay auth, Auto, (with_authors sk authors, prov,
       auto_ownership sk auth grp authors authors False))) ` set (sorted_list_of_fmap by_relay)"
  "bag_wf bag \<Longrightarrow> bag_wf (push_coverage sk auth grp by_relay bag)"
  unfolding push_coverage_def
  using bag_mem_fold_push[of "\<lambda>(relay, authors, prov). RelaySessionKey relay auth" "\<lambda>_. Auto"
      "\<lambda>(relay, authors, prov). (with_authors sk authors, prov, auto_ownership sk auth grp authors authors False)"]
    bag_wf_fold_push[of bag "\<lambda>(relay, authors, prov). RelaySessionKey relay auth" "\<lambda>_. Auto"
      "\<lambda>(relay, authors, prov). (with_authors sk authors, prov, auto_ownership sk auth grp authors authors False)"]
  by (simp_all add: split_def)

lemma route_exact_push_routes:
  "route_exact (atom, relays) bag = push_routes (ca_filter atom) (Explicit (sorted_list_of_fset relays))
     (ca_authenticate_as atom) (provenance_for_exact relays) (exact_atom_ownership atom) bag"
  by (simp add: route_exact_def push_routes_def)

definition exact_entry :: "contextual_atom \<Rightarrow> relay_url \<Rightarrow> entry" where
  "exact_entry atom relay = (ca_filter atom, [RouteProvenance relay LnExact {||} RkExact], exact_atom_ownership atom)"

lemma bag_mem_route_exact:
  "bag_mem (route_exact (atom, relays) bag) = bag_mem bag \<union>
     (\<lambda>relay. (RelaySessionKey relay (ca_authenticate_as atom), Explicit (sorted_list_of_fset relays),
       exact_entry atom relay)) ` fset relays"
  by (simp add: route_exact_push_routes bag_mem_push_routes provenance_for_exact_def image_image exact_entry_def)

lemma bag_mem_fold_route_exact:
  "bag_mem (fold route_exact xs bag) = bag_mem bag \<union>
     (\<Union>(atom, relays) \<in> set xs. (\<lambda>relay. (RelaySessionKey relay (ca_authenticate_as atom),
        Explicit (sorted_list_of_fset relays), exact_entry atom relay)) ` fset relays)"
  by (induction xs arbitrary: bag) (auto simp: bag_mem_route_exact split: prod.splits)

lemma bag_wf_fold_route_exact: "bag_wf bag \<Longrightarrow> bag_wf (fold route_exact xs bag)"
  by (induction xs arbitrary: bag) (auto simp: route_exact_push_routes bag_mem_push_routes(2) split: prod.splits)

definition auto_only :: "public_key option set \<Rightarrow> session_bag \<Rightarrow> bool" where
  "auto_only auths bag \<longleftrightarrow> bag_wf bag \<and>
     (\<forall>(session, source, e) \<in> bag_mem bag. source = Auto \<and> rsk_authenticate_as session \<in> auths)"

lemma auto_only_push_routes:
  "auto_only auths bag \<Longrightarrow> auth \<in> auths \<Longrightarrow> auto_only auths (push_routes f Auto auth routes ow bag)"
  unfolding auto_only_def by (auto simp: bag_mem_push_routes)

lemma auto_only_push_coverage:
  "auto_only auths bag \<Longrightarrow> auth \<in> auths \<Longrightarrow> auto_only auths (push_coverage sk auth grp by_relay bag)"
  unfolding auto_only_def by (auto simp: bag_mem_push_coverage)

lemma auto_only_route_group:
  "auto_only auths (fst state) \<Longrightarrow> auth \<in> auths \<Longrightarrow> auto_only auths (fst (route_group facts sk auth grp state))"
  by (auto simp: route_group_def Let_def split_def auto_only_push_routes auto_only_push_coverage)

lemma auto_only_fold_route_group:
  "auto_only auths (fst state) \<Longrightarrow> (\<forall>((sk, auth), grp) \<in> set gs. auth \<in> auths) \<Longrightarrow>
   auto_only auths (fst (fold (\<lambda>((sk, auth), grp). route_group facts sk auth grp) gs state))"
  by (induction gs arbitrary: state) (auto simp: auto_only_route_group split: prod.splits)

text \<open>What grouping keeps of the demand set.\<close>

definition auto_auths :: "contextual_atom set \<Rightarrow> public_key option set" where
  "auto_auths demand = {ca_authenticate_as a | a. a \<in> demand \<and> ca_routing a = Auto}"

definition exact_pairs :: "contextual_atom set \<Rightarrow> (contextual_atom \<times> relay_url fset) set" where
  "exact_pairs demand = {(a, fset_of_list rs) | a rs. a \<in> demand \<and> ca_routing a = Explicit rs}"

definition grouped :: "contextual_atom set \<Rightarrow> demand_groups \<Rightarrow> bool" where
  "grouped demand dg \<longleftrightarrow>
     snd ` fset (fmdom (dg_auto_groups dg)) = auto_auths demand \<and> set (dg_exact_atoms dg) = exact_pairs demand"

lemma auto_auths_insert:
  "auto_auths (insert a demand) =
     (if ca_routing a = Auto then insert (ca_authenticate_as a) (auto_auths demand) else auto_auths demand)"
  by (auto simp: auto_auths_def)

lemma exact_pairs_insert:
  "exact_pairs (insert a demand) = (case ca_routing a of Auto \<Rightarrow> exact_pairs demand
     | Explicit rs \<Rightarrow> insert (a, fset_of_list rs) (exact_pairs demand))"
  by (cases "ca_routing a") (auto simp: exact_pairs_def)

lemma grouped_classify_atom:
  "grouped demand dg \<Longrightarrow> grouped (insert atom demand) (classify_atom atom dg)"
  by (cases "ca_routing atom")
    (simp_all add: grouped_def classify_atom_def split_def Let_def auto_auths_insert exact_pairs_insert)

lemma grouped_fold_classify_atom:
  "grouped demand dg \<Longrightarrow> grouped (demand \<union> set atoms) (fold classify_atom atoms dg)"
proof (induction atoms arbitrary: demand dg)
  case (Cons a atoms)
  then show ?case using Cons.IH[OF grouped_classify_atom[OF Cons.prems, of a]] by simp
qed simp

lemma grouped_group_demand: "grouped (fset demand) (group_demand demand)"
  using grouped_fold_classify_atom[of "{}" _ "sorted_list_of_fset demand"]
  by (simp add: group_demand_def grouped_def auto_auths_def exact_pairs_def)

lemma route_demand_bag:
  fixes demand facts
  defines "bag \<equiv> fst (route_demand facts (group_demand demand))"
  shows "bag_wf bag"
    and "(session, Auto, e) \<in> bag_mem bag \<Longrightarrow> rsk_authenticate_as session \<in> auto_auths (fset demand)"
    and "(session, Explicit rs, e) \<in> bag_mem bag \<longleftrightarrow>
      (\<exists>atom rs'. atom |\<in>| demand \<and> ca_routing atom = Explicit rs' \<and>
         rs = sorted_list_of_fset (fset_of_list rs') \<and> rsk_relay session \<in> set rs' \<and>
         rsk_authenticate_as session = ca_authenticate_as atom \<and> e = exact_entry atom (rsk_relay session))"
proof -
  let ?dg = "group_demand demand" and ?auths = "auto_auths (fset demand)"
  let ?auto = "fst (fold (\<lambda>((sk, auth), grp). route_group facts sk auth grp)
      (sorted_list_of_fmap (dg_auto_groups ?dg)) (fmempty, fmempty))"
  have bag: "bag = fold route_exact (dg_exact_atoms ?dg) ?auto"
    by (simp add: bag_def route_demand_def split_def Let_def)
  note g = grouped_group_demand[of demand, unfolded grouped_def]
  have "\<forall>((sk, auth), grp) \<in> set (sorted_list_of_fmap (dg_auto_groups ?dg)). auth \<in> ?auths"
    using g by (force simp: set_sorted_list_of_fmap fmlookup_dom_iff)
  then have ao: "auto_only ?auths ?auto"
    by (intro auto_only_fold_route_group) (simp_all add: auto_only_def)
  show "bag_wf bag" unfolding bag using ao by (intro bag_wf_fold_route_exact) (simp add: auto_only_def)
  have mem: "bag_mem bag = bag_mem ?auto \<union> (\<Union>(atom, relays) \<in> exact_pairs (fset demand).
      (\<lambda>relay. (RelaySessionKey relay (ca_authenticate_as atom),
        Explicit (sorted_list_of_fset relays), exact_entry atom relay)) ` fset relays)"
    unfolding bag bag_mem_fold_route_exact using g by simp
  show "rsk_authenticate_as session \<in> ?auths" if "(session, Auto, e) \<in> bag_mem bag"
  proof -
    have "(session, Auto, e) \<in> bag_mem ?auto" using that unfolding mem by auto
    then show ?thesis using ao by (auto simp: auto_only_def)
  qed
  have notin: "(session, Explicit rs, e) \<notin> bag_mem ?auto" using ao by (auto simp: auto_only_def)
  show "(session, Explicit rs, e) \<in> bag_mem bag \<longleftrightarrow>
      (\<exists>atom rs'. atom |\<in>| demand \<and> ca_routing atom = Explicit rs' \<and>
         rs = sorted_list_of_fset (fset_of_list rs') \<and> rsk_relay session \<in> set rs' \<and>
         rsk_authenticate_as session = ca_authenticate_as atom \<and> e = exact_entry atom (rsk_relay session))"
    unfolding mem using notin
    by (cases session, auto simp: exact_pairs_def fset_of_list.rep_eq image_iff, blast)
qed

section \<open>The relay ceiling\<close>

lemma limited_fold_record_refused:
  "rc_limited_demands (fold (record_refused_entry session) es out) =
     rc_limited_demands out |\<union>| ffUnion ((\<lambda>e. eo_owner_demands (snd (snd e))) |`| fset_of_list es)"
  "rc_refused_sessions (fold (record_refused_entry session) es out) = rc_refused_sessions out"
  by (induction es arbitrary: out) (simp_all add: record_refused_entry_def funion_assoc)

lemma limited_record_refused:
  "rc_limited_demands out |\<subseteq>| rc_limited_demands (fold (record_refused_entry session) es out)"
  "e \<in> set es \<Longrightarrow> eo_owner_demands (snd (snd e)) |\<subseteq>|
     rc_limited_demands (fold (record_refused_entry session) es out)"
  by (auto simp: limited_fold_record_refused) (metis prod.collapse)

lemma fcard_fset_of_list_le: "fcard (fset_of_list xs) \<le> length xs"
  by (simp add: fcard.rep_eq fset_of_list.rep_eq card_length)

lemma apply_global_relay_cap_result:
  assumes "apply_global_relay_cap bag cap = (bag', out)"
  shows "fcard (fmdom bag') \<le> cap"
    and "fmlookup bag' session = Some by_source \<Longrightarrow> fmlookup bag session = Some by_source"
    and "fmlookup bag session = Some by_source \<Longrightarrow>
      fmlookup bag' session = Some by_source \<and> session |\<notin>| rc_refused_sessions out \<or>
      fmlookup bag' session = None \<and> session |\<in>| rc_refused_sessions out \<and>
        (\<forall>e \<in> set (source_entries by_source). eo_owner_demands (snd (snd e)) |\<subseteq>| rc_limited_demands out)"
    and "session |\<in>| rc_refused_sessions out \<Longrightarrow> session |\<in>| fmdom bag \<and> fmlookup bag' session = None"
proof -
  define step where "step = (\<lambda>session out. case fmlookup bag session of None \<Rightarrow> out
      | Some by_source \<Rightarrow> fold (record_refused_entry session) (source_entries by_source) out)"
  have refused: "rc_refused_sessions (fold step ss out) = rc_refused_sessions out" for ss out
    by (induction ss arbitrary: out) (auto simp: step_def limited_fold_record_refused(2) split: option.splits)
  have mono1: "rc_limited_demands out |\<subseteq>| rc_limited_demands (step s out)" for s out
    by (auto simp: step_def limited_record_refused(1) split: option.splits)
  have mono: "rc_limited_demands out |\<subseteq>| rc_limited_demands (fold step ss out)" for ss out
    by (induction ss arbitrary: out) (simp, metis fold_simps(2) mono1 order.trans)
  have lim: "eo_owner_demands (snd (snd e)) |\<subseteq>| rc_limited_demands (fold step ss out)"
    if "s \<in> set ss" "fmlookup bag s = Some bs" "e \<in> set (source_entries bs)" for s bs e ss out
    using that(1)
  proof (induction ss arbitrary: out)
    case (Cons x ss)
    have "eo_owner_demands (snd (snd e)) |\<subseteq>| rc_limited_demands (step s out)"
      using that(2,3) by (simp add: step_def limited_record_refused(2))
    then have "eo_owner_demands (snd (snd e)) |\<subseteq>| rc_limited_demands (fold step ss (step s out))"
      using mono order.trans by blast
    then show ?case using Cons by auto
  qed simp
  let ?selected = "fset_of_list (take cap (ranked_sessions bag))"
  consider (fits) "fcard (fmdom bag) \<le> cap" "bag' = bag" "rc_refused_sessions out = {||}"
    | (cut) out0 where "bag' = fmfilter (\<lambda>session. session |\<in>| ?selected) bag"
      "rc_refused_sessions out0 = ffilter (\<lambda>session. session |\<notin>| ?selected) (fmdom bag)"
      "out = fold step (sorted_list_of_fset (ffilter (\<lambda>session. session |\<notin>| ?selected) (fmdom bag))) out0"
  proof (cases "fcard (fmdom bag) \<le> cap")
    case True
    then have "bag' = bag" "rc_refused_sessions out = {||}"
      using assms by (auto simp: apply_global_relay_cap_def)
    with True show thesis by (rule that(1))
  next
    case False
    let ?refused = "ffilter (\<lambda>session. session |\<notin>| ?selected) (fmdom bag)"
    show thesis
      using assms False
      by (intro that(2)[of "\<lparr>rc_limited_demands = {||}, rc_refused_sessions = ?refused,
          rc_refused_demands = fmempty, rc_refused_coverage_assignments = {||}\<rparr>"])
        (simp_all add: apply_global_relay_cap_def Let_def step_def)
  qed
  note cases = this
  show "fcard (fmdom bag') \<le> cap"
    using cases
  proof cases
    case cut
    have "fcard (fmdom bag') \<le> fcard ?selected"
      unfolding cut(1) by (intro fcard_mono) auto
    also have "\<dots> \<le> cap" using fcard_fset_of_list_le[of "take cap (ranked_sessions bag)"] by simp
    finally show ?thesis .
  qed simp
  show "fmlookup bag' session = Some by_source \<Longrightarrow> fmlookup bag session = Some by_source"
    using cases by cases (auto split: if_splits)
  show "session |\<in>| rc_refused_sessions out \<Longrightarrow> session |\<in>| fmdom bag \<and> fmlookup bag' session = None"
    using cases by cases (auto simp: refused)
  assume lk: "fmlookup bag session = Some by_source"
  show "fmlookup bag' session = Some by_source \<and> session |\<notin>| rc_refused_sessions out \<or>
      fmlookup bag' session = None \<and> session |\<in>| rc_refused_sessions out \<and>
        (\<forall>e \<in> set (source_entries by_source). eo_owner_demands (snd (snd e)) |\<subseteq>| rc_limited_demands out)"
    using cases
  proof cases
    case cut
    have "session |\<in>| fmdom bag" using lk by (rule fmdomI)
    then show ?thesis
      using lk lim[of session _ by_source] by (cases "session |\<in>| ?selected") (auto simp: cut refused)
  qed (simp add: lk)
qed

section \<open>The compile\<close>

definition capped_bag :: "contextual_atom fset \<Rightarrow> routing_facts \<Rightarrow> compile_budget \<Rightarrow> session_bag \<times> relay_cap_outcome" where
  "capped_bag demand facts budget =
     apply_global_relay_cap (fst (route_demand facts (group_demand demand))) (cb_relay_cap budget)"

text \<open>The precondition of a compile: the incumbent plan only holds tokens the router has minted,
  once each, and the \<open>u64\<close> counter has room for one token per routed entry.\<close>

definition compile_pre ::
  "u64 \<Rightarrow> (relay_session_key, wire_req list) fmap \<Rightarrow> contextual_atom fset \<Rightarrow> routing_facts \<Rightarrow>
   compile_budget \<Rightarrow> bool" where
  "compile_pre next_token incumbent_reqs demand facts budget \<longleftrightarrow>
     plan_tokens_ok next_token incumbent_reqs \<and>
     bag_entries (sorted_list_of_fmap (fst (capped_bag demand facts budget))) \<le> mints_left next_token"

lemma tokens_distinct:
  assumes "\<forall>(session, rs) \<in> set xs. session_tokens_ok c session rs" "distinct (map fst xs)"
  shows "distinct (map wr_sub_id (concat (map snd xs)))"
  using assms
proof (induction xs)
  case (Cons x xs)
  obtain session rs where x: "x = (session, rs)" by (cases x)
  have "wr_sub_id r \<noteq> wr_sub_id r'" if "r \<in> set rs" "(s', rs') \<in> set xs" "r' \<in> set rs'" for r s' rs' r'
  proof -
    have "s' \<noteq> session" using Cons.prems(2) that(2) x by (auto simp: image_iff)
    moreover have "wr_sub_id r \<in> issued_below (rsk_relay session) (rsk_authenticate_as session) c"
      "wr_sub_id r' \<in> issued_below (rsk_relay s') (rsk_authenticate_as s') c"
      using Cons.prems(1) that x by (fastforce simp: session_tokens_ok_def)+
    ultimately show ?thesis by (cases session; cases s') (auto simp: issued_below_def)
  qed
  then have "wr_sub_id ` set rs \<inter> wr_sub_id ` set (concat (map snd xs)) = {}" by fastforce
  then show ?case using Cons x by (auto simp: session_tokens_ok_def)
qed simp

lemma plan_tokens_distinct: "plan_tokens_ok c reqs \<Longrightarrow> distinct (plan_sub_ids reqs)"
  unfolding plan_sub_ids_def fm_values_def
  by (rule tokens_distinct[where c = c])
    (auto simp: plan_tokens_ok_def set_sorted_list_of_fmap distinct_map_fst_sorted_list_of_fmap simp del: map_fst_sorted_list_of_fmap)

text \<open>Everything the compile decides, session by session, before the assertion.\<close>

lemma compile_demand_cases:
  obtains cs cd where
    "compile_demand filter_hash rules next_token incumbent_reqs demand facts budget =
       (if distinct (plan_sub_ids (cs_reqs cs)) then Some (cd, cs_mint_counter cs, cs_rules cs) else None)"
    "pl_reqs (cd_plan cd) = cs_reqs cs" "pl_limited_demands (cd_plan cd) = cs_limited_demands cs"
    "pl_refused_sessions (cd_plan cd) = cs_refused_sessions cs"
    "cs = fold (compile_session filter_hash budget incumbent_reqs)
       (sorted_list_of_fmap (fst (capped_bag demand facts budget)))
       \<lparr>cs_rules = rules, cs_mint_counter = next_token, cs_reqs = fmempty,
        cs_replacements = {||}, cs_subscription_shortfalls = fmempty, cs_budget_refused = [],
        cs_limited_demands = rc_limited_demands (snd (capped_bag demand facts budget)),
        cs_refused_sessions = rc_refused_sessions (snd (capped_bag demand facts budget))\<rparr>"
  by (rule that, unfold compile_demand_def capped_bag_def Let_def split_def) auto

lemma compile_demand_result:
  assumes pre: "compile_pre next_token incumbent_reqs demand facts budget"
  obtains cd next_token' rules' cs where
    "compile_demand filter_hash rules next_token incumbent_reqs demand facts budget = Some (cd, next_token', rules')"
    "next_token \<le> next_token'" "rr_rules rules' = rr_rules rules"
    "plan_tokens_ok next_token' (pl_reqs (cd_plan cd))"
    "sessions_inv budget (rc_refused_sessions (snd (capped_bag demand facts budget)))
       (sorted_list_of_fmap (fst (capped_bag demand facts budget))) cs"
    "cs_reqs cs = pl_reqs (cd_plan cd)" "cs_limited_demands cs = pl_limited_demands (cd_plan cd)"
    "cs_refused_sessions cs = pl_refused_sessions (cd_plan cd)" "rr_rules (cs_rules cs) = rr_rules rules"
    "rc_limited_demands (snd (capped_bag demand facts budget)) |\<subseteq>| pl_limited_demands (cd_plan cd)"
proof -
  let ?bag = "sorted_list_of_fmap (fst (capped_bag demand facts budget))"
  let ?cs0 = "\<lparr>cs_rules = rules, cs_mint_counter = next_token, cs_reqs = fmempty,
        cs_replacements = {||}, cs_subscription_shortfalls = fmempty, cs_budget_refused = [],
        cs_limited_demands = rc_limited_demands (snd (capped_bag demand facts budget)),
        cs_refused_sessions = rc_refused_sessions (snd (capped_bag demand facts budget))\<rparr>"
  let ?refused0 = "rc_refused_sessions (snd (capped_bag demand facts budget))"
  obtain cs cd where cd:
    "compile_demand filter_hash rules next_token incumbent_reqs demand facts budget =
       (if distinct (plan_sub_ids (cs_reqs cs)) then Some (cd, cs_mint_counter cs, cs_rules cs) else None)"
    "pl_reqs (cd_plan cd) = cs_reqs cs" "pl_limited_demands (cd_plan cd) = cs_limited_demands cs"
    "pl_refused_sessions (cd_plan cd) = cs_refused_sessions cs"
    "cs = fold (compile_session filter_hash budget incumbent_reqs) ?bag ?cs0"
    by (rule compile_demand_cases)
  have "sessions_inv budget ?refused0 [] ?cs0" by (simp add: sessions_inv_def)
  then have inv: "sessions_inv budget ?refused0 ([] @ ?bag) cs \<and> cs_mint_counter ?cs0 \<le> cs_mint_counter cs \<and>
      rr_rules (cs_rules cs) = rr_rules (cs_rules ?cs0) \<and> cs_limited_demands ?cs0 |\<subseteq>| cs_limited_demands cs"
    using pre distinct_map_fst_sorted_list_of_fmap
    by (intro compile_sessions[OF cd(5), of next_token]) (simp_all add: compile_pre_def)
  have tok: "plan_tokens_ok (cs_mint_counter cs) (cs_reqs cs)"
    using inv unfolding sessions_inv_def plan_tokens_ok_def session_reqs_ok_def by blast
  then have some: "compile_demand filter_hash rules next_token incumbent_reqs demand facts budget =
      Some (cd, cs_mint_counter cs, cs_rules cs)"
    using cd(1) plan_tokens_distinct by simp
  show thesis
    using inv tok cd(2-4) by (intro that[OF some, of cs]) simp_all
qed

lemma sessions_invD:
  assumes "sessions_inv budget refused0 done cs"
  shows "fset (fmdom (cs_reqs cs)) \<subseteq> fst ` set done"
    and "fmlookup (cs_reqs cs) session = Some rs \<Longrightarrow> \<exists>by_source. (session, by_source) \<in> set done \<and>
      session_reqs_ok budget (cs_mint_counter cs) session (fset (fmdom by_source)) rs"
    and "session |\<in>| cs_refused_sessions cs \<Longrightarrow> session |\<in>| refused0 \<or> fmlookup (cs_reqs cs) session = None"
proof -
  note inv = assms[unfolded sessions_inv_def]
  show "fset (fmdom (cs_reqs cs)) \<subseteq> fst ` set done" using inv by (rule conjunct1)
  show "\<exists>by_source. (session, by_source) \<in> set done \<and>
      session_reqs_ok budget (cs_mint_counter cs) session (fset (fmdom by_source)) rs"
    if "fmlookup (cs_reqs cs) session = Some rs"
    using inv[THEN conjunct2, THEN conjunct1] that by simp
  show "session |\<in>| refused0 \<or> fmlookup (cs_reqs cs) session = None" if "session |\<in>| cs_refused_sessions cs"
    using inv[THEN conjunct2, THEN conjunct2, THEN conjunct1, rule_format, OF that]
    by (elim disjE conjE) (rule disjI1, assumption, rule disjI2, assumption)
qed

lemma capped_bag_eq:
  "apply_global_relay_cap (fst (route_demand facts (group_demand demand))) (cb_relay_cap budget) =
     (fst (capped_bag demand facts budget), snd (capped_bag demand facts budget))"
  by (simp add: capped_bag_def)

lemmas capped_bag_result = apply_global_relay_cap_result[OF capped_bag_eq]

lemma request_in_bag:
  assumes "sessions_inv budget refused0 (sorted_list_of_fmap (fst (capped_bag demand facts budget))) cs"
    and "fmlookup (cs_reqs cs) session = Some rs" "r \<in> set rs"
  shows "\<exists>e. (session, wr_routing r, e) \<in> bag_mem (fst (route_demand facts (group_demand demand)))"
proof -
  let ?bag = "fst (route_demand facts (group_demand demand))"
  obtain by_source where b: "fmlookup (fst (capped_bag demand facts budget)) session = Some by_source"
    "session_reqs_ok budget (cs_mint_counter cs) session (fset (fmdom by_source)) rs"
    using sessions_invD(2)[OF assms(1,2)] by (auto simp: set_sorted_list_of_fmap)
  then obtain es where es: "fmlookup by_source (wr_routing r) = Some es"
    using assms(3) by (auto simp: session_reqs_ok_def fmlookup_dom_iff)
  have lk: "fmlookup ?bag session = Some by_source"
    by (rule capped_bag_result(2)[OF b(1)])
  then have "es \<noteq> []" using route_demand_bag(1)[of facts demand] es unfolding bag_wf_def by blast
  then obtain e where "e \<in> set es" by (cases es) auto
  then show ?thesis using lk es unfolding bag_mem_def by blast
qed

lemma routed_entry_served:
  assumes "sessions_inv budget refused0 (sorted_list_of_fmap (fst (capped_bag demand facts budget))) cs"
    and m: "match_event_contract m" "widening_rules (rr_rules (cs_rules cs))"
    and e: "(session, source, e) \<in> bag_mem (fst (route_demand facts (group_demand demand)))"
    and lim: "rc_limited_demands (snd (capped_bag demand facts budget)) |\<subseteq>| cs_limited_demands cs"
  shows "served_or_limited m (cs_reqs cs) (cs_limited_demands cs) session source e"
proof -
  obtain by_source es where b: "fmlookup (fst (route_demand facts (group_demand demand))) session = Some by_source"
    "fmlookup by_source source = Some es" "e \<in> set es"
    using e by (auto simp: bag_mem_def)
  consider "fmlookup (fst (capped_bag demand facts budget)) session = Some by_source"
    | "\<forall>e \<in> set (source_entries by_source).
        eo_owner_demands (snd (snd e)) |\<subseteq>| rc_limited_demands (snd (capped_bag demand facts budget))"
    using capped_bag_result(3)[OF b(1)] by blast
  then show ?thesis
  proof cases
    case 1
    then have "(session, by_source) \<in> set (sorted_list_of_fmap (fst (capped_bag demand facts budget)))"
      by (simp add: set_sorted_list_of_fmap)
    then show ?thesis using sessions_inv_served[OF assms(1) m] b(2,3) by (cases e) auto
  next
    case 2
    moreover have "e \<in> set (source_entries by_source)"
      using b(2,3) by (auto simp: source_entries_def set_fm_values)
    ultimately have "eo_owner_demands (snd (snd e)) |\<subseteq>| cs_limited_demands cs" using lim by (meson order.trans)
    then show ?thesis by (simp add: served_or_limited_def)
  qed
qed


section \<open>The properties\<close>

text \<open>A small demand for the examples below: one explicit atom on one relay.\<close>

definition one_relay_atom :: contextual_atom where
  "one_relay_atom = ContextualAtom empty_filter (Explicit [''wss://a'']) None {||}"

definition no_facts :: routing_facts where
  "no_facts = \<lparr>rf_author_routes = (\<lambda>_. Unknown), rf_operator_app_relays = [], rf_operator_fallback_relays = []\<rparr>"

lemma one_relay_pre: "compile_pre 0 fmempty {|one_relay_atom|} no_facts (with_relay_cap 10)"
proof -
  have "bag_entries (sorted_list_of_fmap (fst (capped_bag {|one_relay_atom|} no_facts (with_relay_cap 10)))) = 1"
    by code_simp
  then show ?thesis by (simp add: compile_pre_def plan_tokens_ok_def mints_left_def)
qed

text \<open>C16: Compiling never panics and never reuses a token. When the incumbent plan holds only
  tokens minted so far and the counter has room, \<open>compile_demand\<close> returns (the release-build
  assertion cannot fire), its counter never moves back, and the plan it returns again holds only
  tokens minted so far, each used once, so it is a valid incumbent for the next compile.\<close>

theorem compile_demand_tokens:
  assumes "compile_pre next_token incumbent_reqs demand facts budget"
  shows "\<exists>cd next_token' rules'.
    compile_demand filter_hash rules next_token incumbent_reqs demand facts budget = Some (cd, next_token', rules') \<and>
    next_token \<le> next_token' \<and> plan_tokens_ok next_token' (pl_reqs (cd_plan cd)) \<and>
    distinct (plan_sub_ids (pl_reqs (cd_plan cd)))"
  by (rule compile_demand_result[OF assms, of filter_hash rules]) (use plan_tokens_distinct in blast)

theorem compile_demand_tokens_witness:
  "\<exists>cd next_token' rules'.
    compile_demand (\<lambda>_. []) default_widen_only 0 fmempty {|one_relay_atom|} no_facts (with_relay_cap 10) =
      Some (cd, next_token', rules') \<and> plan_tokens_ok next_token' (pl_reqs (cd_plan cd))"
  using compile_demand_tokens[OF one_relay_pre, of "\<lambda>_. []" default_widen_only] by blast

text \<open>C19: Both budgets hold of the assembled plan: at most \<open>relay_cap\<close> sessions are planned,
  no session carries more subscriptions than its relay advertised, and a refused session has no
  request.\<close>

theorem compile_demand_budgets:
  assumes "compile_pre next_token incumbent_reqs demand facts budget"
    and "compile_demand filter_hash rules next_token incumbent_reqs demand facts budget = Some (cd, next_token', rules')"
  shows "fcard (fmdom (pl_reqs (cd_plan cd))) \<le> cb_relay_cap budget \<and>
    (\<forall>session rs allowed. fmlookup (pl_reqs (cd_plan cd)) session = Some rs \<longrightarrow>
      max_subscriptions budget (rsk_relay session) = Some allowed \<longrightarrow> length rs \<le> allowed) \<and>
    (\<forall>session. session |\<in>| pl_refused_sessions (cd_plan cd) \<longrightarrow>
      fmlookup (pl_reqs (cd_plan cd)) session = None)"
proof -
  let ?bag = "fst (capped_bag demand facts budget)"
  obtain cs where cs: "sessions_inv budget (rc_refused_sessions (snd (capped_bag demand facts budget)))
       (sorted_list_of_fmap ?bag) cs"
    "cs_reqs cs = pl_reqs (cd_plan cd)" "cs_refused_sessions cs = pl_refused_sessions (cd_plan cd)"
    using compile_demand_result[OF assms(1), of filter_hash rules] assms(2) by (metis option.inject prod.inject)
  have dom: "fmdom (pl_reqs (cd_plan cd)) |\<subseteq>| fmdom ?bag"
    using sessions_invD(1)[OF cs(1)] cs(2)
    by (fastforce simp: set_sorted_list_of_fmap intro: fmdomI)
  have "fcard (fmdom (pl_reqs (cd_plan cd))) \<le> cb_relay_cap budget"
    using fcard_mono[OF dom] capped_bag_result(1)[of demand facts budget] by simp
  moreover have "length rs \<le> allowed"
    if "fmlookup (pl_reqs (cd_plan cd)) session = Some rs" "max_subscriptions budget (rsk_relay session) = Some allowed"
    for session rs allowed
    using sessions_invD(2)[OF cs(1)] that cs(2) unfolding session_reqs_ok_def by auto
  moreover have "fmlookup (pl_reqs (cd_plan cd)) session = None" if "session |\<in>| pl_refused_sessions (cd_plan cd)"
    for session
  proof (rule ccontr)
    assume "fmlookup (pl_reqs (cd_plan cd)) session \<noteq> None"
    then have planned: "session |\<in>| fmdom (pl_reqs (cd_plan cd))" by (simp add: fmlookup_dom_iff)
    then have "session |\<in>| rc_refused_sessions (snd (capped_bag demand facts budget))"
      using sessions_invD(3)[OF cs(1), of session] that cs(2,3) by (auto simp: fmlookup_dom_iff)
    then have "fmlookup ?bag session = None" using capped_bag_result(4) by blast
    moreover have "session |\<in>| fmdom ?bag" using planned dom by blast
    ultimately show False by (simp add: fmlookup_dom_iff)
  qed
  ultimately show ?thesis by blast
qed

theorem compile_demand_budgets_witness:
  "\<exists>cd next_token' rules'.
    compile_demand (\<lambda>_. []) default_widen_only 0 fmempty {|one_relay_atom|} no_facts (with_relay_cap 10) =
      Some (cd, next_token', rules') \<and> fcard (fmdom (pl_reqs (cd_plan cd))) \<le> 10"
  by (rule compile_demand_result[OF one_relay_pre, of "\<lambda>_. []" default_widen_only])
    (use compile_demand_budgets[OF one_relay_pre] in \<open>auto simp: with_relay_cap_def\<close>)

text \<open>C18: Every request stems from a declared atom of the same identity. An explicit request only
  ever goes to a relay its atom names, and an automatic request needs an automatic atom, so a demand
  of explicit atoms contacts no other relay.\<close>

theorem compile_demand_origin:
  assumes "compile_pre next_token incumbent_reqs demand facts budget"
    and "compile_demand filter_hash rules next_token incumbent_reqs demand facts budget = Some (cd, next_token', rules')"
    and "fmlookup (pl_reqs (cd_plan cd)) session = Some rs" "r \<in> set rs"
  shows "\<exists>atom. atom |\<in>| demand \<and> ca_authenticate_as atom = rsk_authenticate_as session \<and>
    (case wr_routing r of
       Auto \<Rightarrow> ca_routing atom = Auto
     | Explicit relays \<Rightarrow> \<exists>declared. ca_routing atom = Explicit declared \<and> set declared = set relays \<and>
         rsk_relay session \<in> set declared)"
proof -
  obtain cs where cs: "sessions_inv budget (rc_refused_sessions (snd (capped_bag demand facts budget)))
       (sorted_list_of_fmap (fst (capped_bag demand facts budget))) cs" "cs_reqs cs = pl_reqs (cd_plan cd)"
    using compile_demand_result[OF assms(1), of filter_hash rules] assms(2) by (metis option.inject prod.inject)
  obtain e where e: "(session, wr_routing r, e) \<in> bag_mem (fst (route_demand facts (group_demand demand)))"
    using request_in_bag[OF cs(1) _ assms(4)] assms(3) cs(2) by metis
  show ?thesis
  proof (cases "wr_routing r")
    case Auto
    then show ?thesis using route_demand_bag(2) e by (fastforce simp: auto_auths_def)
  next
    case (Explicit relays)
    then show ?thesis using e[unfolded Explicit route_demand_bag(3)]
      by (auto simp: fset_of_list.rep_eq)
  qed
qed

theorem compile_demand_origin_witness:
  "\<exists>cd next_token' rules'.
    compile_demand (\<lambda>_. []) default_widen_only 0 fmempty {|one_relay_atom|} no_facts (with_relay_cap 10) =
      Some (cd, next_token', rules') \<and>
    (\<forall>session rs r. fmlookup (pl_reqs (cd_plan cd)) session = Some rs \<longrightarrow> r \<in> set rs \<longrightarrow>
       (\<exists>atom. atom |\<in>| {|one_relay_atom|} \<and> ca_authenticate_as atom = rsk_authenticate_as session))"
  by (rule compile_demand_result[OF one_relay_pre, of "\<lambda>_. []" default_widen_only])
    (use compile_demand_origin[OF one_relay_pre] in fast)

text \<open>C17: Every explicit atom is acquired from each relay it declares, or reported. On the session of
  that relay there is a request that matches every event the atom matches, carries the atom's
  durable coverage claims and is owned by its demand; otherwise the demand is in
  \<open>limited_demands\<close>.\<close>

theorem compile_demand_serves_explicit:
  assumes "compile_pre next_token incumbent_reqs demand facts budget"
    and "compile_demand filter_hash rules next_token incumbent_reqs demand facts budget = Some (cd, next_token', rules')"
    and "match_event_contract m" "widening_rules (rr_rules rules)"
    and "atom |\<in>| demand" "ca_routing atom = Explicit declared" "relay \<in> set declared"
  shows "demand_key_for_atom atom |\<in>| pl_limited_demands (cd_plan cd) \<or>
    (\<exists>rs r. fmlookup (pl_reqs (cd_plan cd)) (RelaySessionKey relay (ca_authenticate_as atom)) = Some rs \<and>
       r \<in> set rs \<and> (\<forall>ev. m (ca_filter atom) ev \<longrightarrow> m (wr_filter r) ev) \<and>
       coverage_key |`| coverage_claim_atoms atom |\<subseteq>| wr_coverage_claims r \<and>
       demand_key_for_atom atom |\<in>| wr_owner_demands r)"
proof -
  let ?session = "RelaySessionKey relay (ca_authenticate_as atom)"
  obtain cs where cs: "sessions_inv budget (rc_refused_sessions (snd (capped_bag demand facts budget)))
       (sorted_list_of_fmap (fst (capped_bag demand facts budget))) cs" "cs_reqs cs = pl_reqs (cd_plan cd)"
    "cs_limited_demands cs = pl_limited_demands (cd_plan cd)" "rr_rules (cs_rules cs) = rr_rules rules"
    "rc_limited_demands (snd (capped_bag demand facts budget)) |\<subseteq>| pl_limited_demands (cd_plan cd)"
    using compile_demand_result[OF assms(1), of filter_hash rules] assms(2) by (metis option.inject prod.inject)
  have e: "(?session, Explicit (sorted_list_of_fset (fset_of_list declared)), exact_entry atom relay)
      \<in> bag_mem (fst (route_demand facts (group_demand demand)))"
    unfolding route_demand_bag(3) using assms(5-7) by auto
  have "widening_rules (rr_rules (cs_rules cs))" using assms(4) cs(4) by simp
  from routed_entry_served[OF cs(1) assms(3) this e] cs(5) show ?thesis
    unfolding served_or_limited_def serves_def cs(2,3)
    by (auto simp: exact_entry_def exact_atom_ownership_def)
qed

theorem compile_demand_serves_explicit_witness:
  "\<exists>cd next_token' rules'.
    compile_demand (\<lambda>_. []) default_widen_only 0 fmempty {|one_relay_atom|} no_facts (with_relay_cap 10) =
      Some (cd, next_token', rules') \<and>
    (demand_key_for_atom one_relay_atom |\<in>| pl_limited_demands (cd_plan cd) \<or>
     (\<exists>rs r. fmlookup (pl_reqs (cd_plan cd)) (RelaySessionKey ''wss://a'' None) = Some rs \<and> r \<in> set rs \<and>
        demand_key_for_atom one_relay_atom |\<in>| wr_owner_demands r))"
proof -
  have a: "one_relay_atom |\<in>| {|one_relay_atom|}" "ca_routing one_relay_atom = Explicit [''wss://a'']"
    "''wss://a'' \<in> set [''wss://a'']" "ca_authenticate_as one_relay_atom = None"
    by (simp_all add: one_relay_atom_def)
  obtain cd n r where "compile_demand (\<lambda>_. []) default_widen_only 0 fmempty {|one_relay_atom|} no_facts (with_relay_cap 10) =
      Some (cd, n, r)"
    by (rule compile_demand_result[OF one_relay_pre, of "\<lambda>_. []" default_widen_only])
  then show ?thesis
    using compile_demand_serves_explicit[OF one_relay_pre _ nip01_match_contract shipped.widening_rules_axioms a(1-3)] a(4)
    by fastforce
qed

end
