(* ===== verification/Backoff.thy ===== *)
theory Backoff
  imports Nmp_Prelude
begin

text \<open>
  \<open>crates/nmp-transport/src/backoff.rs\<close>: the reconnect schedule.

  A \<open>Duration\<close> is a number of nanoseconds below \<open>DURATION_LIMIT\<close>; \<open>Duration\<close> multiplication and
  addition panic past the limit, so the operations return an \<open>option\<close> whose \<open>None\<close> is that panic.
\<close>

type_synonym duration = nat

definition DURATION_LIMIT :: duration where
  "DURATION_LIMIT = 2 ^ 64 * 1000000000"

definition duration_checked :: "nat \<Rightarrow> duration option" where
  "duration_checked n = (if n < DURATION_LIMIT then Some n else None)"

definition from_secs :: "nat \<Rightarrow> duration" where
  "from_secs s = s * 1000000000"

definition as_millis :: "duration \<Rightarrow> nat" where
  "as_millis d = d div 1000000"

definition RECONNECT_DELAY_INITIAL :: duration where
  "RECONNECT_DELAY_INITIAL = from_secs 3"

definition RECONNECT_DELAY_MAX :: duration where
  "RECONNECT_DELAY_MAX = from_secs 300"

definition BACKOFF_RESET_AFTER :: duration where
  "BACKOFF_RESET_AFTER = from_secs 300"

definition RECONNECT_JITTER_MAX :: duration where
  "RECONNECT_JITTER_MAX = from_secs 5"

text \<open>\<open>advance\<close> returns the updated schedule, which is also the delay it returns.\<close>

definition advance :: "duration \<Rightarrow> duration option \<Rightarrow> duration option" where
  "advance current connected_for =
     (if (case connected_for of None \<Rightarrow> False | Some d \<Rightarrow> d \<ge> BACKOFF_RESET_AFTER)
      then Some RECONNECT_DELAY_INITIAL
      else map_option (\<lambda>doubled. min doubled RECONNECT_DELAY_MAX) (duration_checked (current * 2)))"

definition url_hash :: "u8 list \<Rightarrow> u64" where
  "url_hash bytes = foldl (\<lambda>acc b. acc * 31 + ucast b) 0 bytes"

definition jittered :: "duration \<Rightarrow> u8 list \<Rightarrow> duration \<Rightarrow> duration option" where
  "jittered base url jitter_max =
     (let bound_ms = (if as_millis jitter_max < 2 ^ 64 then as_millis jitter_max else 2 ^ 64 - 1)
      in if bound_ms = 0 then Some base
         else duration_checked (base + (unat (url_hash url) mod bound_ms) * 1000000))"

definition is_permanent_error :: "u16 option \<Rightarrow> bool" where
  "is_permanent_error status \<longleftrightarrow> status = Some 401 \<or> status = Some 403"

section \<open>The schedule\<close>

text \<open>The worker's use of the schedule: one \<open>advance\<close> per disconnect, in order.\<close>

fun advance_run :: "duration \<Rightarrow> duration option list \<Rightarrow> duration option" where
  "advance_run current [] = Some current"
| "advance_run current (c # cs) = Option.bind (advance current c) (\<lambda>next. advance_run next cs)"

lemmas backoff_constants = RECONNECT_DELAY_INITIAL_def RECONNECT_DELAY_MAX_def BACKOFF_RESET_AFTER_def
  from_secs_def DURATION_LIMIT_def

definition in_schedule :: "duration \<Rightarrow> bool" where
  "in_schedule d \<longleftrightarrow> RECONNECT_DELAY_INITIAL \<le> d \<and> d \<le> RECONNECT_DELAY_MAX"

lemma advance_in_schedule:
  assumes "in_schedule current"
  shows "\<exists>next. advance current c = Some next \<and> in_schedule next"
  using assms by (auto simp: advance_def in_schedule_def duration_checked_def backoff_constants split: option.split)

text \<open>The reconnect delay never leaves its bounds and the schedule never panics: from any delay
  between three and three hundred seconds, every sequence of disconnects yields a delay in the same
  range.\<close>

theorem advance_run_in_schedule:
  assumes "in_schedule current"
  shows "\<exists>next. advance_run current cs = Some next \<and> in_schedule next"
  using assms
proof (induction cs arbitrary: current)
  case (Cons c cs)
  then obtain d where "advance current c = Some d" "in_schedule d" using advance_in_schedule by blast
  then show ?case using Cons.IH by simp
qed simp

theorem advance_run_in_schedule_witness:
  "\<exists>next. advance_run RECONNECT_DELAY_INITIAL [None, Some 0] = Some next \<and> in_schedule next"
  using advance_run_in_schedule[of RECONNECT_DELAY_INITIAL "[None, Some 0]"]
  by (simp add: in_schedule_def backoff_constants)

lemma min_double_max: "min (min (a :: nat) m * 2) m = min (a * 2) m"
  by (auto simp: min_def)

text \<open>C36: The closed form. After a healthy session the next delay is the initial one, and after a
  further \<open>n\<close> connect failures it is three seconds doubled \<open>n\<close> times, capped at three hundred; the
  cap is reached after seven.\<close>

theorem advance_run_closed_form:
  assumes "in_schedule current" "BACKOFF_RESET_AFTER \<le> d"
  shows "advance_run current (Some d # replicate n None) =
      Some (min (RECONNECT_DELAY_INITIAL * 2 ^ n) RECONNECT_DELAY_MAX) \<and>
    (7 \<le> n \<longrightarrow> advance_run current (Some d # replicate n None) = Some RECONNECT_DELAY_MAX)"
proof -
  have fail: "advance (min a RECONNECT_DELAY_MAX) None = Some (min (a * 2) RECONNECT_DELAY_MAX)" for a
  proof -
    have "min a RECONNECT_DELAY_MAX * 2 < DURATION_LIMIT" by (simp add: backoff_constants min_def)
    then show ?thesis by (simp add: advance_def duration_checked_def min_double_max)
  qed
  have run: "advance_run (min a RECONNECT_DELAY_MAX) (replicate n None) = Some (min (a * 2 ^ n) RECONNECT_DELAY_MAX)" for a n
  proof (induction n arbitrary: a)
    case (Suc n)
    then show ?case using Suc[of "a * 2"] fail[of a] by (simp add: mult.assoc)
  qed simp
  have "advance current (Some d) = Some (min RECONNECT_DELAY_INITIAL RECONNECT_DELAY_MAX)"
    using assms(2) by (simp add: advance_def backoff_constants)
  then have form: "advance_run current (Some d # replicate n None) =
      Some (min (RECONNECT_DELAY_INITIAL * 2 ^ n) RECONNECT_DELAY_MAX)"
    using run by simp
  have "RECONNECT_DELAY_MAX \<le> RECONNECT_DELAY_INITIAL * 2 ^ n" if "7 \<le> n"
  proof -
    have "(2::nat) ^ 7 \<le> 2 ^ n" using that by (intro power_increasing) auto
    then have "RECONNECT_DELAY_INITIAL * 2 ^ 7 \<le> RECONNECT_DELAY_INITIAL * 2 ^ n" by simp
    then show ?thesis by (simp add: backoff_constants)
  qed
  with form show ?thesis by (auto simp: min_def)
qed

theorem advance_run_closed_form_witness:
  "advance_run RECONNECT_DELAY_INITIAL (Some (from_secs 300) # replicate 8 None) = Some RECONNECT_DELAY_MAX"
  using advance_run_closed_form[of RECONNECT_DELAY_INITIAL "from_secs 300" 8]
  by (simp add: in_schedule_def backoff_constants)

text \<open>Jitter is bounded: for any delay of the schedule and any jitter ceiling within an hour,
  the jittered delay exists, is not shorter than the delay and exceeds it by less than the ceiling
  (by nothing when the ceiling is below a millisecond).\<close>

theorem jittered_bounds:
  assumes "in_schedule base" "jitter_max \<le> from_secs 3600"
  shows "\<exists>d. jittered base url jitter_max = Some d \<and> base \<le> d \<and>
    (if as_millis jitter_max = 0 then d = base else d < base + jitter_max)"
proof (cases "as_millis jitter_max = 0")
  case True
  then show ?thesis by (simp add: jittered_def Let_def)
next
  case False
  let ?j = "unat (url_hash url) mod as_millis jitter_max * 1000000"
  have "as_millis jitter_max \<le> 3600000"
    using div_le_mono[OF assms(2), of 1000000] by (simp add: as_millis_def from_secs_def)
  then have small: "as_millis jitter_max < 2 ^ 64" by simp
  have "unat (url_hash url) mod as_millis jitter_max < as_millis jitter_max" using False by simp
  then have "?j < as_millis jitter_max * 1000000" by simp
  also have "\<dots> \<le> jitter_max" unfolding as_millis_def by (rule div_times_less_eq_dividend)
  finally have j: "?j < jitter_max" .
  then have "base + ?j < DURATION_LIMIT" using assms by (simp add: in_schedule_def backoff_constants)
  then show ?thesis using j False small by (simp add: jittered_def duration_checked_def Let_def)
qed

theorem jittered_bounds_witness:
  "\<exists>d. jittered RECONNECT_DELAY_INITIAL [119, 115, 115] RECONNECT_JITTER_MAX = Some d \<and>
     d < RECONNECT_DELAY_INITIAL + RECONNECT_JITTER_MAX"
  using jittered_bounds[of RECONNECT_DELAY_INITIAL RECONNECT_JITTER_MAX "[119, 115, 115]"]
  by (auto simp: in_schedule_def backoff_constants RECONNECT_JITTER_MAX_def as_millis_def)

end
