(* ===== verification/Keepalive.thy ===== *)
theory Keepalive
  imports Backoff
begin

text \<open>
  \<open>crates/nmp-transport/src/keepalive.rs\<close>: the per-socket keepalive machine, the suspend-gap
  detector and their combination.

  An \<open>Instant\<close> or \<open>SystemTime\<close> is a number of nanoseconds supplied by the caller;
  \<open>saturating_duration_since\<close> is truncated subtraction. \<open>Instant\<close> overflow is not modelled.
\<close>

type_synonym instant = nat

definition KEEPALIVE_IDLE_THRESHOLD :: duration where
  "KEEPALIVE_IDLE_THRESHOLD = from_secs 30"

definition KEEPALIVE_PONG_TIMEOUT :: duration where
  "KEEPALIVE_PONG_TIMEOUT = from_secs 30"

definition SUSPEND_GAP_THRESHOLD :: duration where
  "SUSPEND_GAP_THRESHOLD = from_secs 45"

datatype keepalive_action = Idle | EmitPing | Dead

record keepalive_state =
  ka_idle_threshold :: duration
  ka_pong_timeout :: duration
  ka_last_inbound_at :: instant
  ka_ping_sent_at :: "instant option"

definition keepalive_new :: "instant \<Rightarrow> duration \<Rightarrow> duration \<Rightarrow> keepalive_state" where
  "keepalive_new now idle_threshold pong_timeout =
     \<lparr>ka_idle_threshold = idle_threshold, ka_pong_timeout = pong_timeout,
      ka_last_inbound_at = now, ka_ping_sent_at = None\<rparr>"

definition on_inbound :: "instant \<Rightarrow> keepalive_state \<Rightarrow> duration option \<times> keepalive_state" where
  "on_inbound now s =
     (map_option (\<lambda>sent_at. now - sent_at) (ka_ping_sent_at s),
      s\<lparr>ka_last_inbound_at := now, ka_ping_sent_at := None\<rparr>)"

definition keepalive_step :: "instant \<Rightarrow> keepalive_state \<Rightarrow> keepalive_action" where
  "keepalive_step now s =
     (case ka_ping_sent_at s of
        Some sent_at \<Rightarrow> if now - sent_at \<ge> ka_pong_timeout s then Dead else Idle
      | None \<Rightarrow> if now - ka_last_inbound_at s \<ge> ka_idle_threshold s then EmitPing else Idle)"

definition next_deadline :: "keepalive_state \<Rightarrow> instant" where
  "next_deadline s =
     (case ka_ping_sent_at s of
        Some sent_at \<Rightarrow> sent_at + ka_pong_timeout s
      | None \<Rightarrow> ka_last_inbound_at s + ka_idle_threshold s)"

definition on_ping_flushed :: "instant \<Rightarrow> keepalive_state \<Rightarrow> keepalive_state" where
  "on_ping_flushed now s =
     (if ka_ping_sent_at s = None then s\<lparr>ka_ping_sent_at := Some now\<rparr> else s)"

definition ping_in_flight :: "keepalive_state \<Rightarrow> bool" where
  "ping_in_flight s \<longleftrightarrow> ka_ping_sent_at s \<noteq> None"

record suspend_gap_detector =
  sg_last_seen :: instant
  sg_threshold :: duration

definition suspend_gap_new :: "instant \<Rightarrow> duration \<Rightarrow> suspend_gap_detector" where
  "suspend_gap_new now threshold = \<lparr>sg_last_seen = now, sg_threshold = threshold\<rparr>"

definition observe_gap :: "instant \<Rightarrow> suspend_gap_detector \<Rightarrow> bool \<times> suspend_gap_detector" where
  "observe_gap now d =
     (let gap = (if sg_last_seen d \<le> now then now - sg_last_seen d else 0)
      in (gap \<ge> sg_threshold d, d\<lparr>sg_last_seen := now\<rparr>))"

definition apply_resume_gap :: "keepalive_action \<Rightarrow> bool \<Rightarrow> bool \<Rightarrow> keepalive_action" where
  "apply_resume_gap action in_flight gap_detected =
     (if gap_detected \<and> \<not> in_flight \<and> action = Idle then EmitPing else action)"

section \<open>Runs of the worker\<close>

text \<open>What the worker does to the machine: it reads frames, it ticks, and a ping the machine or the
  resume heuristic asked for is flushed at some later moment. Time never goes back.\<close>

datatype keepalive_event = Inbound instant | PingFlushed instant

fun event_at :: "keepalive_event \<Rightarrow> instant" where
  "event_at (Inbound t) = t"
| "event_at (PingFlushed t) = t"

fun keepalive_apply :: "keepalive_event \<Rightarrow> keepalive_state \<Rightarrow> keepalive_state" where
  "keepalive_apply (Inbound t) s = snd (on_inbound t s)"
| "keepalive_apply (PingFlushed t) s = on_ping_flushed t s"

inductive keepalive_reach ::
  "instant \<Rightarrow> duration \<Rightarrow> duration \<Rightarrow> keepalive_event list \<Rightarrow> keepalive_state \<Rightarrow> bool"
  for opened idle pong where
  opened: "keepalive_reach opened idle pong [] (keepalive_new opened idle pong)"
| event: "keepalive_reach opened idle pong trace s \<Longrightarrow> \<forall>e' \<in> set trace. event_at e' \<le> event_at e \<Longrightarrow>
     opened \<le> event_at e \<Longrightarrow> keepalive_reach opened idle pong (trace @ [e]) (keepalive_apply e s)"

definition silent_since :: "instant \<Rightarrow> keepalive_event list \<Rightarrow> bool" where
  "silent_since t trace \<longleftrightarrow> (\<forall>t'. Inbound t' \<in> set trace \<longrightarrow> t' \<le> t)"

definition tracks :: "instant \<Rightarrow> duration \<Rightarrow> duration \<Rightarrow> keepalive_event list \<Rightarrow> keepalive_state \<Rightarrow> bool" where
  "tracks opened idle pong trace s \<longleftrightarrow>
     ka_idle_threshold s = idle \<and> ka_pong_timeout s = pong \<and> opened \<le> ka_last_inbound_at s \<and>
     (ka_last_inbound_at s = opened \<or> Inbound (ka_last_inbound_at s) \<in> set trace) \<and>
     silent_since (ka_last_inbound_at s) trace \<and>
     (case ka_ping_sent_at s of
        None \<Rightarrow> \<forall>t. PingFlushed t \<in> set trace \<longrightarrow> t \<le> ka_last_inbound_at s
      | Some sent_at \<Rightarrow> PingFlushed sent_at \<in> set trace \<and> ka_last_inbound_at s \<le> sent_at \<and>
          silent_since sent_at trace)"

lemma keepalive_reach_tracks:
  assumes "keepalive_reach opened idle pong trace s"
  shows "tracks opened idle pong trace s \<and> (\<forall>e \<in> set trace. opened \<le> event_at e)"
  using assms
proof (induction rule: keepalive_reach.induct)
  case opened
  then show ?case by (simp add: tracks_def keepalive_new_def silent_since_def)
next
  case (event trace s e)
  have le: "\<forall>e' \<in> set trace. event_at e' \<le> event_at e" by fact
  have inb: "\<And>t. Inbound t \<in> set trace \<Longrightarrow> t \<le> event_at e" and fl: "\<And>t. PingFlushed t \<in> set trace \<Longrightarrow> t \<le> event_at e"
    using le by fastforce+
  have last: "ka_last_inbound_at s \<le> event_at e"
    using event.IH event.hyps inb by (auto simp: tracks_def)
  show ?case
  proof (cases e)
    case (Inbound t)
    then show ?thesis using event.IH event.hyps inb fl
      by (auto simp: tracks_def on_inbound_def silent_since_def)
  next
    case (PingFlushed t)
    then show ?thesis using event.IH event.hyps inb last
      by (cases "ka_ping_sent_at s") (auto simp: tracks_def on_ping_flushed_def silent_since_def)
  qed
qed

text \<open>C34: A socket is only ever declared dead after a real probe. In any run of the worker, a \<open>Dead\<close>
  verdict means that a ping was flushed at least the pong timeout ago and that nothing was
  read since then.\<close>

theorem keepalive_dead_sound:
  assumes "keepalive_reach opened idle pong trace s" "keepalive_step now s = Dead"
  shows "\<exists>sent_at. PingFlushed sent_at \<in> set trace \<and> pong \<le> now - sent_at \<and> silent_since sent_at trace"
  using keepalive_reach_tracks[OF assms(1)] assms(2)
  by (auto simp: tracks_def keepalive_step_def split: option.splits if_splits)

lemma example_run:
  "keepalive_reach 0 30 30 [PingFlushed 31] (keepalive_apply (PingFlushed 31) (keepalive_new 0 30 30))"
  using keepalive_reach.event[OF keepalive_reach.opened, of "PingFlushed 31" 0 30 30] by simp

theorem keepalive_dead_sound_witness:
  "\<exists>sent_at. PingFlushed sent_at \<in> set [PingFlushed 31] \<and> 30 \<le> (61 :: nat) - sent_at \<and> silent_since sent_at [PingFlushed 31]"
  using keepalive_dead_sound[OF example_run, of 61]
  by (simp add: keepalive_step_def on_ping_flushed_def keepalive_new_def)

text \<open>C35: A silent socket is found out. \<open>next_deadline\<close> is exact: before it a tick does nothing, from
  it on a tick acts. So without inbound frames, the tick at the first deadline asks for a ping,
  and once that ping is flushed the tick at the next deadline, one pong timeout later,
  reports the socket dead.\<close>

theorem keepalive_silence_detected:
  assumes "ka_ping_sent_at s = None" "next_deadline s \<le> flushed" "0 < ka_pong_timeout s" "0 < ka_idle_threshold s"
  shows "(\<forall>now. now < next_deadline s \<longrightarrow> keepalive_step now s = Idle) \<and>
    (\<forall>now. next_deadline s \<le> now \<longrightarrow> keepalive_step now s = EmitPing) \<and>
    next_deadline (on_ping_flushed flushed s) = flushed + ka_pong_timeout s \<and>
    (\<forall>now. now < flushed + ka_pong_timeout s \<longrightarrow> keepalive_step now (on_ping_flushed flushed s) = Idle) \<and>
    (\<forall>now. flushed + ka_pong_timeout s \<le> now \<longrightarrow> keepalive_step now (on_ping_flushed flushed s) = Dead)"
  using assms by (auto simp: keepalive_step_def next_deadline_def on_ping_flushed_def)

theorem keepalive_silence_detected_witness:
  "keepalive_step 61 (on_ping_flushed 31 (keepalive_new 0 30 30)) = Dead"
  using keepalive_silence_detected[of "keepalive_new 0 30 30" 31]
  by (simp add: keepalive_new_def next_deadline_def)

text \<open>A second ping is never stacked on an outstanding one: with a ping in flight, neither the
  machine nor the resume heuristic asks for a ping; and a detected suspend gap on a quiet
  socket always asks for one.\<close>

theorem no_ping_on_ping:
  "(ping_in_flight s \<longrightarrow> apply_resume_gap (keepalive_step now s) (ping_in_flight s) gap \<noteq> EmitPing) \<and>
   (\<not> ping_in_flight s \<longrightarrow> gap \<longrightarrow> apply_resume_gap (keepalive_step now s) (ping_in_flight s) gap = EmitPing)"
  by (auto simp: ping_in_flight_def apply_resume_gap_def keepalive_step_def split: option.splits)

theorem no_ping_on_ping_witness:
  "apply_resume_gap (keepalive_step 1 (keepalive_new 0 30 30)) (ping_in_flight (keepalive_new 0 30 30)) True = EmitPing"
  using no_ping_on_ping[of "keepalive_new 0 30 30" 1 True] by (simp add: ping_in_flight_def keepalive_new_def)

end
