(* ===== verification/Owner_Index.thy ===== *)
theory Owner_Index
  imports Relay_Plan
begin

text \<open>
  \<open>crates/nmp-engine/src/core/owner_index.rs\<close> and \<open>request_replacements.rs\<close>: children keyed by their
  own id, with a reverse index from the owner that holds them.

  The trait \<open>IndexedChild\<close> is the parameter \<open>owner_key\<close>. Every \<open>assert!\<close>, \<open>panic!\<close> and
  \<open>unwrap_or_else(panic)\<close> of the source is the \<open>None\<close> of the operation. The contract the owners rely
  on is the locale \<open>mirrored_index\<close>; the index itself and the replacement owner interpret it.
\<close>

record ('owner, 'child, 'v) owner_indexed =
  oi_by_child :: "('child, 'v) fmap"
  oi_by_owner :: "('owner, 'child fset) fmap"

definition owner_index_new :: "('owner, 'child, 'v) owner_indexed" where
  "owner_index_new = \<lparr>oi_by_child = fmempty, oi_by_owner = fmempty\<rparr>"

definition owner_insert ::
  "('v \<Rightarrow> 'owner) \<Rightarrow> 'child \<Rightarrow> 'v \<Rightarrow> ('owner, 'child, 'v) owner_indexed \<Rightarrow>
   ('owner, 'child, 'v) owner_indexed option" where
  "owner_insert owner_key child value idx =
     (if child |\<in>| fmdom (oi_by_child idx) then None
      else Some \<lparr>oi_by_child = fmupd child value (oi_by_child idx),
                 oi_by_owner = fm_upsert (owner_key value) (finsert child) {|child|} (oi_by_owner idx)\<rparr>)"

definition prune_child :: "'owner \<Rightarrow> 'child \<Rightarrow> ('owner, 'child fset) fmap \<Rightarrow> ('owner, 'child fset) fmap option" where
  "prune_child owner child by_owner =
     (case fmlookup by_owner owner of
        None \<Rightarrow> None
      | Some children \<Rightarrow>
          if child |\<notin>| children then None
          else if children |-| {|child|} = {||} then Some (fmdrop owner by_owner)
          else Some (fmupd owner (children |-| {|child|}) by_owner))"

definition owner_take ::
  "('v \<Rightarrow> 'owner) \<Rightarrow> 'child \<Rightarrow> ('owner, 'child, 'v) owner_indexed \<Rightarrow>
   ('v option \<times> ('owner, 'child, 'v) owner_indexed) option" where
  "owner_take owner_key child idx =
     (case fmlookup (oi_by_child idx) child of
        None \<Rightarrow> Some (None, idx)
      | Some value \<Rightarrow>
          map_option (\<lambda>by_owner. (Some value,
              \<lparr>oi_by_child = fmdrop child (oi_by_child idx), oi_by_owner = by_owner\<rparr>))
            (prune_child (owner_key value) child (oi_by_owner idx)))"

fun take_children ::
  "'child list \<Rightarrow> ('child, 'v) fmap \<Rightarrow> (('child \<times> 'v) list \<times> ('child, 'v) fmap) option" where
  "take_children [] by_child = Some ([], by_child)"
| "take_children (child # children) by_child =
     (case fmlookup by_child child of
        None \<Rightarrow> None
      | Some value \<Rightarrow>
          map_option (\<lambda>(rest, by_child'). ((child, value) # rest, by_child'))
            (take_children children (fmdrop child by_child)))"

definition owner_take_owner ::
  "'owner \<Rightarrow> ('owner, 'child::linorder, 'v) owner_indexed \<Rightarrow>
   (('child \<times> 'v) list \<times> ('owner, 'child, 'v) owner_indexed) option" where
  "owner_take_owner owner idx =
     (let children = (case fmlookup (oi_by_owner idx) owner of None \<Rightarrow> {||} | Some cs \<Rightarrow> cs)
      in map_option (\<lambda>(taken, by_child).
             (taken, \<lparr>oi_by_child = by_child, oi_by_owner = fmdrop owner (oi_by_owner idx)\<rparr>))
           (take_children (sorted_list_of_fset children) (oi_by_child idx)))"

definition owner_contains :: "'child \<Rightarrow> ('owner, 'child, 'v) owner_indexed \<Rightarrow> bool" where
  "owner_contains child idx \<longleftrightarrow> child |\<in>| fmdom (oi_by_child idx)"

section \<open>Exact mirrors\<close>

text \<open>A reverse index is exact when every owner names precisely the children that report it, and no
  owner keeps an empty set.\<close>

definition children_of :: "('owner, 'child fset) fmap \<Rightarrow> 'owner \<Rightarrow> 'child fset" where
  "children_of reverse owner = (case fmlookup reverse owner of None \<Rightarrow> {||} | Some cs \<Rightarrow> cs)"

definition mirror_ok :: "('v \<Rightarrow> 'owner) \<Rightarrow> ('child, 'v) fmap \<Rightarrow> ('owner, 'child fset) fmap \<Rightarrow> bool" where
  "mirror_ok key forward reverse \<longleftrightarrow>
     (\<forall>owner. fmlookup reverse owner \<noteq> Some {||}) \<and>
     (\<forall>child owner. child |\<in>| children_of reverse owner \<longleftrightarrow> map_option key (fmlookup forward child) = Some owner)"

lemma mirror_okD:
  assumes "mirror_ok key forward reverse"
  shows "fmlookup reverse owner \<noteq> Some {||}"
    "child |\<in>| children_of reverse owner \<longleftrightarrow> map_option key (fmlookup forward child) = Some owner"
  using assms by (simp_all add: mirror_ok_def)

lemma mirror_ok_empty [simp]: "mirror_ok key fmempty fmempty"
  by (simp add: mirror_ok_def children_of_def)

lemma children_of_upsert:
  "children_of (fm_upsert o' (finsert c) {|c|} reverse) owner =
     (if owner = o' then finsert c (children_of reverse owner) else children_of reverse owner)"
  by (auto simp: children_of_def fmlookup_fm_upsert split: option.split)

lemma children_of_fmdrop: "children_of (fmdrop o' reverse) owner = (if owner = o' then {||} else children_of reverse owner)"
  by (simp add: children_of_def)

lemma children_of_fmupd: "children_of (fmupd o' cs reverse) owner = (if owner = o' then cs else children_of reverse owner)"
  by (simp add: children_of_def)

lemma mirror_ok_insert:
  assumes "mirror_ok key forward reverse" "fmlookup forward child = None"
  shows "mirror_ok key (fmupd child value forward) (fm_upsert (key value) (finsert child) {|child|} reverse)"
  unfolding mirror_ok_def children_of_upsert
  using mirror_okD[OF assms(1)] assms(2)
  by (auto simp: fmlookup_fm_upsert split: if_splits option.splits)

lemma prune_child_eq:
  assumes "child |\<in>| children_of reverse owner"
  shows "prune_child owner child reverse =
    Some (if children_of reverse owner |-| {|child|} = {||} then fmdrop owner reverse
      else fmupd owner (children_of reverse owner |-| {|child|}) reverse)"
  using assms by (auto simp: prune_child_def children_of_def split: option.splits)

lemma prune_child_ok:
  assumes "mirror_ok key forward reverse" "fmlookup forward child = Some value"
  shows "\<exists>reverse'. prune_child (key value) child reverse = Some reverse' \<and> mirror_ok key (fmdrop child forward) reverse'"
proof -
  let ?rest = "children_of reverse (key value) |-| {|child|}"
  let ?reverse' = "if ?rest = {||} then fmdrop (key value) reverse else fmupd (key value) ?rest reverse"
  note d = mirror_okD[OF assms(1)]
  have "child |\<in>| children_of reverse (key value)" using assms(2) by (simp add: d(2))
  from prune_child_eq[OF this] have "prune_child (key value) child reverse = Some ?reverse'" .
  moreover have "mirror_ok key (fmdrop child forward) ?reverse'"
    unfolding mirror_ok_def
  proof (intro conjI allI)
    show "fmlookup ?reverse' owner \<noteq> Some {||}" for owner using d(1) by auto
    have "children_of ?reverse' owner = children_of reverse owner |-| (if owner = key value then {|child|} else {||})" for owner
      by (auto simp: children_of_fmdrop children_of_fmupd)
    then show "x |\<in>| children_of ?reverse' owner \<longleftrightarrow> map_option key (fmlookup (fmdrop child forward) x) = Some owner" for x owner
      using assms(2) by (auto simp: d(2))
  qed
  ultimately show ?thesis by blast
qed

lemma mirror_ok_drop_owner:
  assumes "mirror_ok key forward reverse"
  shows "mirror_ok key (fmfilter (\<lambda>c. c |\<notin>| children_of reverse owner) forward) (fmdrop owner reverse)"
  unfolding mirror_ok_def
proof (intro conjI allI)
  note d = mirror_okD[OF assms]
  show "fmlookup (fmdrop owner reverse) o' \<noteq> Some {||}" for o' using d(1) by simp
  show "c |\<in>| children_of (fmdrop owner reverse) o' \<longleftrightarrow>
      map_option key (fmlookup (fmfilter (\<lambda>c. c |\<notin>| children_of reverse owner) forward) c) = Some o'" for c o'
    by (auto simp: children_of_fmdrop d(2))
qed

lemma take_children_result:
  assumes "distinct cs" "\<forall>c \<in> set cs. fmlookup by_child c \<noteq> None"
  shows "take_children cs by_child =
    Some (map (\<lambda>c. (c, the (fmlookup by_child c))) cs, fmfilter (\<lambda>c. c \<notin> set cs) by_child)"
  using assms
proof (induction cs arbitrary: by_child)
  case (Cons c cs)
  then obtain v where v: "fmlookup by_child c = Some v" by auto
  have "take_children cs (fmdrop c by_child) =
      Some (map (\<lambda>c'. (c', the (fmlookup (fmdrop c by_child) c'))) cs, fmfilter (\<lambda>c'. c' \<notin> set cs) (fmdrop c by_child))"
    using Cons.prems by (intro Cons.IH) auto
  moreover have "fmfilter (\<lambda>c'. c' \<notin> set cs) (fmdrop c by_child) = fmfilter (\<lambda>c'. c' \<notin> set (c # cs)) by_child"
    by (rule fmap_ext) auto
  ultimately show ?case using v Cons.prems(1) by auto
qed simp


section \<open>The contract\<close>

text \<open>What an owner of the index relies on: the children form a map, an insertion needs a fresh id,
  a take removes one child, and an owner's teardown hands back exactly its children. No operation
  panics on a consistent index.\<close>

locale mirrored_index =
  fixes invar :: "'i \<Rightarrow> bool"
    and children :: "'i \<Rightarrow> 'child \<Rightarrow> 'v option"
    and owner_of :: "'v \<Rightarrow> 'owner"
    and insert_child :: "'child \<Rightarrow> 'v \<Rightarrow> 'i \<Rightarrow> 'i option"
    and take_child :: "'child \<Rightarrow> 'i \<Rightarrow> ('v option \<times> 'i) option"
    and take_owner :: "'owner \<Rightarrow> 'i \<Rightarrow> (('child \<times> 'v) list \<times> 'i) option"
  assumes insert_fresh: "invar i \<Longrightarrow> children i c = None \<Longrightarrow>
      \<exists>i'. insert_child c v i = Some i' \<and> invar i' \<and> children i' = (children i)(c \<mapsto> v)"
    and insert_reused: "invar i \<Longrightarrow> children i c \<noteq> None \<Longrightarrow> insert_child c v i = None"
    and take_one: "invar i \<Longrightarrow>
      \<exists>i'. take_child c i = Some (children i c, i') \<and> invar i' \<and> children i' = (children i)(c := None)"
    and take_all: "invar i \<Longrightarrow>
      \<exists>taken i'. take_owner w i = Some (taken, i') \<and> invar i' \<and> distinct (map fst taken) \<and>
        (\<forall>c v. (c, v) \<in> set taken \<longleftrightarrow> children i c = Some v \<and> owner_of v = w) \<and>
        children i' = (\<lambda>c. if \<exists>v. children i c = Some v \<and> owner_of v = w then None else children i c)"
begin

text \<open>Teardown settles the owner: afterwards it has no child, and taking one of its former children
  finds nothing, so each child is handed out once.\<close>

lemma teardown_settles:
  assumes "invar i" "take_owner w i = Some (taken, i')"
  shows "invar i'" "children i' c = Some v \<Longrightarrow> owner_of v \<noteq> w"
    "(c, v) \<in> set taken \<Longrightarrow> \<exists>i''. take_child c i' = Some (None, i'') \<and> invar i''"
proof -
  have r: "invar i'" "\<forall>c v. (c, v) \<in> set taken \<longleftrightarrow> children i c = Some v \<and> owner_of v = w"
    "children i' = (\<lambda>c. if \<exists>v. children i c = Some v \<and> owner_of v = w then None else children i c)"
    using take_all[OF assms(1), of w] assms(2) by auto
  show "invar i'" by (fact r(1))
  show "owner_of v \<noteq> w" if "children i' c = Some v" using that r(3) by (auto split: if_splits)
  show "\<exists>i''. take_child c i' = Some (None, i'') \<and> invar i''" if "(c, v) \<in> set taken"
    using take_one[OF r(1), of c] r(2,3) that by auto
qed

end

definition owner_index_ok :: "('v \<Rightarrow> 'owner) \<Rightarrow> ('owner, 'child, 'v) owner_indexed \<Rightarrow> bool" where
  "owner_index_ok owner_key idx \<longleftrightarrow> mirror_ok owner_key (oi_by_child idx) (oi_by_owner idx)"

lemma owner_index_contract:
  fixes owner_key :: "'v \<Rightarrow> 'owner"
  shows "mirrored_index (owner_index_ok owner_key) (\<lambda>idx. fmlookup (oi_by_child idx)) owner_key
    (owner_insert owner_key) (owner_take owner_key) (owner_take_owner :: 'owner \<Rightarrow> ('owner, 'child::linorder, 'v) owner_indexed \<Rightarrow> _)"
proof
  fix i :: "('owner, 'child, 'v) owner_indexed" and c v
  assume ok: "owner_index_ok owner_key i"
  show "fmlookup (oi_by_child i) c = None \<Longrightarrow>
      \<exists>i'. owner_insert owner_key c v i = Some i' \<and> owner_index_ok owner_key i' \<and>
        fmlookup (oi_by_child i') = (fmlookup (oi_by_child i))(c \<mapsto> v)"
    using ok mirror_ok_insert[of owner_key "oi_by_child i" "oi_by_owner i" c v]
    by (auto simp: owner_insert_def owner_index_ok_def fmlookup_dom_iff)
  show "fmlookup (oi_by_child i) c \<noteq> None \<Longrightarrow> owner_insert owner_key c v i = None"
    by (auto simp: owner_insert_def fmlookup_dom_iff)
  show "\<exists>i'. owner_take owner_key c i = Some (fmlookup (oi_by_child i) c, i') \<and> owner_index_ok owner_key i' \<and>
      fmlookup (oi_by_child i') = (fmlookup (oi_by_child i))(c := None)"
  proof (cases "fmlookup (oi_by_child i) c")
    case None
    then have "owner_take owner_key c i = Some (fmlookup (oi_by_child i) c, i)" by (simp add: owner_take_def)
    moreover have "fmlookup (oi_by_child i) = (fmlookup (oi_by_child i))(c := None)" using None by (rule fun_upd_idem[symmetric])
    ultimately show ?thesis using ok by (intro exI[of _ i] conjI)
  next
    case (Some v)
    obtain r where "prune_child (owner_key v) c (oi_by_owner i) = Some r"
      "mirror_ok owner_key (fmdrop c (oi_by_child i)) r"
      using prune_child_ok[OF ok[unfolded owner_index_ok_def] Some] by (elim exE conjE)
    then have "owner_take owner_key c i = Some (fmlookup (oi_by_child i) c, \<lparr>oi_by_child = fmdrop c (oi_by_child i), oi_by_owner = r\<rparr>)"
      "owner_index_ok owner_key \<lparr>oi_by_child = fmdrop c (oi_by_child i), oi_by_owner = r\<rparr>"
      using Some by (simp_all add: owner_take_def owner_index_ok_def)
    moreover have "fmlookup (fmdrop c (oi_by_child i)) = (fmlookup (oi_by_child i))(c := None)" by auto
    ultimately show ?thesis
      by (intro exI[of _ "\<lparr>oi_by_child = fmdrop c (oi_by_child i), oi_by_owner = r\<rparr>"]) simp
  qed
next
  fix i :: "('owner, 'child, 'v) owner_indexed" and w
  assume ok: "owner_index_ok owner_key i"
  let ?cs = "children_of (oi_by_owner i) w"
  let ?taken = "map (\<lambda>c. (c, the (fmlookup (oi_by_child i) c))) (sorted_list_of_fset ?cs)"
  let ?i' = "\<lparr>oi_by_child = fmfilter (\<lambda>c. c |\<notin>| ?cs) (oi_by_child i), oi_by_owner = fmdrop w (oi_by_owner i)\<rparr>"
  note d = mirror_okD[OF ok[unfolded owner_index_ok_def]]
  have live: "\<forall>c \<in> set (sorted_list_of_fset ?cs). fmlookup (oi_by_child i) c \<noteq> None" by (auto simp: d(2))
  have tc: "take_children (sorted_list_of_fset ?cs) (oi_by_child i) =
      Some (map (\<lambda>c. (c, the (fmlookup (oi_by_child i) c))) (sorted_list_of_fset ?cs), fmfilter (\<lambda>c. c |\<notin>| ?cs) (oi_by_child i))"
    using take_children_result[of "sorted_list_of_fset ?cs" "oi_by_child i", OF _ live] by simp
  have eq: "fmlookup (fmfilter (\<lambda>c. c |\<notin>| ?cs) (oi_by_child i)) =
      (\<lambda>c. if \<exists>v. fmlookup (oi_by_child i) c = Some v \<and> owner_key v = w then None else fmlookup (oi_by_child i) c)"
    by (auto simp: fun_eq_iff d(2))
  have mem: "(c, v) \<in> set (map (\<lambda>c. (c, the (fmlookup (oi_by_child i) c))) (sorted_list_of_fset ?cs)) \<longleftrightarrow>
      fmlookup (oi_by_child i) c = Some v \<and> owner_key v = w" for c v
    by (auto simp: d(2))
  show "\<exists>taken i'. owner_take_owner w i = Some (taken, i') \<and> owner_index_ok owner_key i' \<and> distinct (map fst taken) \<and>
      (\<forall>c v. (c, v) \<in> set taken \<longleftrightarrow> fmlookup (oi_by_child i) c = Some v \<and> owner_key v = w) \<and>
      fmlookup (oi_by_child i') = (\<lambda>c. if \<exists>v. fmlookup (oi_by_child i) c = Some v \<and> owner_key v = w then None else fmlookup (oi_by_child i) c)"
  proof (intro exI conjI)
    show "owner_take_owner w i = Some (?taken, ?i')"
      using tc by (simp add: owner_take_owner_def children_of_def)
    show "owner_index_ok owner_key ?i'"
      using mirror_ok_drop_owner[OF ok[unfolded owner_index_ok_def], of w] by (simp add: owner_index_ok_def)
    show "distinct (map fst ?taken)" by (simp add: o_def)
    show "\<forall>c v. (c, v) \<in> set ?taken \<longleftrightarrow> fmlookup (oi_by_child i) c = Some v \<and> owner_key v = w"
      using mem by blast
    show "fmlookup (oi_by_child ?i') = (\<lambda>c. if \<exists>v. fmlookup (oi_by_child i) c = Some v \<and> owner_key v = w then None else fmlookup (oi_by_child i) c)"
      using eq by simp
  qed
qed

interpretation child_index: mirrored_index "owner_index_ok owner_key" "\<lambda>idx. fmlookup (oi_by_child idx)" owner_key
    "owner_insert owner_key" "owner_take owner_key" owner_take_owner
  for owner_key
  by (rule owner_index_contract)

lemma owner_index_new_ok: "owner_index_ok owner_key owner_index_new"
  by (simp add: owner_index_ok_def owner_index_new_def)

end
