(* ===== verification/Request_Replacements.thy ===== *)
theory Request_Replacements
  imports Owner_Index Compile
begin

text \<open>
  \<open>crates/nmp-engine/src/core/request_replacements.rs\<close>: the transitions that wait for their successor
  request to be accepted before the predecessor is closed, keyed by the successor and indexed by the
  relay session that owns them. The owner is the mirrored index at \<open>RequestReplacement\<close>, so it meets
  the same contract.
\<close>

record request_replacements =
  rr_pending :: "(relay_session_key, sub_id, request_replacement) owner_indexed"

definition replacements_default :: request_replacements where
  "replacements_default = \<lparr>rr_pending = owner_index_new\<rparr>"

definition replacement_insert :: "request_replacement \<Rightarrow> request_replacements \<Rightarrow> request_replacements option" where
  "replacement_insert replacement S =
     (let successor = rpl_next replacement
      in map_option (\<lambda>pending. \<lparr>rr_pending = pending\<rparr>) (owner_insert rpl_session successor replacement (rr_pending S)))"

definition replacement_take ::
  "sub_id \<Rightarrow> request_replacements \<Rightarrow> (request_replacement option \<times> request_replacements) option" where
  "replacement_take successor S =
     map_option (\<lambda>(r, pending). (r, \<lparr>rr_pending = pending\<rparr>)) (owner_take rpl_session successor (rr_pending S))"

definition replacement_contains :: "sub_id \<Rightarrow> request_replacements \<Rightarrow> bool" where
  "replacement_contains successor S = owner_contains successor (rr_pending S)"

definition take_for_session ::
  "relay_session_key \<Rightarrow> request_replacements \<Rightarrow> ((sub_id \<times> request_replacement) list \<times> request_replacements) option" where
  "take_for_session session S =
     map_option (\<lambda>(rs, pending). (rs, \<lparr>rr_pending = pending\<rparr>)) (owner_take_owner session (rr_pending S))"

text \<open>The pending transitions form a consistent index, each filed under its own successor.\<close>

definition replacements_ok :: "request_replacements \<Rightarrow> bool" where
  "replacements_ok S \<longleftrightarrow> owner_index_ok rpl_session (rr_pending S) \<and>
     (\<forall>successor r. fmlookup (oi_by_child (rr_pending S)) successor = Some r \<longrightarrow> rpl_next r = successor)"

lemma replacements_default_ok: "replacements_ok replacements_default"
  by (simp add: replacements_ok_def replacements_default_def owner_index_new_ok) (simp add: owner_index_new_def)

lemma replacement_insert_spec:
  assumes "replacements_ok S"
  shows "if replacement_contains (rpl_next r) S then replacement_insert r S = None
    else \<exists>S'. replacement_insert r S = Some S' \<and> replacements_ok S' \<and>
      fmlookup (oi_by_child (rr_pending S')) = (fmlookup (oi_by_child (rr_pending S)))(rpl_next r \<mapsto> r)"
proof (cases "replacement_contains (rpl_next r) S")
  case True
  then show ?thesis
    using assms child_index.insert_reused[of rpl_session "rr_pending S" "rpl_next r" r]
    by (auto simp: replacement_contains_def owner_contains_def replacements_ok_def replacement_insert_def fmlookup_dom_iff)
next
  case False
  then obtain i' where "owner_insert rpl_session (rpl_next r) r (rr_pending S) = Some i'" "owner_index_ok rpl_session i'"
    "fmlookup (oi_by_child i') = (fmlookup (oi_by_child (rr_pending S)))(rpl_next r \<mapsto> r)"
    using assms child_index.insert_fresh[of rpl_session "rr_pending S" "rpl_next r" r]
    by (auto simp: replacement_contains_def owner_contains_def replacements_ok_def fmlookup_dom_iff)
  then show ?thesis using False assms by (auto simp: replacement_insert_def replacements_ok_def)
qed

text \<open>C30: When a connection generation dies, abandoning the session's transitions never meets a
  broken index, hands each of them out exactly once, and leaves every other session's transitions
  in place.\<close>

theorem take_for_session_exact:
  assumes "replacements_ok S"
  shows "\<exists>taken S'. take_for_session session S = Some (taken, S') \<and> replacements_ok S' \<and>
    distinct (map fst taken) \<and>
    (\<forall>successor r. (successor, r) \<in> set taken \<longleftrightarrow>
       fmlookup (oi_by_child (rr_pending S)) successor = Some r \<and> rpl_session r = session) \<and>
    (\<forall>successor. replacement_contains successor S' \<longleftrightarrow>
       replacement_contains successor S \<and> successor \<notin> fst ` set taken)"
proof -
  obtain taken i' where t: "owner_take_owner session (rr_pending S) = Some (taken, i')" "owner_index_ok rpl_session i'"
    "distinct (map fst taken)"
    "\<forall>c r. (c, r) \<in> set taken \<longleftrightarrow> fmlookup (oi_by_child (rr_pending S)) c = Some r \<and> rpl_session r = session"
    and rest: "fmlookup (oi_by_child i') = (\<lambda>c. if \<exists>r. fmlookup (oi_by_child (rr_pending S)) c = Some r \<and> rpl_session r = session
      then None else fmlookup (oi_by_child (rr_pending S)) c)"
    using child_index.take_all[OF assms[unfolded replacements_ok_def, THEN conjunct1], of session] by (elim exE conjE)
  let ?S' = "\<lparr>rr_pending = i'\<rparr>"
  have "take_for_session session S = Some (taken, ?S')" using t(1) by (simp add: take_for_session_def)
  moreover have "replacements_ok ?S'" using t(2) rest assms by (simp add: replacements_ok_def)
  moreover have "replacement_contains successor ?S' \<longleftrightarrow> replacement_contains successor S \<and> successor \<notin> fst ` set taken" for successor
    using t(4) rest by (force simp: replacement_contains_def owner_contains_def fmlookup_dom_iff)
  ultimately show ?thesis using t(3,4) by (intro exI[of _ taken] exI[of _ ?S']) simp
qed

definition sample_replacement :: request_replacement where
  "sample_replacement = RequestReplacement (RelaySessionKey ''wss://r'' None)
     (SubId ''wss://r'' (WireToken 0) None) (SubId ''wss://r'' (WireToken 1) None)"

theorem take_for_session_exact_witness:
  "\<exists>taken S'. take_for_session (rpl_session sample_replacement) (the (replacement_insert sample_replacement replacements_default)) = Some (taken, S') \<and>
     (rpl_next sample_replacement, sample_replacement) \<in> set taken \<and> \<not> replacement_contains (rpl_next sample_replacement) S'"
proof -
  let ?S = "the (replacement_insert sample_replacement replacements_default)"
  have "\<not> replacement_contains (rpl_next sample_replacement) replacements_default"
    by (simp add: replacement_contains_def owner_contains_def replacements_default_def owner_index_new_def)
  then have "replacements_ok ?S" "fmlookup (oi_by_child (rr_pending ?S)) (rpl_next sample_replacement) = Some sample_replacement"
    using replacement_insert_spec[OF replacements_default_ok, of sample_replacement] by auto
  with take_for_session_exact[of ?S "rpl_session sample_replacement"] show ?thesis by (force simp: image_iff)
qed

end
