(* ===== verification/Coverage_Rows.thy ===== *)
theory Coverage_Rows
  imports Nostr_Event
begin

text \<open>
  \<open>crates/nmp-store/src/coverage.rs\<close> and the coverage operations of \<open>redb_store/event_ops.rs\<close>:
  proven intervals, their merge, the shrink after an eviction and the garbage collector's victim
  index.

  The \<open>coverage\<close> table is a finite map from the row key to the interval; the JSON text of a row is
  not modelled. \<open>Timestamp\<close> arithmetic belongs to the \<open>nostr\<close> crate: \<open>merge_interval\<close> takes the two
  operators as parameters, with the hypothesis \<open>saturating_timestamps\<close> that the source documents
  (\<open>both saturating\<close>). The row key of a claim (\<open>coverage_row_key\<close>) is a parameter as well.
  A slice whose start passes its end panics: \<open>max_within\<close> is \<open>None\<close> then.
\<close>

record coverage_interval =
  iv_from :: u64
  iv_through :: u64

definition saturating_timestamps :: "(u64 \<Rightarrow> u64 \<Rightarrow> u64) \<Rightarrow> (u64 \<Rightarrow> u64 \<Rightarrow> u64) \<Rightarrow> bool" where
  "saturating_timestamps ts_add ts_sub \<longleftrightarrow> ts_add = sat_add \<and> ts_sub = sat_sub"

definition merge_interval ::
  "(u64 \<Rightarrow> u64 \<Rightarrow> u64) \<Rightarrow> (u64 \<Rightarrow> u64 \<Rightarrow> u64) \<Rightarrow> coverage_interval option \<Rightarrow> coverage_interval \<Rightarrow>
   coverage_interval" where
  "merge_interval ts_add ts_sub existing incoming =
     (case existing of
        None \<Rightarrow> incoming
      | Some cur \<Rightarrow>
          if iv_from incoming \<le> ts_add (iv_through cur) 1 \<and> iv_through incoming \<ge> ts_sub (iv_from cur) 1
          then \<lparr>iv_from = min (iv_from cur) (iv_from incoming),
                iv_through = max (iv_through cur) (iv_through incoming)\<rparr>
          else if iv_through incoming > iv_through cur then incoming
          else cur)"

definition shrink_after_eviction :: "coverage_interval \<Rightarrow> u64 \<Rightarrow> coverage_interval option" where
  "shrink_after_eviction interval evicted_at =
     (case checked_add evicted_at 1 of
        None \<Rightarrow> None
      | Some new_from \<Rightarrow>
          if new_from > iv_through interval then None
          else Some \<lparr>iv_from = new_from, iv_through = iv_through interval\<rparr>)"

record gc_victim_index =
  vi_created_at :: "u64 list"

definition gc_victim_index_new :: "event list \<Rightarrow> gc_victim_index" where
  "gc_victim_index_new victims = \<lparr>vi_created_at = sort (map ev_created_at victims)\<rparr>"

text \<open>\<open>slice::partition_point\<close> on a slice that the predicate partitions: the length of the prefix
  that satisfies it.\<close>

definition partition_point :: "('a \<Rightarrow> bool) \<Rightarrow> 'a list \<Rightarrow> nat" where
  "partition_point p xs = length (takeWhile p xs)"

text \<open>The outer option is the panic of the slice expression \<open>created_at[start..end]\<close>.\<close>

definition max_within :: "gc_victim_index \<Rightarrow> coverage_interval \<Rightarrow> u64 option option" where
  "max_within index interval =
     (let start = partition_point (\<lambda>t. t < iv_from interval) (vi_created_at index);
          stop = partition_point (\<lambda>t. t \<le> iv_through interval) (vi_created_at index)
      in if start > stop then None
         else (case take (stop - start) (drop start (vi_created_at index)) of
                 [] \<Rightarrow> Some None
               | part \<Rightarrow> Some (Some (last part))))"

text \<open>Retention: claims are window-erased before they match.\<close>

definition gc_retention_set_new :: "concrete_filter list \<Rightarrow> concrete_filter list" where
  "gc_retention_set_new claims = map window_erase claims"

definition is_claimed ::
  "(concrete_filter \<Rightarrow> event \<Rightarrow> bool) \<Rightarrow> concrete_filter list \<Rightarrow> event \<Rightarrow> bool" where
  "is_claimed m claims event \<longleftrightarrow> list_ex (\<lambda>c. m c event) claims"

section \<open>The coverage table\<close>

type_synonym coverage_table = "(string, coverage_interval) fmap"

definition record_claim ::
  "(u64 \<Rightarrow> u64 \<Rightarrow> u64) \<Rightarrow> (u64 \<Rightarrow> u64 \<Rightarrow> u64) \<Rightarrow> (coverage_key \<Rightarrow> relay_session_key \<Rightarrow> string) \<Rightarrow>
   coverage_key \<times> relay_session_key \<times> coverage_interval \<Rightarrow> coverage_table \<Rightarrow> coverage_table" where
  "record_claim ts_add ts_sub row_key claim table =
     (let (key, session, proven) = claim
      in fmupd (row_key key session)
           (merge_interval ts_add ts_sub (fmlookup table (row_key key session)) proven) table)"

definition record_coverage ::
  "(u64 \<Rightarrow> u64 \<Rightarrow> u64) \<Rightarrow> (u64 \<Rightarrow> u64 \<Rightarrow> u64) \<Rightarrow> (coverage_key \<Rightarrow> relay_session_key \<Rightarrow> string) \<Rightarrow>
   (coverage_key \<times> relay_session_key \<times> coverage_interval) list \<Rightarrow> coverage_table \<Rightarrow> coverage_table" where
  "record_coverage ts_add ts_sub row_key claims table =
     fold (record_claim ts_add ts_sub row_key) claims table"

definition get_coverage ::
  "(coverage_key \<Rightarrow> relay_session_key \<Rightarrow> string) \<Rightarrow> coverage_table \<Rightarrow> coverage_key \<Rightarrow>
   relay_session_key \<Rightarrow> coverage_interval option" where
  "get_coverage row_key table key session = fmlookup table (row_key key session)"

text \<open>The second pass of \<open>gc\<close>: one look at every row, then the collected updates. The result is the
  table with the counts of shrunk and deleted rows; \<open>None\<close> is the panic of \<open>max_within\<close>.\<close>

definition row_update ::
  "gc_victim_index \<Rightarrow> string \<times> coverage_interval \<Rightarrow> (string \<times> coverage_interval option) list option" where
  "row_update index row =
     (let (row_key, interval) = row
      in case max_within index interval of
           None \<Rightarrow> None
         | Some None \<Rightarrow> Some []
         | Some (Some m) \<Rightarrow> Some [(row_key, shrink_after_eviction interval m)])"

fun row_updates ::
  "gc_victim_index \<Rightarrow> (string \<times> coverage_interval) list \<Rightarrow> (string \<times> coverage_interval option) list option" where
  "row_updates index [] = Some []"
| "row_updates index (row # rows) =
     (case row_update index row of
        None \<Rightarrow> None
      | Some us \<Rightarrow> map_option (\<lambda>rest. us @ rest) (row_updates index rows))"

fun apply_row_update ::
  "string \<times> coverage_interval option \<Rightarrow> coverage_table \<times> nat \<times> nat \<Rightarrow> coverage_table \<times> nat \<times> nat" where
  "apply_row_update (row_key, None) (table, shrunk, deleted) = (fmdrop row_key table, shrunk, deleted + 1)"
| "apply_row_update (row_key, Some next) (table, shrunk, deleted) = (fmupd row_key next table, shrunk + 1, deleted)"

definition shrink_coverage_rows :: "event list \<Rightarrow> coverage_table \<Rightarrow> (coverage_table \<times> nat \<times> nat) option" where
  "shrink_coverage_rows victims table =
     map_option (\<lambda>us. fold apply_row_update us (table, 0, 0))
       (row_updates (gc_victim_index_new victims) (sorted_list_of_fmap table))"

section \<open>Merging\<close>

definition interval_times :: "coverage_interval \<Rightarrow> u64 set" where
  "interval_times iv = {t. iv_from iv \<le> t \<and> t \<le> iv_through iv}"

lemma le_sat_succ: "a \<le> sat_add b (1 :: u64) \<longleftrightarrow> unat a \<le> unat b + 1"
proof -
  have "unat a \<le> 2 ^ 64 - 1" using unsigned_less[of a, where ?'a = nat] by simp
  then show ?thesis by (auto simp: word_le_nat_alt unat_sat_add)
qed

lemma sat_pred_le: "sat_sub b (1 :: u64) \<le> a \<longleftrightarrow> unat b \<le> unat a + 1"
  by (auto simp: word_le_nat_alt unat_sat_sub)

lemma unat_min_max: "unat (min a b) = min (unat a) (unat b)" "unat (max a b) = max (unat a) (unat (b :: 'a::len word))"
  by (auto simp: min_def max_def word_le_nat_alt)

text \<open>C32: A merge never claims time that neither operand proved. Touching intervals give exactly
  their union, disjoint ones the interval with the later end; this also holds of an interval whose
  start lies after its end.\<close>

theorem merge_interval_sound:
  assumes "saturating_timestamps ts_add ts_sub"
  shows "interval_times (merge_interval ts_add ts_sub (Some cur) incoming) =
    (if iv_from incoming \<le> ts_add (iv_through cur) 1 \<and> ts_sub (iv_from cur) 1 \<le> iv_through incoming
     then interval_times cur \<union> interval_times incoming
     else if iv_through cur < iv_through incoming then interval_times incoming else interval_times cur)"
proof -
  have "min (unat (iv_from cur)) (unat (iv_from incoming)) \<le> unat t \<and> unat t \<le> max (unat (iv_through cur)) (unat (iv_through incoming)) \<longleftrightarrow>
      unat (iv_from cur) \<le> unat t \<and> unat t \<le> unat (iv_through cur) \<or>
      unat (iv_from incoming) \<le> unat t \<and> unat t \<le> unat (iv_through incoming)"
    if "unat (iv_from incoming) \<le> unat (iv_through cur) + 1" "unat (iv_from cur) \<le> unat (iv_through incoming) + 1" for t :: u64
    using that by linarith
  then have "interval_times \<lparr>iv_from = min (iv_from cur) (iv_from incoming), iv_through = max (iv_through cur) (iv_through incoming)\<rparr> =
      interval_times cur \<union> interval_times incoming"
    if "iv_from incoming \<le> sat_add (iv_through cur) 1" "sat_sub (iv_from cur) 1 \<le> iv_through incoming"
    using that unfolding le_sat_succ sat_pred_le
    by (auto simp: interval_times_def word_le_nat_alt unat_min_max)
  then show ?thesis using assms by (simp add: merge_interval_def saturating_timestamps_def)
qed

theorem merge_interval_sound_witness:
  "interval_times (merge_interval sat_add sat_sub (Some \<lparr>iv_from = 0, iv_through = 10\<rparr>) \<lparr>iv_from = 11, iv_through = 20\<rparr>) =
     interval_times \<lparr>iv_from = 0, iv_through = 10\<rparr> \<union> interval_times \<lparr>iv_from = 11, iv_through = 20\<rparr>"
  using merge_interval_sound[of sat_add sat_sub "\<lparr>iv_from = 0, iv_through = 10\<rparr>" "\<lparr>iv_from = 11, iv_through = 20\<rparr>"]
  by (simp add: saturating_timestamps_def le_sat_succ sat_pred_le)

section \<open>Eviction\<close>

lemma sorted_takeWhile_filter:
  assumes "sorted xs" "\<And>x y. x \<le> y \<Longrightarrow> P y \<Longrightarrow> P x"
  shows "takeWhile P xs = filter P xs"
  using assms(1)
proof (induction xs)
  case (Cons x xs)
  then have "\<not> P x \<Longrightarrow> filter P xs = []" using assms(2)[of x] by (auto simp: filter_empty_conv)
  then show ?case using Cons by auto
qed simp

lemma sorted_dropWhile_filter:
  assumes "sorted xs" "\<And>x y. x \<le> y \<Longrightarrow> P y \<Longrightarrow> P x"
  shows "dropWhile P xs = filter (\<lambda>x. \<not> P x) xs"
  using assms(1)
proof (induction xs)
  case (Cons x xs)
  then have "\<not> P x \<Longrightarrow> filter (\<lambda>x. \<not> P x) xs = xs" using assms(2)[of x] by (intro filter_True) auto
  then show ?case using Cons by auto
qed simp

lemma sorted_le_last: "sorted xs \<Longrightarrow> x \<in> set xs \<Longrightarrow> x \<le> last xs"
  by (induction xs) (auto simp: last_in_set)

lemma max_within_slice:
  assumes "sorted xs" "a \<le> b"
  shows "partition_point (\<lambda>t. t < a) xs \<le> partition_point (\<lambda>t. t \<le> b) xs"
    and "take (partition_point (\<lambda>t. t \<le> b) xs - partition_point (\<lambda>t. t < a) xs) (drop (partition_point (\<lambda>t. t < a) xs) xs) =
      filter (\<lambda>t. a \<le> t \<and> t \<le> b) (xs :: u64 list)"
proof -
  let ?ys = "takeWhile (\<lambda>t. t \<le> b) xs"
  have ys: "?ys = filter (\<lambda>t. t \<le> b) xs" using assms(1) by (intro sorted_takeWhile_filter) auto
  have low: "takeWhile (\<lambda>t. t < a) zs = filter (\<lambda>t. t < a) zs" "dropWhile (\<lambda>t. t < a) zs = filter (\<lambda>t. \<not> t < a) zs"
    if "sorted zs" for zs :: "u64 list"
    using that by (intro sorted_takeWhile_filter sorted_dropWhile_filter; auto)+
  have sys: "sorted ?ys" using assms(1) by (simp add: ys sorted_filter[where f = id, simplified])
  have "filter (\<lambda>t. t < a) ?ys = filter (\<lambda>t. t < a) xs"
    unfolding ys filter_filter using assms(2) by (intro filter_cong) auto
  then have same: "takeWhile (\<lambda>t. t < a) ?ys = takeWhile (\<lambda>t. t < a) xs" using low(1) assms(1) sys by simp
  show "partition_point (\<lambda>t. t < a) xs \<le> partition_point (\<lambda>t. t \<le> b) xs"
    unfolding partition_point_def same[symmetric] by (rule length_takeWhile_le)
  have "take (length ?ys - length (takeWhile (\<lambda>t. t < a) xs)) (drop (length (takeWhile (\<lambda>t. t < a) xs)) xs) =
      drop (length (takeWhile (\<lambda>t. t < a) xs)) (take (length ?ys) xs)"
    by (rule drop_take[symmetric])
  also have "\<dots> = drop (length (takeWhile (\<lambda>t. t < a) ?ys)) ?ys"
    by (simp add: same takeWhile_eq_take[symmetric])
  also have "\<dots> = filter (\<lambda>t. \<not> t < a) ?ys" by (simp add: dropWhile_eq_drop[symmetric] low(2)[OF sys])
  also have "\<dots> = filter (\<lambda>t. a \<le> t \<and> t \<le> b) xs"
    unfolding ys filter_filter by (intro filter_cong) auto
  finally show "take (partition_point (\<lambda>t. t \<le> b) xs - partition_point (\<lambda>t. t < a) xs) (drop (partition_point (\<lambda>t. t < a) xs) xs) =
      filter (\<lambda>t. a \<le> t \<and> t \<le> b) xs"
    by (simp add: partition_point_def)
qed

text \<open>The per-event rule the index replaces: evict one timestamp after the other.\<close>

definition evict_step :: "u64 \<Rightarrow> coverage_interval option \<Rightarrow> coverage_interval option" where
  "evict_step v row = Option.bind row
     (\<lambda>iv. if v \<in> interval_times iv then shrink_after_eviction iv v else Some iv)"

definition row_times :: "coverage_interval option \<Rightarrow> u64 set" where
  "row_times row = (case row of None \<Rightarrow> {} | Some iv \<Rightarrow> interval_times iv)"

definition row_wf :: "coverage_interval option \<Rightarrow> bool" where
  "row_wf row \<longleftrightarrow> (case row of None \<Rightarrow> True | Some iv \<Rightarrow> iv_from iv \<le> iv_through iv)"

lemma row_times_inject:
  assumes "row_wf r" "row_wf r'" "row_times r = row_times r'"
  shows "r = r'"
proof (cases r; cases r')
  fix iv iv' assume r: "r = Some iv" "r' = Some iv'"
  have "iv_from iv \<in> row_times r" "iv_through iv \<in> row_times r" "iv_from iv' \<in> row_times r'" "iv_through iv' \<in> row_times r'"
    using assms(1,2) r by (auto simp: row_times_def row_wf_def interval_times_def)
  then have "iv_from iv = iv_from iv'" "iv_through iv = iv_through iv'"
    using assms(3) r by (auto simp: row_times_def interval_times_def intro: antisym)
  then show ?thesis using r by simp
qed (use assms in \<open>auto simp: row_times_def row_wf_def interval_times_def\<close>)

lemma unat_checked_succ: "checked_add v (1 :: u64) = Some w \<Longrightarrow> unat w = unat v + 1"
  by (auto simp: checked_add_def unat_word_ariths split: if_splits)

lemma shrink_after_eviction_times:
  assumes "v \<in> interval_times iv"
  shows "row_times (shrink_after_eviction iv v) = {t \<in> interval_times iv. v < t}"
    and "row_wf (shrink_after_eviction iv v)"
proof -
  show "row_times (shrink_after_eviction iv v) = {t \<in> interval_times iv. v < t}"
  proof (cases "checked_add v 1")
    case None
    then have "unat v + 1 = 2 ^ 64" using unsigned_less[of v, where ?'a = nat] by (auto simp: checked_add_def split: if_splits)
    then have "\<not> v < t" for t using unsigned_less[of t, where ?'a = nat] by (auto simp: word_less_nat_alt)
    then show ?thesis using None by (simp add: shrink_after_eviction_def row_times_def)
  next
    case (Some w)
    have w: "v < t \<longleftrightarrow> w \<le> t" for t
      using unat_checked_succ[OF Some] by (auto simp: word_le_nat_alt word_less_nat_alt)
    have "iv_from iv \<le> v" using assms by (simp add: interval_times_def)
    then have lower: "w \<le> t \<Longrightarrow> iv_from iv \<le> t" for t using w[of t] by (meson less_imp_le order.trans)
    show ?thesis
    proof (cases "w > iv_through iv")
      case True
      then have "\<not> (t \<le> iv_through iv \<and> w \<le> t)" for t by auto
      then show ?thesis using True Some by (auto simp: shrink_after_eviction_def row_times_def interval_times_def w)
    next
      case False
      then show ?thesis using lower Some by (auto simp: shrink_after_eviction_def row_times_def interval_times_def w)
    qed
  qed
  show "row_wf (shrink_after_eviction iv v)"
    by (auto simp: shrink_after_eviction_def row_wf_def split: option.split)
qed

lemma evict_step_times:
  assumes "row_wf r"
  shows "row_times (evict_step v r) = {t \<in> row_times r. v \<in> row_times r \<longrightarrow> v < t}" "row_wf (evict_step v r)"
  using assms shrink_after_eviction_times
  by (cases r; auto simp: evict_step_def row_times_def)+

lemma evict_steps_times:
  assumes "row_wf r"
  shows "row_times (fold evict_step vs r) = {t \<in> row_times r. \<forall>v \<in> set vs. v \<in> row_times r \<longrightarrow> v < t} \<and>
    row_wf (fold evict_step vs r)"
  using assms
proof (induction vs arbitrary: r)
  case (Cons v vs)
  note st = evict_step_times[OF Cons.prems, of v]
  have "row_times (fold evict_step (v # vs) r) =
      {t \<in> row_times (evict_step v r). \<forall>u \<in> set vs. u \<in> row_times (evict_step v r) \<longrightarrow> u < t}"
    using Cons.IH[OF st(2)] by simp
  also have "\<dots> = {t \<in> row_times r. \<forall>u \<in> set (v # vs). u \<in> row_times r \<longrightarrow> u < t}"
    unfolding st(1) by (auto dest: order.strict_trans2[OF _ leI] intro: order.strict_trans1[OF leI])
  finally show ?case using Cons.IH[OF st(2)] by simp
qed simp

definition evict_at_max :: "event list \<Rightarrow> coverage_interval \<Rightarrow> coverage_interval option option" where
  "evict_at_max victims iv =
     map_option (\<lambda>m. case m of None \<Rightarrow> Some iv | Some t \<Rightarrow> shrink_after_eviction iv t)
       (max_within (gc_victim_index_new victims) iv)"

lemma max_within_cases:
  assumes "iv_from iv \<le> iv_through iv"
  obtains "max_within (gc_victim_index_new victims) iv = Some None"
      "\<forall>v \<in> set victims. ev_created_at v \<notin> interval_times iv"
    | m where "max_within (gc_victim_index_new victims) iv = Some (Some m)"
      "m \<in> interval_times iv" "m \<in> ev_created_at ` set victims"
      "\<forall>v \<in> set victims. ev_created_at v \<in> interval_times iv \<longrightarrow> ev_created_at v \<le> m"
proof -
  let ?xs = "sort (map ev_created_at victims)"
  let ?part = "filter (\<lambda>t. iv_from iv \<le> t \<and> t \<le> iv_through iv) ?xs"
  note sl = max_within_slice[of ?xs, OF sorted_sort assms]
  have mw: "max_within (gc_victim_index_new victims) iv = (case ?part of [] \<Rightarrow> Some None | part \<Rightarrow> Some (Some (last part)))"
    using sl by (simp add: max_within_def gc_victim_index_new_def Let_def)
  have mem: "set ?part = {t \<in> ev_created_at ` set victims. t \<in> interval_times iv}"
    by (auto simp: interval_times_def)
  show thesis
  proof (cases "?part = []")
    case True
    then show thesis using that(1) mw mem by auto
  next
    case False
    then have "last ?part \<in> set ?part" by (rule last_in_set)
    moreover have "sorted ?part" by (simp add: sorted_filter[where f = id, simplified])
    then have "\<forall>t \<in> set ?part. t \<le> last ?part" using sorted_le_last by blast
    moreover have "max_within (gc_victim_index_new victims) iv = Some (Some (last ?part))"
      using False mw by (cases ?part) auto
    ultimately show thesis using that(2)[of "last ?part"] mem by auto
  qed
qed

lemma evict_at_max_times:
  assumes "iv_from iv \<le> iv_through iv"
  shows "\<exists>r. evict_at_max victims iv = Some r \<and> row_wf r \<and>
    row_times r = {t \<in> interval_times iv. \<forall>v \<in> ev_created_at ` set victims. v \<in> interval_times iv \<longrightarrow> v < t}"
  using assms
proof (cases rule: max_within_cases[of iv victims])
  case 1
  then show ?thesis using assms by (auto simp: evict_at_max_def row_wf_def row_times_def)
next
  case (2 m)
  then have "row_times (shrink_after_eviction iv m) = {t \<in> interval_times iv. m < t}" "row_wf (shrink_after_eviction iv m)"
    using shrink_after_eviction_times by auto
  then show ?thesis using 2 by (fastforce simp: evict_at_max_def)
qed

lemma evict_at_max_sequential:
  assumes "iv_from iv \<le> iv_through iv" "mset order = mset (map ev_created_at victims)"
  shows "evict_at_max victims iv = Some (fold evict_step order (Some iv)) \<and>
    row_times (fold evict_step order (Some iv)) =
      {t \<in> interval_times iv. \<forall>v \<in> ev_created_at ` set victims. v \<in> interval_times iv \<longrightarrow> v < t}"
proof -
  have set: "set order = ev_created_at ` set victims" using arg_cong[OF assms(2), of set_mset] by simp
  have seq: "row_times (fold evict_step order (Some iv)) =
      {t \<in> interval_times iv. \<forall>v \<in> ev_created_at ` set victims. v \<in> interval_times iv \<longrightarrow> v < t}"
    "row_wf (fold evict_step order (Some iv))"
    using evict_steps_times[of "Some iv" order] assms(1) set by (simp_all add: row_wf_def row_times_def)
  obtain r where r: "evict_at_max victims iv = Some r" "row_wf r" "row_times r =
      {t \<in> interval_times iv. \<forall>v \<in> ev_created_at ` set victims. v \<in> interval_times iv \<longrightarrow> v < t}"
    using evict_at_max_times[OF assms(1)] by blast
  have "r = fold evict_step order (Some iv)" using row_times_inject[OF r(2) seq(2)] r(3) seq(1) by simp
  then show ?thesis using r(1) seq(1) by simp
qed

text \<open>The victim index is exact. For a row that proves a non-empty interval, one shrink at the
  greatest victim inside it gives the row that evicting every victim one after the other gives, in
  any order; what stays covered is exactly the part after the last evicted timestamp.\<close>

theorem gc_row_equals_sequential:
  assumes "iv_from iv \<le> iv_through iv" "mset order = mset (map ev_created_at victims)"
  shows "evict_at_max victims iv = Some (fold evict_step order (Some iv)) \<and>
    row_times (fold evict_step order (Some iv)) =
      {t \<in> interval_times iv. \<forall>v \<in> ev_created_at ` set victims. v \<in> interval_times iv \<longrightarrow> v < t}"
  by (rule evict_at_max_sequential[OF assms])

definition example_event :: "string \<Rightarrow> u64 \<Rightarrow> event" where
  "example_event i t = \<lparr>ev_id = i, ev_pubkey = ''pk'', ev_created_at = t, ev_kind = 1, ev_tags = [], ev_content = [], ev_sig = []\<rparr>"

theorem gc_row_equals_sequential_witness:
  "evict_at_max [example_event ''a'' 5, example_event ''b'' 3] \<lparr>iv_from = 0, iv_through = 9\<rparr> =
     Some (fold evict_step [3, 5] (Some \<lparr>iv_from = 0, iv_through = 9\<rparr>))"
  using gc_row_equals_sequential[of "\<lparr>iv_from = 0, iv_through = 9\<rparr>" "[3, 5]" "[example_event ''a'' 5, example_event ''b'' 3]"]
  by (simp add: example_event_def)

lemma apply_row_updates_lookup:
  assumes "distinct (map fst us)" "fold apply_row_update us (table, s, d) = (table', s', d')"
  shows "fmlookup table' k = (case map_of us k of None \<Rightarrow> fmlookup table k | Some u \<Rightarrow> u)"
  using assms
proof (induction us arbitrary: table s d)
  case (Cons x us)
  obtain key u where x: "x = (key, u)" by (cases x)
  have key: "map_of us key = None" using Cons.prems(1) x by (simp add: map_of_eq_None_iff)
  show ?case
    using Cons.IH[of "case u of None \<Rightarrow> fmdrop key table | Some next \<Rightarrow> fmupd key next table"] Cons.prems x key
    by (cases u) (auto split: option.splits)
qed simp

lemma row_updates_result:
  assumes "\<forall>(k, iv) \<in> set rows. iv_from iv \<le> iv_through iv" "distinct (map fst rows)"
  shows "\<exists>us. row_updates (gc_victim_index_new victims) rows = Some us \<and> distinct (map fst us) \<and>
    fst ` set us \<subseteq> fst ` set rows \<and>
    (\<forall>k iv. map_of rows k = Some iv \<longrightarrow>
       (case map_of us k of None \<Rightarrow> Some iv | Some u \<Rightarrow> u) = the (evict_at_max victims iv))"
  using assms
proof (induction rows)
  case (Cons row rows)
  obtain key iv where row: "row = (key, iv)" by (cases row)
  obtain us where us: "row_updates (gc_victim_index_new victims) rows = Some us" "distinct (map fst us)"
    "fst ` set us \<subseteq> fst ` set rows"
    "\<forall>k iv. map_of rows k = Some iv \<longrightarrow>
       (case map_of us k of None \<Rightarrow> Some iv | Some u \<Rightarrow> u) = the (evict_at_max victims iv)"
    using Cons by auto
  have key: "key \<notin> fst ` set us" "map_of us key = None" "map_of rows key = None"
    using us(3) Cons.prems(2) row by (auto simp: map_of_eq_None_iff)
  have wf: "iv_from iv \<le> iv_through iv" using Cons.prems(1) row by simp
  obtain u where u: "row_update (gc_victim_index_new victims) row = Some u" "u = [] \<or> (\<exists>r. u = [(key, r)])"
    "(case map_of u key of None \<Rightarrow> Some iv | Some r \<Rightarrow> r) = the (evict_at_max victims iv)"
    by (rule max_within_cases[OF wf, of victims]) (auto simp: row_update_def row evict_at_max_def)
  show ?case
  proof (intro exI[of _ "u @ us"] conjI allI impI)
    show "row_updates (gc_victim_index_new victims) (row # rows) = Some (u @ us)" using u(1) us(1) by simp
    show "distinct (map fst (u @ us))" "fst ` set (u @ us) \<subseteq> fst ` set (row # rows)"
      using u(2) us(2,3) key(1) row by (auto simp: image_iff)
    fix k iv' assume "map_of (row # rows) k = Some iv'"
    then show "(case map_of (u @ us) k of None \<Rightarrow> Some iv' | Some r \<Rightarrow> r) = the (evict_at_max victims iv')"
      using u(2,3) us(4) key row by (auto split: if_splits)
  qed
qed simp

lemma shrink_coverage_rows_result:
  assumes "\<forall>k iv. fmlookup table k = Some iv \<longrightarrow> iv_from iv \<le> iv_through iv"
  shows "\<exists>table' shrunk deleted. shrink_coverage_rows victims table = Some (table', shrunk, deleted) \<and>
    (\<forall>k. fmlookup table' k =
       Option.bind (fmlookup table k) (\<lambda>iv. fold evict_step (map ev_created_at victims) (Some iv))) \<and>
    (\<forall>k iv v. fmlookup table' k = Some iv \<longrightarrow> v \<in> set victims \<longrightarrow> ev_created_at v \<notin> interval_times iv)"
proof -
  let ?rows = "sorted_list_of_fmap table"
  have wf: "\<forall>(k, iv) \<in> set ?rows. iv_from iv \<le> iv_through iv"
    using assms by (auto simp: set_sorted_list_of_fmap)
  obtain us where us: "row_updates (gc_victim_index_new victims) ?rows = Some us" "distinct (map fst us)"
    "fst ` set us \<subseteq> fst ` set ?rows"
    "\<forall>k iv. map_of ?rows k = Some iv \<longrightarrow>
       (case map_of us k of None \<Rightarrow> Some iv | Some u \<Rightarrow> u) = the (evict_at_max victims iv)"
    using row_updates_result[OF wf distinct_map_fst_sorted_list_of_fmap] by blast
  obtain table' s d where t: "fold apply_row_update us (table, 0, 0) = (table', s, d)" by (metis prod_cases3)
  have absent: "map_of us k = None" if "fmlookup table k = None" for k
    using us(3) that by (force simp: map_of_eq_None_iff set_sorted_list_of_fmap)
  have lk: "fmlookup table' k = Option.bind (fmlookup table k) (\<lambda>iv. fold evict_step (map ev_created_at victims) (Some iv))" for k
  proof (cases "fmlookup table k")
    case None
    then show ?thesis using apply_row_updates_lookup[OF us(2) t, of k] absent by simp
  next
    case (Some iv)
    then have "the (evict_at_max victims iv) = fold evict_step (map ev_created_at victims) (Some iv)"
      using evict_at_max_sequential[of iv "map ev_created_at victims" victims] assms by simp
    then show ?thesis using apply_row_updates_lookup[OF us(2) t, of k] us(4)[rule_format, of k iv] Some
      by (simp add: map_of_sorted_list_of_fmap split: option.splits)
  qed
  have "ev_created_at v \<notin> interval_times iv" if hit: "fmlookup table' k = Some iv" "v \<in> set victims" for k iv v
  proof -
    obtain iv0 where iv0: "fmlookup table k = Some iv0" "fold evict_step (map ev_created_at victims) (Some iv0) = Some iv"
      using hit(1)[unfolded lk] by (auto simp: bind_eq_Some_conv)
    have "interval_times iv = {t \<in> interval_times iv0. \<forall>v \<in> ev_created_at ` set victims. v \<in> interval_times iv0 \<longrightarrow> v < t}"
      using evict_steps_times[of "Some iv0" "map ev_created_at victims"] iv0 assms
      by (simp add: row_wf_def row_times_def)
    then show ?thesis using hit(2) by auto
  qed
  then show ?thesis using lk us(1) t by (auto simp: shrink_coverage_rows_def)
qed

lemma max_within_None:
  "max_within (gc_victim_index_new victims) iv = None \<longleftrightarrow>
     (\<exists>v \<in> set victims. iv_through iv < ev_created_at v \<and> ev_created_at v < iv_from iv)"
proof -
  let ?xs = "sort (map ev_created_at victims)"
  let ?low = "filter (\<lambda>t. t < iv_from iv) ?xs" and ?gap = "filter (\<lambda>t. iv_through iv < t \<and> t < iv_from iv) ?xs"
  have points: "partition_point (\<lambda>t. t < iv_from iv) ?xs = length ?low"
    "partition_point (\<lambda>t. t \<le> iv_through iv) ?xs = length (filter (\<lambda>t. t \<le> iv_through iv) ?xs)"
    unfolding partition_point_def by (subst sorted_takeWhile_filter; auto)+
  have gap: "?gap \<noteq> [] \<longleftrightarrow> (\<exists>v \<in> set victims. iv_through iv < ev_created_at v \<and> ev_created_at v < iv_from iv)" by (auto simp: filter_empty_conv)
  have "length ?low > length (filter (\<lambda>t. t \<le> iv_through iv) ?xs) \<longleftrightarrow> ?gap \<noteq> []"
  proof (cases "iv_from iv \<le> iv_through iv")
    case True
    then have "?gap = []" by (auto simp: filter_empty_conv)
    then show ?thesis using max_within_slice(1)[OF sorted_sort True, of "map ev_created_at victims"] points by simp
  next
    case False
    then have "filter (\<lambda>t. t \<le> iv_through iv) ?low = filter (\<lambda>t. t \<le> iv_through iv) ?xs"
      "filter (\<lambda>t. \<not> t \<le> iv_through iv) ?low = ?gap" unfolding filter_filter by (auto intro!: filter_cong)
    then have split: "length (filter (\<lambda>t. t \<le> iv_through iv) ?xs) + length ?gap = length ?low"
      using sum_length_filter_compl[of "\<lambda>t. t \<le> iv_through iv" ?low] by simp
    show ?thesis unfolding split[symmetric] by (simp only: less_add_same_cancel1 length_greater_0_conv)
  qed
  then have "max_within (gc_victim_index_new victims) iv = None \<longleftrightarrow> ?gap \<noteq> []"
    by (simp add: max_within_def gc_victim_index_new_def Let_def points split: list.split)
  then show ?thesis unfolding gap .
qed

text \<open>The second pass panics exactly on a row that starts after it ends, with a victim strictly between
  the two.\<close>

lemma shrink_coverage_rows_None:
  "shrink_coverage_rows victims table = None \<longleftrightarrow>
     (\<exists>k iv. fmlookup table k = Some iv \<and> (\<exists>v \<in> set victims. iv_through iv < ev_created_at v \<and> ev_created_at v < iv_from iv))"
proof -
  have "row_updates index rows = None \<longleftrightarrow> (\<exists>(k, iv) \<in> set rows. max_within index iv = None)" for index rows
    by (induction index rows rule: row_updates.induct) (auto simp: row_update_def split: option.splits)
  then show ?thesis by (force simp: shrink_coverage_rows_def set_sorted_list_of_fmap max_within_None)
qed

text \<open>C31: Garbage collection leaves an honest watermark. Over a table of non-empty intervals the
  second pass never panics, every row becomes what evicting the victims one by one makes of it, and
  no remaining row claims the timestamp of an evicted event.\<close>

theorem shrink_coverage_rows_sound:
  assumes "\<forall>k iv. fmlookup table k = Some iv \<longrightarrow> iv_from iv \<le> iv_through iv"
  shows "\<exists>table' shrunk deleted. shrink_coverage_rows victims table = Some (table', shrunk, deleted) \<and>
    (\<forall>k. fmlookup table' k =
       Option.bind (fmlookup table k) (\<lambda>iv. fold evict_step (map ev_created_at victims) (Some iv))) \<and>
    (\<forall>k iv v. fmlookup table' k = Some iv \<longrightarrow> v \<in> set victims \<longrightarrow> ev_created_at v \<notin> interval_times iv)"
  by (rule shrink_coverage_rows_result[OF assms])

theorem shrink_coverage_rows_sound_witness:
  "\<exists>table' shrunk deleted. shrink_coverage_rows [example_event ''a'' 5]
     (fmupd ''row'' \<lparr>iv_from = 0, iv_through = 9\<rparr> fmempty) = Some (table', shrunk, deleted)"
proof -
  have "\<forall>k iv. fmlookup (fmupd ''row'' \<lparr>iv_from = 0, iv_through = 9\<rparr> fmempty) k = Some iv \<longrightarrow> iv_from iv \<le> iv_through iv"
    by auto
  from shrink_coverage_rows_sound[OF this, of "[example_event ''a'' 5]"] show ?thesis by blast
qed

end
