(* ===== verification/Request_Attempts.thy ===== *)
theory Request_Attempts
  imports Owner_Index Coverage_Rows
begin

text \<open>
  \<open>crates/nmp-engine/src/core/request_attempt.rs\<close>: every local request-send attempt the reducer owns
  and the retries parked behind them, with four reverse indexes, and the retry delay of
  \<open>core/mod.rs\<close>.

  Every \<open>expect\<close>, \<open>panic!\<close> and \<open>assert!\<close> is the \<open>None\<close> of the operation. A \<open>RequestAttemptId\<close> is its
  counter value. The digest \<open>filter_hash\<close> is opaque. Addition of seconds to a \<open>Timestamp\<close> is the
  parameter \<open>ts_add\<close>.
\<close>

type_synonym request_attempt_id = u64
type_synonym descriptor_hash = string

record relay_handle =
  rh_slot :: u32
  rh_generation :: u64

datatype local_send_refusal = SessionUnavailable | WorkerAdmissionRefused relay_handle

datatype request_handoff_outcome =
    HandoffAccepted request_attempt_id relay_handle
  | HandoffRefused request_attempt_id local_send_refusal

fun outcome_attempt_id :: "request_handoff_outcome \<Rightarrow> request_attempt_id" where
  "outcome_attempt_id (HandoffAccepted attempt_id _) = attempt_id"
| "outcome_attempt_id (HandoffRefused attempt_id _) = attempt_id"

record request_attempt_state =
  ras_session :: relay_session_key
  ras_sub_id :: sub_id
  ras_filter_hash :: descriptor_hash
  ras_filter :: concrete_filter
  ras_coverage_claims :: "coverage_key fset"
  ras_owner_demands :: "demand_key fset"
  ras_request_revision :: "u64 option"
  ras_retry_failures :: u32

datatype request_retry_key = RequestRetryKey (rk_session: relay_session_key) (rk_sub: sub_id)

definition rk_ord :: "request_retry_key \<Rightarrow> relay_session_key \<times> sub_id" where
  "rk_ord k = (rk_session k, rk_sub k)"

lemma rk_ord_inject [simp]: "rk_ord a = rk_ord b \<longleftrightarrow> a = b"
  by (cases a; cases b) (auto simp: rk_ord_def)

instantiation request_retry_key :: linorder
begin

definition less_eq_request_retry_key :: "request_retry_key \<Rightarrow> request_retry_key \<Rightarrow> bool" where
  "less_eq_request_retry_key a b \<longleftrightarrow> rk_ord a \<le> rk_ord b"

definition less_request_retry_key :: "request_retry_key \<Rightarrow> request_retry_key \<Rightarrow> bool" where
  "less_request_retry_key a b \<longleftrightarrow> rk_ord a < rk_ord b"

instance
  by standard (auto simp: less_eq_request_retry_key_def less_request_retry_key_def simp flip: rk_ord_inject)

end

record pending_request_retry =
  prt_attempt :: request_attempt_state
  prt_due :: u64
  prt_failures :: u32

definition retry_key :: "request_attempt_state \<Rightarrow> request_retry_key option" where
  "retry_key attempt = Some (RequestRetryKey (ras_session attempt) (ras_sub_id attempt))"

record request_attempts =
  ra_attempts :: "(request_attempt_id, request_attempt_state) fmap"
  ra_by_sub :: "(sub_id, request_attempt_id fset) fmap"
  ra_by_session :: "(relay_session_key, request_attempt_id fset) fmap"
  ra_next_id :: "u64 option"
  ra_retries :: "(request_retry_key, pending_request_retry) fmap"
  ra_retry_by_sub :: "(sub_id, request_retry_key) fmap"
  ra_retries_by_session :: "(relay_session_key, request_retry_key fset) fmap"

definition attempts_new :: request_attempts where
  "attempts_new = \<lparr>ra_attempts = fmempty, ra_by_sub = fmempty, ra_by_session = fmempty, ra_next_id = Some 0,
     ra_retries = fmempty, ra_retry_by_sub = fmempty, ra_retries_by_session = fmempty\<rparr>"

definition mint :: "request_attempt_state \<Rightarrow> request_attempts \<Rightarrow> (request_attempt_id \<times> request_attempts) option" where
  "mint attempt S =
     (case ra_next_id S of
        None \<Rightarrow> None
      | Some attempt_id \<Rightarrow> Some (attempt_id,
          S\<lparr>ra_next_id := checked_add attempt_id 1,
            ra_by_sub := fm_upsert (ras_sub_id attempt) (finsert attempt_id) {|attempt_id|} (ra_by_sub S),
            ra_by_session := fm_upsert (ras_session attempt) (finsert attempt_id) {|attempt_id|} (ra_by_session S),
            ra_attempts := fmupd attempt_id attempt (ra_attempts S)\<rparr>))"

definition forget_sub_edge :: "request_attempt_id \<Rightarrow> sub_id \<Rightarrow> request_attempts \<Rightarrow> request_attempts option" where
  "forget_sub_edge attempt_id sub S =
     (case fmlookup (ra_by_sub S) sub of
        None \<Rightarrow> None
      | Some ids \<Rightarrow>
          if attempt_id |\<notin>| ids then None
          else if ids |-| {|attempt_id|} = {||} then Some (S\<lparr>ra_by_sub := fmdrop sub (ra_by_sub S)\<rparr>)
          else Some (S\<lparr>ra_by_sub := fmupd sub (ids |-| {|attempt_id|}) (ra_by_sub S)\<rparr>))"

definition forget_session_edge :: "request_attempt_id \<Rightarrow> relay_session_key \<Rightarrow> request_attempts \<Rightarrow> request_attempts option" where
  "forget_session_edge attempt_id session S =
     (case fmlookup (ra_by_session S) session of
        None \<Rightarrow> None
      | Some ids \<Rightarrow>
          if attempt_id |\<notin>| ids then None
          else if ids |-| {|attempt_id|} = {||} then Some (S\<lparr>ra_by_session := fmdrop session (ra_by_session S)\<rparr>)
          else Some (S\<lparr>ra_by_session := fmupd session (ids |-| {|attempt_id|}) (ra_by_session S)\<rparr>))"

definition attempt_remove ::
  "request_attempt_id \<Rightarrow> request_attempts \<Rightarrow> (request_attempt_state option \<times> request_attempts) option" where
  "attempt_remove attempt_id S =
     (case fmlookup (ra_attempts S) attempt_id of
        None \<Rightarrow> Some (None, S)
      | Some attempt \<Rightarrow>
          map_option (Pair (Some attempt))
            (Option.bind (forget_sub_edge attempt_id (ras_sub_id attempt) (S\<lparr>ra_attempts := fmdrop attempt_id (ra_attempts S)\<rparr>))
               (forget_session_edge attempt_id (ras_session attempt))))"

definition attempt_take ::
  "request_handoff_outcome \<Rightarrow> request_attempts \<Rightarrow> (request_attempt_state option \<times> request_attempts) option" where
  "attempt_take outcome S = attempt_remove (outcome_attempt_id outcome) S"

definition forget_retry_sub_edge :: "sub_id \<Rightarrow> request_retry_key \<Rightarrow> request_attempts \<Rightarrow> request_attempts option" where
  "forget_retry_sub_edge sub key S =
     (case fmlookup (ra_retry_by_sub S) sub of
        None \<Rightarrow> None
      | Some mapped \<Rightarrow>
          if mapped = key then Some (S\<lparr>ra_retry_by_sub := fmdrop sub (ra_retry_by_sub S)\<rparr>) else None)"

definition forget_retry_session_edge ::
  "relay_session_key \<Rightarrow> request_retry_key \<Rightarrow> request_attempts \<Rightarrow> request_attempts option" where
  "forget_retry_session_edge session key S =
     (case fmlookup (ra_retries_by_session S) session of
        None \<Rightarrow> None
      | Some keys \<Rightarrow>
          if key |\<notin>| keys then None
          else if keys |-| {|key|} = {||} then Some (S\<lparr>ra_retries_by_session := fmdrop session (ra_retries_by_session S)\<rparr>)
          else Some (S\<lparr>ra_retries_by_session := fmupd session (keys |-| {|key|}) (ra_retries_by_session S)\<rparr>))"

definition remove_retry ::
  "request_retry_key \<Rightarrow> request_attempts \<Rightarrow> (pending_request_retry option \<times> request_attempts) option" where
  "remove_retry key S =
     (case fmlookup (ra_retries S) key of
        None \<Rightarrow> Some (None, S)
      | Some pending \<Rightarrow>
          map_option (Pair (Some pending))
            (Option.bind (forget_retry_sub_edge (ras_sub_id (prt_attempt pending)) key (S\<lparr>ra_retries := fmdrop key (ra_retries S)\<rparr>))
               (forget_retry_session_edge (ras_session (prt_attempt pending)) key)))"

definition cancel_retry_for_sub :: "sub_id \<Rightarrow> request_attempts \<Rightarrow> request_attempts option" where
  "cancel_retry_for_sub sub S =
     (case fmlookup (ra_retry_by_sub S) sub of
        None \<Rightarrow> Some S
      | Some key \<Rightarrow>
          (case fmlookup (ra_retries S) key of
             None \<Rightarrow> None
           | Some pending \<Rightarrow>
               forget_retry_session_edge (ras_session (prt_attempt pending)) key
                 (S\<lparr>ra_retry_by_sub := fmdrop sub (ra_retry_by_sub S), ra_retries := fmdrop key (ra_retries S)\<rparr>)))"

text \<open>The loops of the two bulk removals.\<close>

fun retire_sub_attempts :: "request_attempt_id list \<Rightarrow> request_attempts \<Rightarrow> request_attempts option" where
  "retire_sub_attempts [] S = Some S"
| "retire_sub_attempts (attempt_id # ids) S =
     (case fmlookup (ra_attempts S) attempt_id of
        None \<Rightarrow> None
      | Some attempt \<Rightarrow>
          Option.bind (forget_session_edge attempt_id (ras_session attempt) (S\<lparr>ra_attempts := fmdrop attempt_id (ra_attempts S)\<rparr>))
            (retire_sub_attempts ids))"

definition retire_for_sub :: "sub_id \<Rightarrow> request_attempts \<Rightarrow> request_attempts option" where
  "retire_for_sub sub S =
     (let attempt_ids = (case fmlookup (ra_by_sub S) sub of None \<Rightarrow> {||} | Some ids \<Rightarrow> ids)
      in Option.bind (retire_sub_attempts (sorted_list_of_fset attempt_ids) (S\<lparr>ra_by_sub := fmdrop sub (ra_by_sub S)\<rparr>))
           (cancel_retry_for_sub sub))"

fun retire_session_attempts :: "request_attempt_id list \<Rightarrow> request_attempts \<Rightarrow> request_attempts option" where
  "retire_session_attempts [] S = Some S"
| "retire_session_attempts (attempt_id # ids) S =
     (case fmlookup (ra_attempts S) attempt_id of
        None \<Rightarrow> None
      | Some attempt \<Rightarrow>
          Option.bind (forget_sub_edge attempt_id (ras_sub_id attempt) (S\<lparr>ra_attempts := fmdrop attempt_id (ra_attempts S)\<rparr>))
            (retire_session_attempts ids))"

fun retire_session_retries :: "request_retry_key list \<Rightarrow> request_attempts \<Rightarrow> request_attempts option" where
  "retire_session_retries [] S = Some S"
| "retire_session_retries (key # keys) S =
     (case fmlookup (ra_retries S) key of
        None \<Rightarrow> None
      | Some pending \<Rightarrow>
          Option.bind (forget_retry_sub_edge (ras_sub_id (prt_attempt pending)) key (S\<lparr>ra_retries := fmdrop key (ra_retries S)\<rparr>))
            (retire_session_retries keys))"

definition retire_for_session :: "relay_session_key \<Rightarrow> request_attempts \<Rightarrow> request_attempts option" where
  "retire_for_session session S =
     (let attempt_ids = (case fmlookup (ra_by_session S) session of None \<Rightarrow> {||} | Some ids \<Rightarrow> ids)
      in Option.bind (retire_session_attempts (sorted_list_of_fset attempt_ids) (S\<lparr>ra_by_session := fmdrop session (ra_by_session S)\<rparr>))
           (\<lambda>S. let retry_keys = (case fmlookup (ra_retries_by_session S) session of None \<Rightarrow> {||} | Some keys \<Rightarrow> keys)
                in retire_session_retries (sorted_list_of_fset retry_keys)
                     (S\<lparr>ra_retries_by_session := fmdrop session (ra_retries_by_session S)\<rparr>)))"

definition RETRY_INITIAL_SECS :: u64 where "RETRY_INITIAL_SECS = 3"
definition RETRY_MAX_SECS :: u64 where "RETRY_MAX_SECS = 300"

text \<open>\<open>u64::checked_shl\<close> fails only when the amount reaches the width; bits shifted out are lost.\<close>

definition checked_shl :: "u64 \<Rightarrow> u32 \<Rightarrow> u64 option" where
  "checked_shl a n = (if unat n < 64 then Some (push_bit (unat n) a) else None)"

definition unjittered_retry_delay_secs :: "u32 \<Rightarrow> u64" where
  "unjittered_retry_delay_secs failures =
     min (case checked_shl RETRY_INITIAL_SECS (min (sat_sub failures 1) 63) of None \<Rightarrow> - 1 | Some d \<Rightarrow> d) RETRY_MAX_SECS"

definition schedule_retry ::
  "(u64 \<Rightarrow> u64 \<Rightarrow> u64) \<Rightarrow> request_attempt_state \<Rightarrow> u64 \<Rightarrow> request_attempts \<Rightarrow> request_attempts option" where
  "schedule_retry ts_add attempt now S =
     (case retry_key attempt of
        None \<Rightarrow> Some S
      | Some key \<Rightarrow>
          (let failures = sat_add (ras_retry_failures attempt) 1
           in map_option (\<lambda>(_, S). S\<lparr>
                  ra_retry_by_sub := fmupd (ras_sub_id attempt) key (ra_retry_by_sub S),
                  ra_retries_by_session := fm_upsert (ras_session attempt) (finsert key) {|key|} (ra_retries_by_session S),
                  ra_retries := fmupd key \<lparr>prt_attempt = attempt, prt_due = ts_add now (unjittered_retry_delay_secs failures),
                                            prt_failures = failures\<rparr> (ra_retries S)\<rparr>)
                (remove_retry key S)))"

definition clear_retry_for_attempt :: "request_attempt_state \<Rightarrow> request_attempts \<Rightarrow> request_attempts option" where
  "clear_retry_for_attempt attempt S =
     (case retry_key attempt of
        None \<Rightarrow> Some S
      | Some key \<Rightarrow> map_option snd (remove_retry key S))"

definition take_retry ::
  "request_retry_key \<Rightarrow> request_attempts \<Rightarrow> (pending_request_retry option \<times> request_attempts) option" where
  "take_retry key S = remove_retry key S"

definition awaiting_evidence_keys :: "request_attempts \<Rightarrow> (relay_session_key \<times> sub_id) fset" where
  "awaiting_evidence_keys S =
     fset_of_list (map (\<lambda>attempt. (ras_session attempt, ras_sub_id attempt))
       (fm_values (ra_attempts S) @ map prt_attempt (fm_values (ra_retries S))))"

definition retried_attempts_for_session :: "relay_session_key \<Rightarrow> request_attempts \<Rightarrow> request_attempt_state list" where
  "retried_attempts_for_session session S =
     filter (\<lambda>attempt. ras_session attempt = session) (map prt_attempt (fm_values (ra_retries S)))"

definition next_retry_due :: "request_attempts \<Rightarrow> u64 option" where
  "next_retry_due S =
     (case map prt_due (fm_values (ra_retries S)) of [] \<Rightarrow> None | due # rest \<Rightarrow> Some (fold min rest due))"

definition due_retry_keys :: "u64 \<Rightarrow> request_attempts \<Rightarrow> request_retry_key list" where
  "due_retry_keys now S = map fst (filter (\<lambda>(_, pending). prt_due pending \<le> now) (sorted_list_of_fmap (ra_retries S)))"

definition set_retry_failures :: "request_attempt_id \<Rightarrow> u32 \<Rightarrow> request_attempts \<Rightarrow> request_attempts option" where
  "set_retry_failures attempt_id failures S =
     (case fmlookup (ra_attempts S) attempt_id of
        None \<Rightarrow> None
      | Some attempt \<Rightarrow> Some (S\<lparr>ra_attempts := fmupd attempt_id (attempt\<lparr>ras_retry_failures := failures\<rparr>) (ra_attempts S)\<rparr>))"

section \<open>The four mirrors stay exact\<close>

text \<open>An attempt is homed when its session is the one its own \<open>SubId\<close> names: every \<open>SubId\<close> of a plan
  is allocated for the session it is filed under.\<close>

definition homed :: "request_attempt_state \<Rightarrow> bool" where
  "homed a \<longleftrightarrow> ras_session a = RelaySessionKey (sid_relay (ras_sub_id a)) (sid_authenticate_as (ras_sub_id a))"

abbreviation prt_session :: "pending_request_retry \<Rightarrow> relay_session_key" where
  "prt_session p \<equiv> ras_session (prt_attempt p)"

abbreviation prt_sub :: "pending_request_retry \<Rightarrow> sub_id" where
  "prt_sub p \<equiv> ras_sub_id (prt_attempt p)"

definition live_ok ::
  "(request_attempt_id, request_attempt_state) fmap \<Rightarrow> (sub_id, request_attempt_id fset) fmap \<Rightarrow>
   (relay_session_key, request_attempt_id fset) fmap \<Rightarrow> u64 option \<Rightarrow> bool" where
  "live_ok attempts by_sub by_session next_id \<longleftrightarrow>
     mirror_ok ras_sub_id attempts by_sub \<and> mirror_ok ras_session attempts by_session \<and>
     (\<forall>id a. fmlookup attempts id = Some a \<longrightarrow> homed a \<and> (\<forall>n. next_id = Some n \<longrightarrow> id < n))"

definition retry_sub_ok :: "(request_retry_key, pending_request_retry) fmap \<Rightarrow> (sub_id, request_retry_key) fmap \<Rightarrow> bool" where
  "retry_sub_ok retries by_sub \<longleftrightarrow>
     (\<forall>sub key. fmlookup by_sub sub = Some key \<longleftrightarrow> map_option prt_sub (fmlookup retries key) = Some sub)"

definition parked_ok ::
  "(request_retry_key, pending_request_retry) fmap \<Rightarrow> (sub_id, request_retry_key) fmap \<Rightarrow>
   (relay_session_key, request_retry_key fset) fmap \<Rightarrow> bool" where
  "parked_ok retries by_sub by_session \<longleftrightarrow>
     retry_sub_ok retries by_sub \<and> mirror_ok prt_session retries by_session \<and>
     (\<forall>key p. fmlookup retries key = Some p \<longrightarrow> homed (prt_attempt p) \<and> retry_key (prt_attempt p) = Some key)"

definition attempts_ok :: "request_attempts \<Rightarrow> bool" where
  "attempts_ok S \<longleftrightarrow>
     live_ok (ra_attempts S) (ra_by_sub S) (ra_by_session S) (ra_next_id S) \<and>
     parked_ok (ra_retries S) (ra_retry_by_sub S) (ra_retries_by_session S)"

lemma attempts_new_ok: "attempts_ok attempts_new"
  by (simp add: attempts_ok_def attempts_new_def live_ok_def parked_ok_def retry_sub_ok_def)

text \<open>The edge removals are the index's pruning on one field of the state.\<close>

lemma forget_sub_edge_eq:
  "forget_sub_edge aid sub S = map_option (\<lambda>m. S\<lparr>ra_by_sub := m\<rparr>) (prune_child sub aid (ra_by_sub S))"
  by (simp add: forget_sub_edge_def prune_child_def split: option.split)

lemma forget_session_edge_eq:
  "forget_session_edge aid session S = map_option (\<lambda>m. S\<lparr>ra_by_session := m\<rparr>) (prune_child session aid (ra_by_session S))"
  by (simp add: forget_session_edge_def prune_child_def split: option.split)

lemma forget_retry_session_edge_eq:
  "forget_retry_session_edge session key S =
     map_option (\<lambda>m. S\<lparr>ra_retries_by_session := m\<rparr>) (prune_child session key (ra_retries_by_session S))"
  by (simp add: forget_retry_session_edge_def prune_child_def split: option.split)

lemmas forget_edge_eqs = forget_sub_edge_eq forget_session_edge_eq forget_retry_session_edge_eq

lemma retry_sub_ok_drop:
  assumes "retry_sub_ok retries by_sub" "fmlookup retries key = Some p"
  shows "fmlookup by_sub (prt_sub p) = Some key" "retry_sub_ok (fmdrop key retries) (fmdrop (prt_sub p) by_sub)"
proof -
  have iff: "fmlookup by_sub sub = Some k \<longleftrightarrow> map_option prt_sub (fmlookup retries k) = Some sub" for sub k
    using assms(1) by (simp add: retry_sub_ok_def)
  show hit: "fmlookup by_sub (prt_sub p) = Some key" using assms(2) by (simp add: iff)
  have "k = key" if "map_option prt_sub (fmlookup retries k) = Some (prt_sub p)" for k
    using hit that[folded iff] by simp
  then show "retry_sub_ok (fmdrop key retries) (fmdrop (prt_sub p) by_sub)"
    using assms(2) by (auto simp: retry_sub_ok_def iff)
qed

lemma parked_ok_subset:
  assumes "parked_ok retries by_sub by_session" "retry_sub_ok retries' by_sub'" "mirror_ok prt_session retries' by_session'"
    "\<forall>key p. fmlookup retries' key = Some p \<longrightarrow> fmlookup retries key = Some p"
  shows "parked_ok retries' by_sub' by_session'"
  using assms by (auto simp: parked_ok_def)

lemma live_ok_subset:
  assumes "live_ok attempts by_sub by_session next_id" "mirror_ok ras_sub_id attempts' by_sub'"
    "mirror_ok ras_session attempts' by_session'"
    "\<forall>id a. fmlookup attempts' id = Some a \<longrightarrow> fmlookup attempts id = Some a"
  shows "live_ok attempts' by_sub' by_session' next_id"
  using assms by (auto simp: live_ok_def)

lemma attempts_okD:
  assumes "attempts_ok S"
  shows "mirror_ok ras_sub_id (ra_attempts S) (ra_by_sub S)" "mirror_ok ras_session (ra_attempts S) (ra_by_session S)"
    "retry_sub_ok (ra_retries S) (ra_retry_by_sub S)" "mirror_ok prt_session (ra_retries S) (ra_retries_by_session S)"
  using assms by (simp_all add: attempts_ok_def live_ok_def parked_ok_def)

lemma attempts_ok_live:
  assumes "attempts_ok S" "mirror_ok ras_sub_id attempts' by_sub'" "mirror_ok ras_session attempts' by_session'"
    "\<forall>aid a. fmlookup attempts' aid = Some a \<longrightarrow> fmlookup (ra_attempts S) aid = Some a"
  shows "attempts_ok (S\<lparr>ra_attempts := attempts', ra_by_sub := by_sub', ra_by_session := by_session'\<rparr>)"
  using assms live_ok_subset[OF _ assms(2,3,4)] by (auto simp: attempts_ok_def)

lemma attempts_ok_parked:
  assumes "attempts_ok S" "retry_sub_ok retries' by_sub'" "mirror_ok prt_session retries' by_session'"
    "\<forall>key p. fmlookup retries' key = Some p \<longrightarrow> fmlookup (ra_retries S) key = Some p"
  shows "attempts_ok (S\<lparr>ra_retries := retries', ra_retry_by_sub := by_sub', ra_retries_by_session := by_session'\<rparr>)"
  using assms parked_ok_subset[OF _ assms(2,3,4)] by (auto simp: attempts_ok_def)

lemma mint_ok:
  assumes "attempts_ok S" "homed attempt" "ra_next_id S = Some n"
  shows "\<exists>S'. mint attempt S = Some (n, S') \<and> attempts_ok S' \<and> ra_attempts S' = fmupd n attempt (ra_attempts S)"
proof -
  note d = attempts_okD[OF assms(1)]
  have below: "homed a \<and> aid < n" if "fmlookup (ra_attempts S) aid = Some a" for aid a
    using assms that by (simp add: attempts_ok_def live_ok_def)
  then have "fmlookup (ra_attempts S) n = None" by (metis not_None_eq order_less_irrefl)
  moreover have "n < n'" if "checked_add n 1 = Some n'" for n'
    using that by (auto simp: checked_add_Some_iff word_less_nat_alt)
  moreover have "parked_ok (ra_retries S) (ra_retry_by_sub S) (ra_retries_by_session S)"
    using assms(1) by (simp add: attempts_ok_def)
  ultimately show ?thesis
    using mirror_ok_insert[OF d(1)] mirror_ok_insert[OF d(2)] below assms(2,3)
    by (force simp: mint_def attempts_ok_def live_ok_def)
qed

lemma attempt_remove_ok:
  assumes "attempts_ok S"
  shows "\<exists>S'. attempt_remove aid S = Some (fmlookup (ra_attempts S) aid, S') \<and> attempts_ok S' \<and>
    ra_attempts S' = fmdrop aid (ra_attempts S)"
proof (cases "fmlookup (ra_attempts S) aid")
  case None
  then have "fmdrop aid (ra_attempts S) = ra_attempts S" by (intro fmap_ext) auto
  then show ?thesis using None assms by (simp add: attempt_remove_def)
next
  case (Some a)
  note d = attempts_okD[OF assms]
  obtain by_sub' where s: "prune_child (ras_sub_id a) aid (ra_by_sub S) = Some by_sub'"
      "mirror_ok ras_sub_id (fmdrop aid (ra_attempts S)) by_sub'"
    using prune_child_ok[OF d(1) Some] by (elim exE conjE)
  obtain by_session' where t: "prune_child (ras_session a) aid (ra_by_session S) = Some by_session'"
      "mirror_ok ras_session (fmdrop aid (ra_attempts S)) by_session'"
    using prune_child_ok[OF d(2) Some] by (elim exE conjE)
  have "attempts_ok (S\<lparr>ra_attempts := fmdrop aid (ra_attempts S), ra_by_sub := by_sub', ra_by_session := by_session'\<rparr>)"
    by (rule attempts_ok_live[OF assms s(2) t(2)]) (simp split: if_splits)
  then show ?thesis using Some s(1) t(1) by (simp add: attempt_remove_def forget_edge_eqs)
qed

lemma remove_retry_ok:
  assumes "attempts_ok S"
  shows "\<exists>S'. remove_retry key S = Some (fmlookup (ra_retries S) key, S') \<and> attempts_ok S' \<and>
    ra_retries S' = fmdrop key (ra_retries S) \<and> ra_attempts S' = ra_attempts S"
proof (cases "fmlookup (ra_retries S) key")
  case None
  then have "fmdrop key (ra_retries S) = ra_retries S" by (intro fmap_ext) auto
  then show ?thesis using None assms by (simp add: remove_retry_def)
next
  case (Some p)
  note d = attempts_okD[OF assms]
  note e = retry_sub_ok_drop[OF d(3) Some]
  obtain by_session' where t: "prune_child (prt_session p) key (ra_retries_by_session S) = Some by_session'"
      "mirror_ok prt_session (fmdrop key (ra_retries S)) by_session'"
    using prune_child_ok[OF d(4) Some] by (elim exE conjE)
  have "attempts_ok (S\<lparr>ra_retries := fmdrop key (ra_retries S), ra_retry_by_sub := fmdrop (prt_sub p) (ra_retry_by_sub S),
      ra_retries_by_session := by_session'\<rparr>)"
    by (rule attempts_ok_parked[OF assms e(2) t(2)]) (simp split: if_splits)
  then show ?thesis using Some e(1) t(1) by (simp add: remove_retry_def forget_retry_sub_edge_def forget_edge_eqs)
qed

lemma cancel_retry_for_sub_ok:
  assumes "attempts_ok S"
  shows "\<exists>S'. cancel_retry_for_sub sub S = Some S' \<and> attempts_ok S' \<and> fmlookup (ra_retry_by_sub S') sub = None \<and>
    ra_attempts S' = ra_attempts S"
proof (cases "fmlookup (ra_retry_by_sub S) sub")
  case None
  then show ?thesis using assms by (simp add: cancel_retry_for_sub_def)
next
  case (Some key)
  note d = attempts_okD[OF assms]
  obtain p where p: "fmlookup (ra_retries S) key = Some p" "prt_sub p = sub"
    using Some d(3) by (auto simp: retry_sub_ok_def)
  note e = retry_sub_ok_drop[OF d(3) p(1), unfolded p(2)]
  obtain by_session' where t: "prune_child (prt_session p) key (ra_retries_by_session S) = Some by_session'"
      "mirror_ok prt_session (fmdrop key (ra_retries S)) by_session'"
    using prune_child_ok[OF d(4) p(1)] by (elim exE conjE)
  have "attempts_ok (S\<lparr>ra_retries := fmdrop key (ra_retries S), ra_retry_by_sub := fmdrop sub (ra_retry_by_sub S),
      ra_retries_by_session := by_session'\<rparr>)"
    by (rule attempts_ok_parked[OF assms e(2) t(2)]) (simp split: if_splits)
  then show ?thesis using Some p t(1) by (simp add: cancel_retry_for_sub_def forget_edge_eqs attempts_ok_def)
qed

lemma schedule_retry_ok:
  assumes "attempts_ok S" "homed attempt"
  shows "\<exists>S'. schedule_retry ts_add attempt now S = Some S' \<and> attempts_ok S' \<and> ra_attempts S' = ra_attempts S \<and>
    fmlookup (ra_retries S') (RequestRetryKey (ras_session attempt) (ras_sub_id attempt)) =
      Some \<lparr>prt_attempt = attempt, prt_due = ts_add now (unjittered_retry_delay_secs (sat_add (ras_retry_failures attempt) 1)),
            prt_failures = sat_add (ras_retry_failures attempt) 1\<rparr>"
proof -
  let ?key = "RequestRetryKey (ras_session attempt) (ras_sub_id attempt)"
  obtain S0 where S0: "remove_retry ?key S = Some (fmlookup (ra_retries S) ?key, S0)" "attempts_ok S0"
      "fmlookup (ra_retries S0) ?key = None" "ra_attempts S0 = ra_attempts S"
    using remove_retry_ok[OF assms(1), of ?key] by auto
  note d = attempts_okD[OF S0(2)]
  have keyed: "homed (prt_attempt p) \<and> retry_key (prt_attempt p) = Some key" if "fmlookup (ra_retries S0) key = Some p" for key p
    using S0(2) that by (simp add: attempts_ok_def parked_ok_def)
  let ?p = "\<lparr>prt_attempt = attempt, prt_due = ts_add now (unjittered_retry_delay_secs (sat_add (ras_retry_failures attempt) 1)),
            prt_failures = sat_add (ras_retry_failures attempt) 1\<rparr>"
  have other: "prt_sub p \<noteq> ras_sub_id attempt" if "fmlookup (ra_retries S0) key = Some p" for key p
    using keyed[OF that] that S0(3) assms(2) by (auto simp: homed_def retry_key_def)
  have "retry_sub_ok (fmupd ?key ?p (ra_retries S0)) (fmupd (ras_sub_id attempt) ?key (ra_retry_by_sub S0))"
    using d(3) other S0(3) by (auto simp: retry_sub_ok_def)
  moreover have "mirror_ok prt_session (fmupd ?key ?p (ra_retries S0))
      (fm_upsert (ras_session attempt) (finsert ?key) {|?key|} (ra_retries_by_session S0))"
    using mirror_ok_insert[OF d(4) S0(3), of ?p] by simp
  ultimately have "parked_ok (fmupd ?key ?p (ra_retries S0)) (fmupd (ras_sub_id attempt) ?key (ra_retry_by_sub S0))
      (fm_upsert (ras_session attempt) (finsert ?key) {|?key|} (ra_retries_by_session S0))"
    using keyed assms(2) by (auto simp: parked_ok_def retry_key_def split: if_splits)
  then show ?thesis using S0 by (simp add: schedule_retry_def retry_key_def attempts_ok_def Let_def)
qed

text \<open>The bulk removals: one mirror is torn out first, the other is pruned child by child.\<close>

declare fmfilter_cong [cong del]

lemma fmfilter_Cons: "fmfilter (\<lambda>c. c \<notin> set (x # xs)) m = fmfilter (\<lambda>c. c \<notin> set xs) (fmdrop x m)"
  by (rule fmap_ext) auto

lemma retire_sub_attempts_ok:
  assumes "mirror_ok ras_session (ra_attempts S) (ra_by_session S)" "distinct ids" "\<forall>aid \<in> set ids. fmlookup (ra_attempts S) aid \<noteq> None"
  shows "\<exists>by_session'. retire_sub_attempts ids S =
      Some (S\<lparr>ra_attempts := fmfilter (\<lambda>c. c \<notin> set ids) (ra_attempts S), ra_by_session := by_session'\<rparr>) \<and>
    mirror_ok ras_session (fmfilter (\<lambda>c. c \<notin> set ids) (ra_attempts S)) by_session'"
  using assms
proof (induction ids arbitrary: S)
  case (Cons aid ids)
  then obtain a where a: "fmlookup (ra_attempts S) aid = Some a" by auto
  obtain r where r: "prune_child (ras_session a) aid (ra_by_session S) = Some r"
      "mirror_ok ras_session (fmdrop aid (ra_attempts S)) r"
    using prune_child_ok[OF Cons.prems(1) a] by (elim exE conjE)
  have "\<forall>c \<in> set ids. fmlookup (fmdrop aid (ra_attempts S)) c \<noteq> None" using Cons.prems(2,3) by auto
  then show ?case
    using Cons.IH[of "S\<lparr>ra_attempts := fmdrop aid (ra_attempts S), ra_by_session := r\<rparr>"] Cons.prems(2) a r
    by (simp add: forget_edge_eqs fmfilter_Cons del: list.set)
next
  case Nil
  then show ?case by (intro exI[of _ "ra_by_session S"]) simp
qed

lemma retire_session_attempts_ok:
  assumes "mirror_ok ras_sub_id (ra_attempts S) (ra_by_sub S)" "distinct ids" "\<forall>aid \<in> set ids. fmlookup (ra_attempts S) aid \<noteq> None"
  shows "\<exists>by_sub'. retire_session_attempts ids S =
      Some (S\<lparr>ra_attempts := fmfilter (\<lambda>c. c \<notin> set ids) (ra_attempts S), ra_by_sub := by_sub'\<rparr>) \<and>
    mirror_ok ras_sub_id (fmfilter (\<lambda>c. c \<notin> set ids) (ra_attempts S)) by_sub'"
  using assms
proof (induction ids arbitrary: S)
  case (Cons aid ids)
  then obtain a where a: "fmlookup (ra_attempts S) aid = Some a" by auto
  obtain r where r: "prune_child (ras_sub_id a) aid (ra_by_sub S) = Some r"
      "mirror_ok ras_sub_id (fmdrop aid (ra_attempts S)) r"
    using prune_child_ok[OF Cons.prems(1) a] by (elim exE conjE)
  have "\<forall>c \<in> set ids. fmlookup (fmdrop aid (ra_attempts S)) c \<noteq> None" using Cons.prems(2,3) by auto
  then show ?case
    using Cons.IH[of "S\<lparr>ra_attempts := fmdrop aid (ra_attempts S), ra_by_sub := r\<rparr>"] Cons.prems(2) a r
    by (simp add: forget_edge_eqs fmfilter_Cons del: list.set)
next
  case Nil
  then show ?case by (intro exI[of _ "ra_by_sub S"]) simp
qed

lemma retire_session_retries_ok:
  assumes "retry_sub_ok (ra_retries S) (ra_retry_by_sub S)" "distinct keys" "\<forall>key \<in> set keys. fmlookup (ra_retries S) key \<noteq> None"
  shows "\<exists>by_sub'. retire_session_retries keys S =
      Some (S\<lparr>ra_retries := fmfilter (\<lambda>c. c \<notin> set keys) (ra_retries S), ra_retry_by_sub := by_sub'\<rparr>) \<and>
    retry_sub_ok (fmfilter (\<lambda>c. c \<notin> set keys) (ra_retries S)) by_sub'"
  using assms
proof (induction keys arbitrary: S)
  case (Cons key keys)
  then obtain p where p: "fmlookup (ra_retries S) key = Some p" by auto
  note e = retry_sub_ok_drop[OF Cons.prems(1) p]
  have "\<forall>c \<in> set keys. fmlookup (fmdrop key (ra_retries S)) c \<noteq> None" using Cons.prems(2,3) by auto
  then show ?case
    using Cons.IH[of "S\<lparr>ra_retries := fmdrop key (ra_retries S), ra_retry_by_sub := fmdrop (prt_sub p) (ra_retry_by_sub S)\<rparr>"]
      Cons.prems(2) p e
    by (simp add: forget_retry_sub_edge_def fmfilter_Cons del: list.set)
next
  case Nil
  then show ?case by (intro exI[of _ "ra_retry_by_sub S"]) simp
qed

lemma attempts_update_swap:
  "S\<lparr>ra_by_sub := b, ra_attempts := a, ra_by_session := c\<rparr> = S\<lparr>ra_attempts := a, ra_by_sub := b, ra_by_session := c\<rparr>"
  "S\<lparr>ra_by_session := c, ra_attempts := a, ra_by_sub := b\<rparr> = S\<lparr>ra_attempts := a, ra_by_sub := b, ra_by_session := c\<rparr>"
  "S\<lparr>ra_retries_by_session := f, ra_retries := d, ra_retry_by_sub := e\<rparr> =
     S\<lparr>ra_retries := d, ra_retry_by_sub := e, ra_retries_by_session := f\<rparr>"
  by (cases S; simp)+

lemma fmember_children_live:
  assumes "mirror_ok key forward reverse"
  shows "\<forall>c \<in> set (sorted_list_of_fset (children_of reverse owner)). fmlookup forward c \<noteq> None"
  by (auto simp: mirror_okD(2)[OF assms])

lemma retire_for_sub_ok:
  assumes "attempts_ok S"
  shows "\<exists>S'. retire_for_sub sub S = Some S' \<and> attempts_ok S' \<and> fmlookup (ra_retry_by_sub S') sub = None \<and>
    (\<forall>aid a. fmlookup (ra_attempts S') aid = Some a \<longleftrightarrow> fmlookup (ra_attempts S) aid = Some a \<and> ras_sub_id a \<noteq> sub)"
proof -
  note d = attempts_okD[OF assms]
  let ?ids = "children_of (ra_by_sub S) sub"
  let ?attempts = "fmfilter (\<lambda>c. c |\<notin>| ?ids) (ra_attempts S)"
  obtain by_session' where r: "retire_sub_attempts (sorted_list_of_fset ?ids) (S\<lparr>ra_by_sub := fmdrop sub (ra_by_sub S)\<rparr>) =
      Some (S\<lparr>ra_attempts := ?attempts, ra_by_sub := fmdrop sub (ra_by_sub S), ra_by_session := by_session'\<rparr>)"
      "mirror_ok ras_session ?attempts by_session'"
    using retire_sub_attempts_ok[of "S\<lparr>ra_by_sub := fmdrop sub (ra_by_sub S)\<rparr>" "sorted_list_of_fset ?ids"]
      d(2) fmember_children_live[OF d(1), of sub] by (auto simp: attempts_update_swap)
  let ?S1 = "S\<lparr>ra_attempts := ?attempts, ra_by_sub := fmdrop sub (ra_by_sub S), ra_by_session := by_session'\<rparr>"
  have "attempts_ok ?S1"
    by (rule attempts_ok_live[OF assms mirror_ok_drop_owner[OF d(1)] r(2)]) (simp split: if_splits)
  from cancel_retry_for_sub_ok[OF this, of sub] obtain S' where S': "cancel_retry_for_sub sub ?S1 = Some S'" "attempts_ok S'"
      "fmlookup (ra_retry_by_sub S') sub = None" "ra_attempts S' = ?attempts"
    by auto
  moreover have "retire_for_sub sub S = Some S'"
    using r(1) S'(1) by (simp add: retire_for_sub_def children_of_def)
  ultimately show ?thesis by (auto simp: mirror_okD(2)[OF d(1)])
qed

lemma retire_for_session_ok:
  assumes "attempts_ok S"
  shows "\<exists>S'. retire_for_session session S = Some S' \<and> attempts_ok S' \<and>
    (\<forall>aid a. fmlookup (ra_attempts S') aid = Some a \<longleftrightarrow> fmlookup (ra_attempts S) aid = Some a \<and> ras_session a \<noteq> session) \<and>
    (\<forall>key p. fmlookup (ra_retries S') key = Some p \<longleftrightarrow> fmlookup (ra_retries S) key = Some p \<and> prt_session p \<noteq> session)"
proof -
  note d = attempts_okD[OF assms]
  let ?ids = "children_of (ra_by_session S) session"
  let ?keys = "children_of (ra_retries_by_session S) session"
  let ?attempts = "fmfilter (\<lambda>c. c |\<notin>| ?ids) (ra_attempts S)"
  let ?retries = "fmfilter (\<lambda>c. c |\<notin>| ?keys) (ra_retries S)"
  obtain by_sub' where r: "retire_session_attempts (sorted_list_of_fset ?ids) (S\<lparr>ra_by_session := fmdrop session (ra_by_session S)\<rparr>) =
      Some (S\<lparr>ra_attempts := ?attempts, ra_by_sub := by_sub', ra_by_session := fmdrop session (ra_by_session S)\<rparr>)"
      "mirror_ok ras_sub_id ?attempts by_sub'"
    using retire_session_attempts_ok[of "S\<lparr>ra_by_session := fmdrop session (ra_by_session S)\<rparr>" "sorted_list_of_fset ?ids"]
      d(1) fmember_children_live[OF d(2), of session] by (auto simp: attempts_update_swap)
  let ?S1 = "S\<lparr>ra_attempts := ?attempts, ra_by_sub := by_sub', ra_by_session := fmdrop session (ra_by_session S)\<rparr>"
  have ok1: "attempts_ok ?S1"
    by (rule attempts_ok_live[OF assms r(2) mirror_ok_drop_owner[OF d(2)]]) (simp split: if_splits)
  obtain retry_by_sub' where q: "retire_session_retries (sorted_list_of_fset ?keys) (?S1\<lparr>ra_retries_by_session := fmdrop session (ra_retries_by_session S)\<rparr>) =
      Some (?S1\<lparr>ra_retries := ?retries, ra_retry_by_sub := retry_by_sub', ra_retries_by_session := fmdrop session (ra_retries_by_session S)\<rparr>)"
      "retry_sub_ok ?retries retry_by_sub'"
    using retire_session_retries_ok[of "?S1\<lparr>ra_retries_by_session := fmdrop session (ra_retries_by_session S)\<rparr>" "sorted_list_of_fset ?keys"]
      d(3) fmember_children_live[OF d(4), of session] by (auto simp: attempts_update_swap)
  have "attempts_ok (?S1\<lparr>ra_retries := ?retries, ra_retry_by_sub := retry_by_sub', ra_retries_by_session := fmdrop session (ra_retries_by_session S)\<rparr>)"
    by (rule attempts_ok_parked[OF ok1 q(2) mirror_ok_drop_owner[OF d(4)]]) (simp split: if_splits)
  moreover have "retire_for_session session S =
      Some (?S1\<lparr>ra_retries := ?retries, ra_retry_by_sub := retry_by_sub', ra_retries_by_session := fmdrop session (ra_retries_by_session S)\<rparr>)"
    using r(1) q(1) by (simp add: retire_for_session_def children_of_def)
  ultimately show ?thesis by (auto simp: mirror_okD(2)[OF d(2)] mirror_okD(2)[OF d(4)])
qed

section \<open>Every reachable state\<close>

text \<open>One call of the owner's interface. \<open>DropRetry\<close> is \<open>clear_retry_for_attempt\<close>.\<close>

datatype attempts_op =
    Mint request_attempt_state
  | Take request_handoff_outcome
  | RetireForSub sub_id
  | RetireForSession relay_session_key
  | ScheduleRetry request_attempt_state u64
  | DropRetry request_attempt_state
  | CancelRetryForSub sub_id
  | TakeRetry request_retry_key
  | SetRetryFailures request_attempt_id u32

fun attempts_step :: "(u64 \<Rightarrow> u64 \<Rightarrow> u64) \<Rightarrow> attempts_op \<Rightarrow> request_attempts \<Rightarrow> request_attempts option" where
  "attempts_step ts_add (Mint attempt) S = map_option snd (mint attempt S)"
| "attempts_step ts_add (Take outcome) S = map_option snd (attempt_take outcome S)"
| "attempts_step ts_add (RetireForSub sub) S = retire_for_sub sub S"
| "attempts_step ts_add (RetireForSession session) S = retire_for_session session S"
| "attempts_step ts_add (ScheduleRetry attempt now) S = schedule_retry ts_add attempt now S"
| "attempts_step ts_add (DropRetry attempt) S = clear_retry_for_attempt attempt S"
| "attempts_step ts_add (CancelRetryForSub sub) S = cancel_retry_for_sub sub S"
| "attempts_step ts_add (TakeRetry key) S = map_option snd (take_retry key S)"
| "attempts_step ts_add (SetRetryFailures aid failures) S = set_retry_failures aid failures S"

text \<open>What a caller owes: attempts whose session is their own, an identity space that is not
  exhausted, and a live attempt for the failure count.\<close>

fun op_ok :: "attempts_op \<Rightarrow> request_attempts \<Rightarrow> bool" where
  "op_ok (Mint attempt) S \<longleftrightarrow> homed attempt \<and> ra_next_id S \<noteq> None"
| "op_ok (ScheduleRetry attempt now) S \<longleftrightarrow> homed attempt"
| "op_ok (SetRetryFailures aid failures) S \<longleftrightarrow> aid |\<in>| fmdom (ra_attempts S)"
| "op_ok _ S \<longleftrightarrow> True"

inductive attempts_reach :: "(u64 \<Rightarrow> u64 \<Rightarrow> u64) \<Rightarrow> request_attempts \<Rightarrow> bool" for ts_add where
  reach_new: "attempts_reach ts_add attempts_new"
| reach_step: "attempts_reach ts_add S \<Longrightarrow> op_ok op S \<Longrightarrow> attempts_step ts_add op S = Some S' \<Longrightarrow> attempts_reach ts_add S'"

lemma mirror_ok_fmupd_same_key:
  assumes "mirror_ok key forward reverse" "fmlookup forward c = Some v" "key v' = key v"
  shows "mirror_ok key (fmupd c v' forward) reverse"
  using assms by (simp add: mirror_ok_def)

lemma set_retry_failures_ok:
  assumes "attempts_ok S" "fmlookup (ra_attempts S) aid = Some a"
  shows "\<exists>S'. set_retry_failures aid failures S = Some S' \<and> attempts_ok S'"
proof -
  note d = attempts_okD[OF assms(1)]
  have "live_ok (fmupd aid (a\<lparr>ras_retry_failures := failures\<rparr>) (ra_attempts S)) (ra_by_sub S) (ra_by_session S) (ra_next_id S)"
    using mirror_ok_fmupd_same_key[OF d(1) assms(2)] mirror_ok_fmupd_same_key[OF d(2) assms(2)] assms
    by (auto simp: live_ok_def attempts_ok_def homed_def split: if_splits)
  then show ?thesis using assms by (simp add: set_retry_failures_def attempts_ok_def)
qed

lemma attempts_step_ok:
  assumes "attempts_ok S" "op_ok op S"
  shows "\<exists>S'. attempts_step ts_add op S = Some S' \<and> attempts_ok S'"
proof (cases op)
  case (Mint attempt)
  then show ?thesis using assms mint_ok[OF assms(1)] by fastforce
next
  case (Take outcome)
  then show ?thesis using attempt_remove_ok[OF assms(1), of "outcome_attempt_id outcome"] by (auto simp: attempt_take_def)
next
  case (RetireForSub sub)
  then show ?thesis using retire_for_sub_ok[OF assms(1), of sub] by auto
next
  case (RetireForSession session)
  then show ?thesis using retire_for_session_ok[OF assms(1), of session] by auto
next
  case (ScheduleRetry attempt now)
  then show ?thesis using assms schedule_retry_ok[OF assms(1), of attempt ts_add now] by auto
next
  case (DropRetry attempt)
  then show ?thesis
    using remove_retry_ok[OF assms(1), of "RequestRetryKey (ras_session attempt) (ras_sub_id attempt)"]
    by (auto simp: clear_retry_for_attempt_def retry_key_def)
next
  case (CancelRetryForSub sub)
  then show ?thesis using cancel_retry_for_sub_ok[OF assms(1), of sub] by auto
next
  case (TakeRetry key)
  then show ?thesis using remove_retry_ok[OF assms(1), of key] by (auto simp: take_retry_def)
next
  case (SetRetryFailures aid failures)
  then show ?thesis using assms set_retry_failures_ok[OF assms(1)] by (auto simp: fmlookup_dom_iff)
qed

text \<open>C28: In every state the reducer can reach, the four reverse indexes of the attempts owner are
  exact, and no operation called within its contract panics.\<close>

theorem attempts_always_consistent:
  assumes "attempts_reach ts_add S"
  shows "attempts_ok S \<and> (\<forall>op. op_ok op S \<longrightarrow> attempts_step ts_add op S \<noteq> None)"
proof -
  from assms have ok: "attempts_ok S"
  proof induction
    case reach_new
    then show ?case by (rule attempts_new_ok)
  next
    case (reach_step S op S')
    then show ?case using attempts_step_ok[of S op ts_add] by auto
  qed
  moreover have "attempts_step ts_add op S \<noteq> None" if "op_ok op S" for op
    using attempts_step_ok[OF ok that, of ts_add] by auto
  ultimately show ?thesis by blast
qed

definition sample_attempt :: request_attempt_state where
  "sample_attempt = \<lparr>ras_session = RelaySessionKey ''wss://r'' None, ras_sub_id = SubId ''wss://r'' (WireToken 0) None,
     ras_filter_hash = ''h'', ras_filter = empty_filter, ras_coverage_claims = {||}, ras_owner_demands = {||},
     ras_request_revision = Some 0, ras_retry_failures = 0\<rparr>"

lemma sample_homed: "homed sample_attempt"
  by (simp add: homed_def sample_attempt_def)

theorem attempts_always_consistent_witness:
  "attempts_ok (snd (the (mint sample_attempt attempts_new))) \<and>
   attempts_step sat_add (RetireForSession (RelaySessionKey ''wss://r'' None)) (snd (the (mint sample_attempt attempts_new))) \<noteq> None"
proof -
  let ?S = "snd (the (mint sample_attempt attempts_new))"
  have "attempts_step sat_add (Mint sample_attempt) attempts_new = Some ?S"
    by (simp add: mint_def attempts_new_def)
  then have "attempts_reach sat_add ?S"
    using reach_step[OF reach_new, of "Mint sample_attempt" sat_add ?S] sample_homed by (simp add: attempts_new_def)
  moreover have "op_ok (RetireForSession (RelaySessionKey ''wss://r'' None)) ?S" by simp
  ultimately show ?thesis using attempts_always_consistent by blast
qed

section \<open>Retry deadlines\<close>

lemma unat_min: "unat (min a b) = min (unat a) (unat (b :: 'a::len word))"
  by (simp add: min_def word_le_nat_alt)

lemma shifted_delay:
  assumes "k \<le> 63"
  shows "min (unat (push_bit k (3 :: u64))) 300 = min (3 * 2 ^ k) 300"
proof (cases "k = 63")
  case True
  then show ?thesis by (simp add: push_bit_eq_mult)
next
  case False
  then have "(2::nat) ^ k \<le> 2 ^ 62" using assms by (intro power_increasing) auto
  then have "3 * (2::nat) ^ k < 2 ^ 64" by simp
  then have "unat (push_bit k (3 :: u64)) = 3 * 2 ^ k"
    unfolding unsigned_push_bit_eq by (simp add: take_bit_eq_mod push_bit_eq_mult)
  then show ?thesis by simp
qed

lemma unjittered_retry_delay_value:
  "unat (unjittered_retry_delay_secs failures) = min (3 * 2 ^ (unat failures - 1)) 300"
proof -
  let ?k = "min (unat failures - 1) 63"
  have "unat (unjittered_retry_delay_secs failures) = min (unat (push_bit ?k (3::u64))) 300"
    by (simp add: unjittered_retry_delay_secs_def checked_shl_def RETRY_INITIAL_SECS_def RETRY_MAX_SECS_def unat_min unat_sat_sub min_less_iff_disj)
  also have "\<dots> = min (3 * 2 ^ ?k) 300" by (rule shifted_delay) simp
  also have "\<dots> = min (3 * 2 ^ (unat failures - 1)) 300"
  proof (cases "unat failures - 1 \<le> 63")
    case False
    then have "(2::nat) ^ 63 \<le> 2 ^ (unat failures - 1)" by (intro power_increasing) auto
    then show ?thesis using False by simp
  qed simp
  finally show ?thesis .
qed

lemma fold_min_le: "fold min xs (a::'a::linorder) \<le> a \<and> (\<forall>x \<in> set xs. fold min xs a \<le> x)"
proof (induction xs arbitrary: a)
  case (Cons x xs)
  show ?case using Cons[of "min x a"] by auto
qed simp

lemma next_retry_due_le:
  assumes "fmlookup (ra_retries S) key = Some p"
  shows "\<exists>due. next_retry_due S = Some due \<and> due \<le> prt_due p"
proof -
  have "p \<in> set (fm_values (ra_retries S))" using assms by (auto simp: set_fm_values)
  then have "prt_due p \<in> set (map prt_due (fm_values (ra_retries S)))" by simp
  then show ?thesis using fold_min_le by (cases "map prt_due (fm_values (ra_retries S))") (auto simp: next_retry_due_def)
qed

lemma due_retry_keys_iff:
  "key \<in> set (due_retry_keys now S) \<longleftrightarrow> (\<exists>p. fmlookup (ra_retries S) key = Some p \<and> prt_due p \<le> now)"
  by (force simp: due_retry_keys_def set_sorted_list_of_fmap)

text \<open>C29: A refused attempt parked for retry is selected again: the parked deadline lies three to three
  hundred seconds ahead, the reducer's wake schedule is no later than it, and from then on the retry
  is among the due ones until it is taken.\<close>

theorem scheduled_retry_becomes_due:
  assumes "attempts_ok S" "homed attempt" "saturating_timestamps ts_add ts_sub" "unat now + 300 < 2 ^ 64"
  shows "\<exists>S' p wake. schedule_retry ts_add attempt now S = Some S' \<and>
    fmlookup (ra_retries S') (RequestRetryKey (ras_session attempt) (ras_sub_id attempt)) = Some p \<and>
    unat now + 3 \<le> unat (prt_due p) \<and> unat (prt_due p) \<le> unat now + 300 \<and>
    next_retry_due S' = Some wake \<and> wake \<le> prt_due p \<and>
    (\<forall>later. RequestRetryKey (ras_session attempt) (ras_sub_id attempt) \<in> set (due_retry_keys later S') \<longleftrightarrow> prt_due p \<le> later)"
proof -
  let ?key = "RequestRetryKey (ras_session attempt) (ras_sub_id attempt)"
  let ?failures = "sat_add (ras_retry_failures attempt) 1"
  obtain S' p where S': "schedule_retry ts_add attempt now S = Some S'" "fmlookup (ra_retries S') ?key = Some p"
      and due: "prt_due p = ts_add now (unjittered_retry_delay_secs ?failures)"
    using schedule_retry_ok[OF assms(1,2), of ts_add now] by auto
  have "3 \<le> 3 * (2::nat) ^ (unat ?failures - 1)" by simp
  then have delay: "3 \<le> unat (unjittered_retry_delay_secs ?failures)" "unat (unjittered_retry_delay_secs ?failures) \<le> 300"
    unfolding unjittered_retry_delay_value by (linarith | simp)+
  then have "unat (prt_due p) = unat now + unat (unjittered_retry_delay_secs ?failures)"
    using assms(3,4) due by (simp add: saturating_timestamps_def unat_sat_add)
  moreover obtain wake where "next_retry_due S' = Some wake" "wake \<le> prt_due p"
    using next_retry_due_le[OF S'(2)] by blast
  ultimately show ?thesis using S' delay by (auto simp: due_retry_keys_iff)
qed

theorem scheduled_retry_becomes_due_witness:
  "\<exists>S' p wake. schedule_retry sat_add sample_attempt 1000 attempts_new = Some S' \<and>
    fmlookup (ra_retries S') (RequestRetryKey (ras_session sample_attempt) (ras_sub_id sample_attempt)) = Some p \<and>
    1003 \<le> unat (prt_due p) \<and> next_retry_due S' = Some wake \<and> wake \<le> prt_due p"
  using scheduled_retry_becomes_due[OF attempts_new_ok sample_homed, of sat_add sat_sub 1000]
  by (auto simp: saturating_timestamps_def)

end
