(* ===== verification/Address_Key.thy ===== *)
theory Address_Key
  imports Nostr_Event
begin

text \<open>
  \<open>crates/nmp-store/src/address_key.rs\<close>: the competition key of replaceable and addressable events,
  its encoding as a table key, and the rule that decides which of two events holds an address.

  The tag accessors of the \<open>nostr\<close> crate (\<open>identifier\<close>, \<open>expiration\<close>, \<open>event_ids\<close>, \<open>coordinates\<close>,
  \<open>is_expired_at\<close>) are not part of this repository; the store's operations take them as one record
  \<open>tag_reader\<close> of functions. A \<open>PublicKey\<close> is its hexadecimal form, so \<open>to_hex\<close> is the identity.
\<close>

record coordinate =
  co_kind :: u16
  co_public_key :: public_key
  co_identifier :: string

record tag_reader =
  tr_identifier :: "event \<Rightarrow> string option"
  tr_expiration :: "event \<Rightarrow> u64 option"
  tr_is_expired_at :: "event \<Rightarrow> u64 \<Rightarrow> bool"
  tr_event_ids :: "event \<Rightarrow> string list"
  tr_coordinates :: "event \<Rightarrow> coordinate list"

datatype address_key =
    Replaceable public_key u16
  | Addressable public_key u16 string

definition is_replaceable_kind :: "u16 \<Rightarrow> bool" where
  "is_replaceable_kind kind \<longleftrightarrow> kind = 0 \<or> kind = 3 \<or> 10000 \<le> kind \<and> kind \<le> 19999"

definition is_addressable_kind :: "u16 \<Rightarrow> bool" where
  "is_addressable_kind kind \<longleftrightarrow> 30000 \<le> kind \<and> kind \<le> 39999"

definition address_key_for :: "tag_reader \<Rightarrow> event \<Rightarrow> address_key option" where
  "address_key_for rd event =
     (if is_replaceable_kind (ev_kind event) then Some (Replaceable (ev_pubkey event) (ev_kind event))
      else if is_addressable_kind (ev_kind event)
      then Some (Addressable (ev_pubkey event) (ev_kind event)
             (case tr_identifier rd event of None \<Rightarrow> '''' | Some d \<Rightarrow> d))
      else None)"

definition address_key_for_coordinate :: "coordinate \<Rightarrow> address_key option" where
  "address_key_for_coordinate coord =
     (if is_replaceable_kind (co_kind coord) then Some (Replaceable (co_public_key coord) (co_kind coord))
      else if is_addressable_kind (co_kind coord)
      then Some (Addressable (co_public_key coord) (co_kind coord) (co_identifier coord))
      else None)"

text \<open>\<open>format!\<close> of an unsigned integer: decimal digits without leading zeros.\<close>

definition digit_char :: "nat \<Rightarrow> char" where
  "digit_char n = char_of (48 + n)"

fun decimal :: "nat \<Rightarrow> string" where
  "decimal n = (if n < 10 then [digit_char n] else decimal (n div 10) @ [digit_char (n mod 10)])"

declare decimal.simps [simp del]

definition NUL :: char where
  "NUL = CHR 0x00"

fun to_redb_key :: "address_key \<Rightarrow> string" where
  "to_redb_key (Replaceable pk kind) = ''R'' @ [NUL] @ pk @ [NUL] @ decimal (unat kind)"
| "to_redb_key (Addressable pk kind d) = ''A'' @ [NUL] @ pk @ [NUL] @ decimal (unat kind) @ [NUL] @ d"

definition candidate_wins :: "event \<Rightarrow> event \<Rightarrow> bool" where
  "candidate_wins candidate current =
     (if ev_created_at candidate > ev_created_at current then True
      else if ev_created_at candidate < ev_created_at current then False
      else ev_id candidate < ev_id current)"

section \<open>Table keys\<close>

lemma digit_char_inject: "a < 10 \<Longrightarrow> b < 10 \<Longrightarrow> digit_char a = digit_char b \<longleftrightarrow> a = b"
  by (simp add: digit_char_def char_of_eq_iff take_bit_eq_mod)

lemma digit_char_not_NUL: "n < 10 \<Longrightarrow> digit_char n \<noteq> NUL"
  by (simp add: digit_char_def NUL_def char_of_eq_iff take_bit_eq_mod)

lemma decimal_not_Nil: "decimal n \<noteq> []"
  by (subst decimal.simps) simp

lemma NUL_notin_decimal: "NUL \<notin> set (decimal n)"
proof (induction n rule: decimal.induct)
  case (1 n)
  have "NUL \<noteq> digit_char (n mod 10)" "n < 10 \<Longrightarrow> NUL \<noteq> digit_char n"
    using digit_char_not_NUL[of "n mod 10"] digit_char_not_NUL[of n] by auto
  then show ?case using 1 by (subst decimal.simps) auto
qed

lemma decimal_inject: "decimal a = decimal b \<longleftrightarrow> a = b"
proof
  assume "decimal a = decimal b"
  then show "a = b"
  proof (induction a arbitrary: b rule: decimal.induct)
    case (1 a)
    have nonempty: "decimal (n div 10) \<noteq> []" for n by (rule decimal_not_Nil)
    consider "a < 10" "b < 10" | "\<not> a < 10" "\<not> b < 10" | "(a < 10) \<noteq> (b < 10)" by blast
    then show ?case
    proof cases
      case 1
      then show ?thesis using "1.prems" digit_char_inject by (simp add: decimal.simps[of a] decimal.simps[of b])
    next
      case 2
      then have "decimal (a div 10) = decimal (b div 10)" "digit_char (a mod 10) = digit_char (b mod 10)"
        using "1.prems" by (simp_all add: decimal.simps[of a] decimal.simps[of b])
      then have "a div 10 = b div 10" "a mod 10 = b mod 10"
        using "1.IH" 2 digit_char_inject by auto
      then show ?thesis by (metis div_mult_mod_eq)
    next
      case 3
      then show ?thesis using "1.prems" nonempty
        by (auto simp: decimal.simps[of a] decimal.simps[of b] append_eq_Cons_conv Cons_eq_append_conv split: if_splits)
    qed
  qed
qed simp

lemma split_at_NUL:
  "NUL \<notin> set a \<Longrightarrow> NUL \<notin> set b \<Longrightarrow> a @ NUL # x = b @ NUL # y \<longleftrightarrow> a = b \<and> x = y"
proof (induction a arbitrary: b)
  case Nil
  then show ?case by (cases b) auto
next
  case (Cons c a)
  then show ?case by (cases b) auto
qed

fun key_author :: "address_key \<Rightarrow> public_key" where
  "key_author (Replaceable pk kind) = pk"
| "key_author (Addressable pk kind d) = pk"

lemma to_redb_key_inject:
  assumes "NUL \<notin> set (key_author a)" "NUL \<notin> set (key_author b)"
  shows "to_redb_key a = to_redb_key b \<longleftrightarrow> a = b"
  using assms
  by (cases a; cases b)
    (auto simp: split_at_NUL decimal_inject NUL_notin_decimal[THEN split_at_NUL, OF NUL_notin_decimal] word_unat_eq_iff)

text \<open>C33: Two addresses never share a table key. The only assumption is that a hexadecimal author
  key holds no NUL byte; the identifier of an addressable event may hold any byte, NUL included,
  because it is the last segment.\<close>

theorem to_redb_key_injective:
  assumes "NUL \<notin> set (key_author a)" "NUL \<notin> set (key_author b)"
  shows "to_redb_key a = to_redb_key b \<longleftrightarrow> a = b"
  by (rule to_redb_key_inject[OF assms])

theorem to_redb_key_injective_witness:
  "to_redb_key (Addressable ''ab'' 30000 [NUL]) \<noteq> to_redb_key (Addressable ''ab'' 30000 [NUL, NUL])"
  using to_redb_key_injective[of "Addressable ''ab'' 30000 [NUL]" "Addressable ''ab'' 30000 [NUL, NUL]"]
  by (simp add: NUL_def)

section \<open>The winner of an address\<close>

lemma candidate_wins_iff:
  "candidate_wins a b \<longleftrightarrow>
     ev_created_at b < ev_created_at a \<or> ev_created_at a = ev_created_at b \<and> ev_id a < ev_id b"
  by (auto simp: candidate_wins_def)

lemma candidate_wins_irrefl: "\<not> candidate_wins a a"
  by (simp add: candidate_wins_iff)

lemma candidate_wins_trans: "candidate_wins a b \<Longrightarrow> candidate_wins b c \<Longrightarrow> candidate_wins a c"
  by (auto simp: candidate_wins_iff)

lemma candidate_wins_total: "ev_id a \<noteq> ev_id b \<Longrightarrow> candidate_wins a b \<or> candidate_wins b a"
  by (auto simp: candidate_wins_iff)

lemma candidate_wins_asym: "candidate_wins a b \<Longrightarrow> \<not> candidate_wins b a"
  by (auto simp: candidate_wins_iff)

end
