(* ===== verification/Attribution.thy ===== *)
theory Attribution
  imports Request_Attempts Address_Key
begin

text \<open>
  \<open>crates/nmp-engine/src/core/attribution.rs\<close> with \<open>attribution/completion.rs\<close> and
  \<open>attribution/wire.rs\<close>: which coverage an end-of-stored-events frame proves.

  A relay answers by the wire subscription id only, so a completed request is known up to the sends
  outstanding under that id. Each send leaves a snapshot in a queue; a completion claims what every
  snapshot of the queue claims, over the window that lies inside all of them.

  The digest of a filter (\<open>ConcreteFilter::hash\<close>, a BLAKE3 digest) is the parameter \<open>fhash\<close>. The
  \<open>expect\<close> on an empty queue is the outer \<open>None\<close> of \<open>attribute_eose_detailed\<close>.
\<close>

datatype coverage_poison = LimitedRequest | EventCommitFailed

datatype coverage_authority = Eligible | Poisoned coverage_poison

fun poison :: "coverage_poison \<Rightarrow> coverage_authority \<Rightarrow> coverage_authority" where
  "poison reason Eligible = Poisoned reason"
| "poison reason (Poisoned earlier) = Poisoned earlier"

record attribution_snapshot =
  sn_send_id :: u64
  sn_coverage_claims :: "coverage_key fset"
  sn_filter_hash :: descriptor_hash
  sn_floor :: "u64 option"
  sn_until :: "u64 option"
  sn_coverage_authority :: coverage_authority

record completed_coverage_claim =
  cc_key :: coverage_key
  cc_interval :: coverage_interval

record completed_attribution =
  ca_sub_id :: sub_id
  ca_send_id :: u64
  ca_filter_hash :: descriptor_hash
  ca_coverage_authority :: coverage_authority
  ca_claims :: "completed_coverage_claim list"

definition eligible_generation_interval :: "completed_attribution \<Rightarrow> coverage_interval option" where
  "eligible_generation_interval completed =
     (if ca_coverage_authority completed \<noteq> Eligible then None
      else case ca_claims completed of
             [] \<Rightarrow> None
           | claim # _ \<Rightarrow>
               if list_all (\<lambda>c. cc_interval c = cc_interval claim) (ca_claims completed)
               then Some (cc_interval claim) else None)"

definition into_eligible_claims :: "completed_attribution \<Rightarrow> completed_coverage_claim list option" where
  "into_eligible_claims completed =
     (if ca_coverage_authority completed = Eligible then Some (ca_claims completed) else None)"

record attribution_state =
  at_next_send_id :: u64
  at_inflight :: "(sub_id, attribution_snapshot list) fmap"
  at_sub_id_by_wire :: "(relay_session_key \<times> string, sub_id) fmap"
  at_live_request_claims :: "(sub_id, coverage_key fset) fmap"

definition attribution_new :: attribution_state where
  "attribution_new = \<lparr>at_next_send_id = 0, at_inflight = fmempty, at_sub_id_by_wire = fmempty,
     at_live_request_claims = fmempty\<rparr>"

definition wire_sub_id_string :: "sub_id \<Rightarrow> string" where
  "wire_sub_id_string sub = decimal (unat (wt_mint (sid_token sub)))"

section \<open>Claims of planned requests\<close>

definition retain_live_request_claims :: "sub_id \<Rightarrow> coverage_key fset \<Rightarrow> attribution_state \<Rightarrow> attribution_state" where
  "retain_live_request_claims sub claims S = S\<lparr>at_live_request_claims := fmupd sub claims (at_live_request_claims S)\<rparr>"

definition retain_added_live_request_claims :: "sub_id \<Rightarrow> coverage_key fset \<Rightarrow> attribution_state \<Rightarrow> attribution_state" where
  "retain_added_live_request_claims sub added S =
     S\<lparr>at_live_request_claims := fm_upsert sub (\<lambda>retained. retained |\<union>| added) added (at_live_request_claims S)\<rparr>"

definition release_live_request_claims_delta :: "sub_id \<Rightarrow> coverage_key fset \<Rightarrow> attribution_state \<Rightarrow> attribution_state" where
  "release_live_request_claims_delta sub removed S =
     (case fmlookup (at_live_request_claims S) sub of
        None \<Rightarrow> S
      | Some retained \<Rightarrow>
          if retained |-| removed = {||} then S\<lparr>at_live_request_claims := fmdrop sub (at_live_request_claims S)\<rparr>
          else S\<lparr>at_live_request_claims := fmupd sub (retained |-| removed) (at_live_request_claims S)\<rparr>)"

definition release_live_request_claims :: "sub_id \<Rightarrow> attribution_state \<Rightarrow> attribution_state" where
  "release_live_request_claims sub S = S\<lparr>at_live_request_claims := fmdrop sub (at_live_request_claims S)\<rparr>"

definition current_send :: "sub_id \<Rightarrow> attribution_state \<Rightarrow> attribution_snapshot option" where
  "current_send sub S =
     (case fmlookup (at_inflight S) sub of None \<Rightarrow> None | Some [] \<Rightarrow> None | Some fifo \<Rightarrow> Some (last fifo))"

definition current_matches :: "sub_id \<Rightarrow> descriptor_hash \<Rightarrow> attribution_state \<Rightarrow> bool" where
  "current_matches sub filter_hash S =
     (case current_send sub S of None \<Rightarrow> False | Some current \<Rightarrow> sn_filter_hash current = filter_hash)"

definition update_current_claims ::
  "(coverage_key fset \<Rightarrow> coverage_key fset) \<Rightarrow> sub_id \<Rightarrow> attribution_state \<Rightarrow> attribution_state" where
  "update_current_claims f sub S =
     S\<lparr>at_inflight := fm_upsert sub
         (\<lambda>fifo. butlast fifo @ [(last fifo)\<lparr>sn_coverage_claims := f (sn_coverage_claims (last fifo))\<rparr>]) [] (at_inflight S)\<rparr>"

definition extend_current_send_claims ::
  "sub_id \<Rightarrow> descriptor_hash \<Rightarrow> coverage_key fset \<Rightarrow> attribution_state \<Rightarrow> bool \<times> attribution_state" where
  "extend_current_send_claims sub filter_hash added S =
     (if \<not> current_matches sub filter_hash S then (False, S)
      else (True, update_current_claims (\<lambda>claims. claims |\<union>| added) sub S))"

definition remove_current_send_claims ::
  "sub_id \<Rightarrow> descriptor_hash \<Rightarrow> coverage_key fset \<Rightarrow> attribution_state \<Rightarrow> bool \<times> attribution_state" where
  "remove_current_send_claims sub filter_hash removed S =
     (if \<not> current_matches sub filter_hash S then (False, S)
      else (True, update_current_claims (\<lambda>claims. claims |-| removed) sub S))"

definition extend_current_request_claims ::
  "sub_id \<Rightarrow> descriptor_hash \<Rightarrow> coverage_key fset \<Rightarrow> attribution_state \<Rightarrow>
   (bool \<times> coverage_key fset \<times> bool) \<times> attribution_state" where
  "extend_current_request_claims sub filter_hash added_claims S =
     (let previous = fmlookup (at_live_request_claims S) sub;
          had_previous_claims = (case previous of None \<Rightarrow> False | Some claims \<Rightarrow> claims \<noteq> {||});
          added = (case previous of None \<Rightarrow> added_claims | Some claims \<Rightarrow> added_claims |-| claims)
      in if \<not> current_matches sub filter_hash S then ((had_previous_claims, added, False), S)
         else ((had_previous_claims, added, True),
               snd (extend_current_send_claims sub filter_hash added (retain_added_live_request_claims sub added S))))"

section \<open>Sends and completions\<close>

definition record_send ::
  "(concrete_filter \<Rightarrow> descriptor_hash) \<Rightarrow> relay_session_key \<Rightarrow> sub_id \<Rightarrow> concrete_filter \<Rightarrow> coverage_key fset \<Rightarrow>
   attribution_state \<Rightarrow> u64 \<times> attribution_state" where
  "record_send fhash session sub f claims S =
     (let send_id = at_next_send_id S;
          snapshot = \<lparr>sn_send_id = send_id, sn_coverage_claims = claims, sn_filter_hash = fhash f,
                      sn_floor = cf_since f, sn_until = cf_until f,
                      sn_coverage_authority = (if cf_limit f \<noteq> None then Poisoned LimitedRequest else Eligible)\<rparr>
      in (send_id,
          S\<lparr>at_next_send_id := at_next_send_id S + 1,
            at_inflight := fm_upsert sub (\<lambda>fifo. fifo @ [snapshot]) [snapshot] (at_inflight S),
            at_sub_id_by_wire := fmupd (session, wire_sub_id_string sub) sub (at_sub_id_by_wire S)\<rparr>))"

definition poison_targets :: "u64 fset \<Rightarrow> attribution_snapshot \<Rightarrow> attribution_snapshot" where
  "poison_targets targets snapshot =
     (if sn_send_id snapshot |\<in>| targets
      then snapshot\<lparr>sn_coverage_authority := poison EventCommitFailed (sn_coverage_authority snapshot)\<rparr>
      else snapshot)"

definition poison_event_commit_failure :: "relay_session_key \<Rightarrow> string \<Rightarrow> attribution_state \<Rightarrow> attribution_state" where
  "poison_event_commit_failure session wire S =
     (case fmlookup (at_sub_id_by_wire S) (session, wire) of
        None \<Rightarrow> S
      | Some sub \<Rightarrow>
          (case fmlookup (at_inflight S) sub of
             None \<Rightarrow> S
           | Some fifo \<Rightarrow>
               S\<lparr>at_inflight := fmmap (map (poison_targets (fset_of_list (map sn_send_id fifo)))) (at_inflight S)\<rparr>))"

definition sub_id_for_wire :: "relay_session_key \<Rightarrow> string \<Rightarrow> attribution_state \<Rightarrow> sub_id option" where
  "sub_id_for_wire session wire S = fmlookup (at_sub_id_by_wire S) (session, wire)"

definition stale_subs :: "relay_session_key \<Rightarrow> attribution_state \<Rightarrow> sub_id fset" where
  "stale_subs session S =
     fset_of_list (map snd (filter (\<lambda>((key, _), _). key = session) (sorted_list_of_fmap (at_sub_id_by_wire S))))"

definition clear_session :: "relay_session_key \<Rightarrow> attribution_state \<Rightarrow> attribution_state" where
  "clear_session session S =
     S\<lparr>at_inflight := fmfilter (\<lambda>sub. sub |\<notin>| stale_subs session S) (at_inflight S),
       at_sub_id_by_wire := fmfilter (\<lambda>(key, _). key \<noteq> session) (at_sub_id_by_wire S)\<rparr>"

definition discard_sub :: "sub_id \<Rightarrow> attribution_state \<Rightarrow> attribution_state" where
  "discard_sub sub S =
     (let session = RelaySessionKey (sid_relay sub) (sid_authenticate_as sub)
      in S\<lparr>at_inflight := fmdrop sub (at_inflight S),
           at_sub_id_by_wire := fmdrop (session, wire_sub_id_string sub) (at_sub_id_by_wire S)\<rparr>)"

definition discard_send_revision :: "sub_id \<Rightarrow> u64 \<Rightarrow> attribution_state \<Rightarrow> attribution_state" where
  "discard_send_revision sub revision S =
     (case fmlookup (at_inflight S) sub of
        None \<Rightarrow> S
      | Some fifo \<Rightarrow>
          if \<forall>snapshot \<in> set fifo. sn_send_id snapshot \<noteq> revision then S
          else let fifo' = remove_nth (length (takeWhile (\<lambda>snapshot. sn_send_id snapshot \<noteq> revision) fifo)) fifo
               in if fifo' = [] then S\<lparr>at_inflight := fmdrop sub (at_inflight S)\<rparr>
                  else S\<lparr>at_inflight := fmupd sub fifo' (at_inflight S)\<rparr>)"

definition has_inflight :: "sub_id \<Rightarrow> attribution_state \<Rightarrow> bool" where
  "has_inflight sub S \<longleftrightarrow> sub |\<in>| fmdom (at_inflight S)"

definition discard_wire_mapping :: "relay_session_key \<Rightarrow> sub_id \<Rightarrow> attribution_state \<Rightarrow> attribution_state" where
  "discard_wire_mapping session sub S =
     S\<lparr>at_sub_id_by_wire := fmdrop (session, wire_sub_id_string sub) (at_sub_id_by_wire S)\<rparr>"

text \<open>\<open>find_map\<close> for the first poisoned snapshot.\<close>

fun fifo_authority :: "attribution_snapshot list \<Rightarrow> coverage_authority" where
  "fifo_authority [] = Eligible"
| "fifo_authority (snapshot # fifo) =
     (case sn_coverage_authority snapshot of Eligible \<Rightarrow> fifo_authority fifo | Poisoned reason \<Rightarrow> Poisoned reason)"

text \<open>The accumulator of the completion loop: the intersected claims, the largest floor and the
  smallest upper bound.\<close>

definition attribute_snapshot ::
  "attribution_snapshot \<Rightarrow> coverage_key fset option \<times> u64 \<times> u64 \<Rightarrow> coverage_key fset option \<times> u64 \<times> u64" where
  "attribute_snapshot snap acc =
     (case acc of (attributed, max_floor, min_until) \<Rightarrow>
       (Some (case attributed of None \<Rightarrow> sn_coverage_claims snap | Some keys \<Rightarrow> keys |\<inter>| sn_coverage_claims snap),
        (case sn_floor snap of None \<Rightarrow> max_floor | Some f \<Rightarrow> max max_floor f),
        (case sn_until snap of None \<Rightarrow> min_until | Some u \<Rightarrow> min min_until u)))"

definition complete_snapshot ::
  "sub_id \<Rightarrow> attribution_snapshot \<Rightarrow> coverage_authority \<Rightarrow> (coverage_key \<times> coverage_interval) list \<Rightarrow> completed_attribution" where
  "complete_snapshot sub snapshot authority claims =
     \<lparr>ca_sub_id = sub, ca_send_id = sn_send_id snapshot, ca_filter_hash = sn_filter_hash snapshot,
      ca_coverage_authority = authority, ca_claims = map (\<lambda>(key, interval). \<lparr>cc_key = key, cc_interval = interval\<rparr>) claims\<rparr>"

definition attribute_eose_detailed ::
  "relay_session_key \<Rightarrow> string \<Rightarrow> u64 \<Rightarrow> attribution_state \<Rightarrow> (completed_attribution option \<times> attribution_state) option" where
  "attribute_eose_detailed session wire eose_time S =
     (case fmlookup (at_sub_id_by_wire S) (session, wire) of
        None \<Rightarrow> Some (None, S)
      | Some sub \<Rightarrow>
          (case fmlookup (at_inflight S) sub of
             None \<Rightarrow> Some (None, S)
           | Some fifo \<Rightarrow>
               (let authority = fifo_authority fifo;
                    (attributed, max_floor, min_until) = fold attribute_snapshot fifo (None, 0, eose_time);
                    through = min eose_time min_until;
                    interval = \<lparr>iv_from = max_floor, iv_through = through\<rparr>;
                    result = (case attributed of None \<Rightarrow> [] | Some keys \<Rightarrow> map (\<lambda>k. (k, interval)) (sorted_list_of_fset keys))
                in case fifo of
                     [] \<Rightarrow> None
                   | completed # rest \<Rightarrow>
                       Some (Some (complete_snapshot sub completed authority result),
                         S\<lparr>at_inflight := (if rest = [] then fmdrop sub (at_inflight S) else fmupd sub rest (at_inflight S))\<rparr>))))"

section \<open>What a completion claims\<close>

definition floors :: "attribution_snapshot list \<Rightarrow> u64 list" where
  "floors fifo = List.map_filter sn_floor fifo"

definition untils :: "attribution_snapshot list \<Rightarrow> u64 list" where
  "untils fifo = List.map_filter sn_until fifo"

lemma fmember_floors: "q \<in> set fifo \<Longrightarrow> sn_floor q = Some f \<Longrightarrow> f \<in> set (floors fifo)"
  by (force simp: floors_def List.map_filter_def)

lemma fmember_untils: "q \<in> set fifo \<Longrightarrow> sn_until q = Some u \<Longrightarrow> u \<in> set (untils fifo)"
  by (force simp: untils_def List.map_filter_def)

lemma fold_attribute_snapshot:
  "fold attribute_snapshot fifo (Some keys, lo, hi) =
     (Some (fold (\<lambda>s acc. acc |\<inter>| sn_coverage_claims s) fifo keys), fold max (floors fifo) lo, fold min (untils fifo) hi)"
  by (induction fifo arbitrary: keys lo hi)
    (auto simp: attribute_snapshot_def floors_def untils_def map_filter_simps max.commute min.commute split: option.split)

lemma fold_attribute_fifo:
  "fold attribute_snapshot (s # fifo) (None, lo, hi) =
     (Some (fold (\<lambda>s acc. acc |\<inter>| sn_coverage_claims s) fifo (sn_coverage_claims s)),
      fold max (floors (s # fifo)) lo, fold min (untils (s # fifo)) hi)"
  by (simp add: attribute_snapshot_def fold_attribute_snapshot floors_def untils_def map_filter_simps max.commute min.commute
      split: option.split)

lemma fmember_fold_inter:
  "k |\<in>| fold (\<lambda>s acc. acc |\<inter>| sn_coverage_claims s) fifo keys \<longleftrightarrow> k |\<in>| keys \<and> (\<forall>s \<in> set fifo. k |\<in>| sn_coverage_claims s)"
  by (induction fifo arbitrary: keys) auto

lemma fold_max_ge: "(a::'a::linorder) \<le> fold max xs a \<and> (\<forall>x \<in> set xs. x \<le> fold max xs a)"
proof (induction xs arbitrary: a)
  case (Cons x xs)
  show ?case using Cons[of "max x a"] by auto
qed simp

lemma fifo_authority_Eligible: "fifo_authority fifo = Eligible \<longleftrightarrow> (\<forall>s \<in> set fifo. sn_coverage_authority s = Eligible)"
  by (induction fifo) (auto split: coverage_authority.split)

lemma attribute_eose_result:
  assumes "fmlookup (at_sub_id_by_wire S) (session, wire) = Some sub" "fmlookup (at_inflight S) sub = Some (s # rest)"
  shows "attribute_eose_detailed session wire eose_time S =
    Some (Some (complete_snapshot sub s (fifo_authority (s # rest))
        (map (\<lambda>k. (k, \<lparr>iv_from = fold max (floors (s # rest)) 0, iv_through = min eose_time (fold min (untils (s # rest)) eose_time)\<rparr>))
          (sorted_list_of_fset (fold (\<lambda>s acc. acc |\<inter>| sn_coverage_claims s) rest (sn_coverage_claims s))))),
      S\<lparr>at_inflight := (if rest = [] then fmdrop sub (at_inflight S) else fmupd sub rest (at_inflight S))\<rparr>)"
  unfolding attribute_eose_detailed_def assms option.case Let_def fold_attribute_fifo prod.case list.case by simp

text \<open>C25: A completion credits exactly what cannot depend on which outstanding send the relay finished:
  a key is claimed when every send queued under the wire id claims it, the claimed window lies
  inside every one of their windows and ends no later than the completion, and the claims are usable
  only when no queued send is poisoned. Exactly one send leaves the queue.\<close>

theorem attribute_eose_sound:
  assumes "fmlookup (at_sub_id_by_wire S) (session, wire) = Some sub" "fmlookup (at_inflight S) sub = Some (s # rest)"
  shows "\<exists>C S'. attribute_eose_detailed session wire eose_time S = Some (Some C, S') \<and>
    ca_sub_id C = sub \<and> ca_send_id C = sn_send_id s \<and>
    (into_eligible_claims C \<noteq> None \<longleftrightarrow> (\<forall>q \<in> set (s # rest). sn_coverage_authority q = Eligible)) \<and>
    (\<forall>k. k \<in> cc_key ` set (ca_claims C) \<longleftrightarrow> (\<forall>q \<in> set (s # rest). k |\<in>| sn_coverage_claims q)) \<and>
    (\<forall>c \<in> set (ca_claims C). iv_through (cc_interval c) \<le> eose_time \<and>
       (\<forall>q \<in> set (s # rest). (\<forall>f. sn_floor q = Some f \<longrightarrow> f \<le> iv_from (cc_interval c)) \<and>
                          (\<forall>u. sn_until q = Some u \<longrightarrow> iv_through (cc_interval c) \<le> u))) \<and>
    fmlookup (at_inflight S') sub = (if rest = [] then None else Some rest)"
proof -
  let ?lo = "fold max (floors (s # rest)) 0" and ?hi = "min eose_time (fold min (untils (s # rest)) eose_time)"
  have lo: "f \<le> ?lo" if "q \<in> set (s # rest)" "sn_floor q = Some f" for q f
    using fmember_floors[OF that] fold_max_ge[of 0 "floors (s # rest)"] by blast
  have hi: "?hi \<le> u" if "q \<in> set (s # rest)" "sn_until q = Some u" for q u
    using fmember_untils[OF that] fold_min_le[of "untils (s # rest)" eose_time] min.coboundedI2 by blast
  show ?thesis unfolding attribute_eose_result[OF assms]
    using lo hi by (auto simp: complete_snapshot_def into_eligible_claims_def fifo_authority_Eligible fmember_fold_inter image_image
        simp del: fifo_authority.simps)
qed

definition sample_sub :: sub_id where "sample_sub = SubId ''wss://r'' (WireToken 7) None"
definition sample_session :: relay_session_key where "sample_session = RelaySessionKey ''wss://r'' None"
definition sample_filter :: concrete_filter where
  "sample_filter = ConcreteFilter None None None fmempty (Some 10) (Some 90) None"
definition sample_state :: attribution_state where
  "sample_state = snd (record_send (\<lambda>_. ''h'') sample_session sample_sub sample_filter {||} attribution_new)"

lemma sample_state_fields:
  "fmlookup (at_sub_id_by_wire sample_state) (sample_session, wire_sub_id_string sample_sub) = Some sample_sub"
  "fmlookup (at_inflight sample_state) sample_sub =
     Some [\<lparr>sn_send_id = 0, sn_coverage_claims = {||}, sn_filter_hash = ''h'', sn_floor = Some 10, sn_until = Some 90,
        sn_coverage_authority = Eligible\<rparr>]"
  by (simp_all add: sample_state_def record_send_def Let_def attribution_new_def fmlookup_fm_upsert sample_filter_def)

theorem attribute_eose_sound_witness:
  "\<exists>C S'. attribute_eose_detailed sample_session (wire_sub_id_string sample_sub) 60 sample_state = Some (Some C, S') \<and>
     into_eligible_claims C \<noteq> None \<and> fmlookup (at_inflight S') sample_sub = None"
proof -
  obtain C S' where "attribute_eose_detailed sample_session (wire_sub_id_string sample_sub) 60 sample_state = Some (Some C, S')"
      "into_eligible_claims C \<noteq> None" "fmlookup (at_inflight S') sample_sub = None"
    using attribute_eose_sound[OF sample_state_fields, of 60] by auto
  then show ?thesis by blast
qed

section \<open>Sessions do not interfere\<close>

definition sub_session :: "sub_id \<Rightarrow> relay_session_key" where
  "sub_session sub = RelaySessionKey (sid_relay sub) (sid_authenticate_as sub)"

text \<open>The structural checks the source makes of itself on the send queues and the wire mappings
  (\<open>assert_consistent\<close>, first two clauses here; its clause on planned claims is left out), and that every
  subscription in flight has its wire mapping, which \<open>record_send\<close> files with the send.\<close>

definition attribution_ok :: "attribution_state \<Rightarrow> bool" where
  "attribution_ok S \<longleftrightarrow>
     (\<forall>sub. fmlookup (at_inflight S) sub \<noteq> Some []) \<and>
     (\<forall>session wire sub. fmlookup (at_sub_id_by_wire S) (session, wire) = Some sub \<longrightarrow>
        session = sub_session sub \<and> wire = wire_sub_id_string sub) \<and>
     (\<forall>sub. sub |\<in>| fmdom (at_inflight S) \<longrightarrow>
        fmlookup (at_sub_id_by_wire S) (sub_session sub, wire_sub_id_string sub) = Some sub)"

lemma attribution_okD:
  assumes "attribution_ok S"
  shows "fmlookup (at_inflight S) sub \<noteq> Some []"
    "fmlookup (at_sub_id_by_wire S) (session, wire) = Some sub \<Longrightarrow> session = sub_session sub"
    "fmlookup (at_sub_id_by_wire S) (session, wire) = Some sub \<Longrightarrow> wire = wire_sub_id_string sub"
    "fmlookup (at_inflight S) sub = Some fifo \<Longrightarrow> fmlookup (at_sub_id_by_wire S) (sub_session sub, wire_sub_id_string sub) = Some sub"
  using assms unfolding attribution_ok_def by (blast intro: fmdomI)+

lemma wire_sub_id_string_inject:
  assumes "sub_session a = sub_session b" "wire_sub_id_string a = wire_sub_id_string b"
  shows "a = b"
proof (cases a; cases b)
  fix r t p r' t' p'
  assume "a = SubId r t p" "b = SubId r' t' p'"
  then show ?thesis using assms
    by (cases t; cases t') (simp add: sub_session_def wire_sub_id_string_def decimal_inject word_unat_eq_iff)
qed

lemma attribution_new_ok: "attribution_ok attribution_new"
  by (simp add: attribution_ok_def attribution_new_def)

lemma record_send_ok:
  assumes "attribution_ok S" "session = sub_session sub"
  shows "attribution_ok (snd (record_send fhash session sub f claims S))"
  using assms wire_sub_id_string_inject
  by (auto simp: attribution_ok_def record_send_def Let_def fmlookup_fm_upsert split: option.splits if_splits)

lemma stale_iff:
  assumes "attribution_ok S"
  shows "sub |\<in>| stale_subs session S \<longleftrightarrow> fmlookup (at_sub_id_by_wire S) (session, wire_sub_id_string sub) = Some sub"
  using assms by (force simp: stale_subs_def attribution_ok_def set_sorted_list_of_fmap)

lemma clear_session_inflight:
  assumes "attribution_ok S"
  shows "fmlookup (at_inflight (clear_session session S)) sub =
    (if sub_session sub = session then None else fmlookup (at_inflight S) sub)"
proof (cases "fmlookup (at_inflight S) sub")
  case (Some fifo)
  then have "fmlookup (at_sub_id_by_wire S) (sub_session sub, wire_sub_id_string sub) = Some sub"
    by (rule attribution_okD(4)[OF assms])
  moreover have "fmlookup (at_sub_id_by_wire S) (session, wire_sub_id_string sub) = Some sub \<Longrightarrow> sub_session sub = session"
    using attribution_okD(2)[OF assms] by metis
  ultimately show ?thesis using Some by (auto simp: clear_session_def stale_iff[OF assms])
qed (simp add: clear_session_def)

lemma clear_session_wire:
  "fmlookup (at_sub_id_by_wire (clear_session session S)) (other, wire) =
     (if other = session then None else fmlookup (at_sub_id_by_wire S) (other, wire))"
  by (simp add: clear_session_def)

lemma clear_session_ok:
  assumes "attribution_ok S"
  shows "attribution_ok (clear_session session S)"
  unfolding attribution_ok_def clear_session_wire fmlookup_dom_iff clear_session_inflight[OF assms]
  using attribution_okD[OF assms] by (auto simp: fmlookup_dom_iff split: if_splits)

text \<open>C27: Clearing one session forgets all of its outstanding sends and wire ids, so no straggling
  completion of the dead connection earns anything; every other session keeps its queues, its wire ids
  and the answer to each of its completions.\<close>

theorem clear_session_isolated:
  assumes "attribution_ok S"
  shows "attribution_ok (clear_session session S) \<and>
    attribute_eose_detailed session wire t (clear_session session S) = Some (None, clear_session session S) \<and>
    (\<forall>sub. has_inflight sub (clear_session session S) \<longleftrightarrow> has_inflight sub S \<and> sub_session sub \<noteq> session) \<and>
    (\<forall>other. other \<noteq> session \<longrightarrow>
       map_option fst (attribute_eose_detailed other wire t (clear_session session S)) =
       map_option fst (attribute_eose_detailed other wire t S))"
proof (intro conjI allI impI)
  show "attribution_ok (clear_session session S)" by (rule clear_session_ok[OF assms])
  show "attribute_eose_detailed session wire t (clear_session session S) = Some (None, clear_session session S)"
    by (simp add: attribute_eose_detailed_def) (simp add: clear_session_def)
  show "has_inflight sub (clear_session session S) \<longleftrightarrow> has_inflight sub S \<and> sub_session sub \<noteq> session" for sub
    by (simp add: has_inflight_def fmlookup_dom_iff clear_session_inflight[OF assms])
  fix other assume ne: "other \<noteq> session"
  have wires: "fmlookup (at_sub_id_by_wire (clear_session session S)) (other, wire) = fmlookup (at_sub_id_by_wire S) (other, wire)"
    using ne by (simp add: clear_session_def)
  show "map_option fst (attribute_eose_detailed other wire t (clear_session session S)) =
       map_option fst (attribute_eose_detailed other wire t S)"
  proof (cases "fmlookup (at_sub_id_by_wire S) (other, wire)")
    case (Some sub)
    then have "sub_session sub \<noteq> session" using attribution_okD(2)[OF assms Some] ne by simp
    then show ?thesis using Some wires
      by (simp add: attribute_eose_detailed_def clear_session_inflight[OF assms] Let_def split: option.split list.split prod.split)
  qed (simp add: attribute_eose_detailed_def wires)
qed

lemma sample_state_ok: "attribution_ok sample_state"
  unfolding sample_state_def
  by (rule record_send_ok[OF attribution_new_ok]) (simp add: sub_session_def sample_session_def sample_sub_def)

theorem clear_session_isolated_witness:
  "\<not> has_inflight sample_sub (clear_session sample_session sample_state) \<and> has_inflight sample_sub sample_state"
  using clear_session_isolated[OF sample_state_ok, of sample_session]
  by (simp add: sub_session_def sample_session_def sample_sub_def)
    (simp add: sample_state_def record_send_def Let_def has_inflight_def sample_sub_def)

section \<open>A failed commit withdraws the claim\<close>

lemma poison_not_Eligible [simp]: "poison reason authority \<noteq> Eligible"
  by (cases authority) auto

text \<open>The completions of one wire id in a row, and the sends recorded in between them.\<close>

fun completions :: "nat \<Rightarrow> relay_session_key \<Rightarrow> string \<Rightarrow> u64 \<Rightarrow> attribution_state \<Rightarrow> completed_attribution option list" where
  "completions 0 session wire t S = []"
| "completions (Suc n) session wire t S =
     (case attribute_eose_detailed session wire t S of
        None \<Rightarrow> []
      | Some (C, S') \<Rightarrow> C # completions n session wire t S')"

definition record_sends ::
  "(concrete_filter \<Rightarrow> descriptor_hash) \<Rightarrow> relay_session_key \<Rightarrow> sub_id \<Rightarrow> (concrete_filter \<times> coverage_key fset) list \<Rightarrow>
   attribution_state \<Rightarrow> attribution_state" where
  "record_sends fhash session sub = fold (\<lambda>(f, claims) S. snd (record_send fhash session sub f claims S))"

lemma completions_poisoned:
  assumes "fmlookup (at_sub_id_by_wire S) (session, wire) = Some sub" "fmlookup (at_inflight S) sub = Some (A @ B)"
    "\<forall>q \<in> set A. sn_coverage_authority q \<noteq> Eligible"
  shows "length (completions (length A) session wire t S) = length A \<and>
    (\<forall>C \<in> set (completions (length A) session wire t S). \<exists>c. C = Some c \<and> into_eligible_claims c = None)"
  using assms
proof (induction A arbitrary: S)
  case (Cons q A)
  let ?S' = "S\<lparr>at_inflight := (if A @ B = [] then fmdrop sub (at_inflight S) else fmupd sub (A @ B) (at_inflight S))\<rparr>"
  obtain C where C: "attribute_eose_detailed session wire t S = Some (Some C, ?S')" "into_eligible_claims C = None"
    using attribute_eose_result[OF Cons.prems(1), of q "A @ B" t] Cons.prems(2,3)
    by (auto simp: complete_snapshot_def into_eligible_claims_def fifo_authority_Eligible simp del: fifo_authority.simps)
  show ?case
  proof (cases A)
    case Nil
    then show ?thesis using C by simp
  next
    case (Cons q' A')
    then show ?thesis using C Cons.IH[of ?S'] Cons.prems by simp
  qed
qed simp

lemma record_sends_queue:
  assumes "fmlookup (at_inflight S) sub = Some fifo" "fmlookup (at_sub_id_by_wire S) (session, wire_sub_id_string sub) = Some sub"
  shows "\<exists>extra. fmlookup (at_inflight (record_sends fhash session sub sends S)) sub = Some (fifo @ extra) \<and>
    fmlookup (at_sub_id_by_wire (record_sends fhash session sub sends S)) (session, wire_sub_id_string sub) = Some sub"
  using assms
proof (induction sends arbitrary: S fifo)
  case (Cons send sends)
  let ?S = "snd (record_send fhash session sub (fst send) (snd send) S)"
  obtain snapshot where "fmlookup (at_inflight ?S) sub = Some (fifo @ [snapshot])"
      "fmlookup (at_sub_id_by_wire ?S) (session, wire_sub_id_string sub) = Some sub"
    using Cons.prems by (simp add: record_send_def Let_def fmlookup_fm_upsert)
  from Cons.IH[OF this] show ?case by (auto simp: record_sends_def split_def)
qed (simp add: record_sends_def)

text \<open>C26: Once an event of a subscription could not be committed, no send outstanding at that moment
  can earn coverage: however many requests are sent under the id afterwards, the completions that
  answer the outstanding ones all come back without a usable claim.\<close>

theorem poisoned_sends_earn_nothing:
  assumes "attribution_ok S" "fmlookup (at_inflight S) sub = Some fifo"
  shows "let S' = record_sends fhash (sub_session sub) sub sends
                    (poison_event_commit_failure (sub_session sub) (wire_sub_id_string sub) S);
             answers = completions (length fifo) (sub_session sub) (wire_sub_id_string sub) t S'
         in length answers = length fifo \<and> (\<forall>C \<in> set answers. \<exists>c. C = Some c \<and> into_eligible_claims c = None)"
proof -
  let ?wire = "wire_sub_id_string sub"
  let ?P = "poison_event_commit_failure (sub_session sub) ?wire S"
  let ?fifo = "map (poison_targets (fset_of_list (map sn_send_id fifo))) fifo"
  have wire: "fmlookup (at_sub_id_by_wire S) (sub_session sub, ?wire) = Some sub"
    by (rule attribution_okD(4)[OF assms])
  then have "fmlookup (at_inflight ?P) sub = Some ?fifo" "fmlookup (at_sub_id_by_wire ?P) (sub_session sub, ?wire) = Some sub"
    using assms(2) by (simp_all add: poison_event_commit_failure_def)
  from record_sends_queue[OF this, of fhash sends] obtain extra where
    "fmlookup (at_inflight (record_sends fhash (sub_session sub) sub sends ?P)) sub = Some (?fifo @ extra)"
    "fmlookup (at_sub_id_by_wire (record_sends fhash (sub_session sub) sub sends ?P)) (sub_session sub, ?wire) = Some sub"
    by blast
  moreover have "\<forall>q \<in> set ?fifo. sn_coverage_authority q \<noteq> Eligible"
    by (auto simp: poison_targets_def)
  ultimately show ?thesis using completions_poisoned[of _ "sub_session sub" ?wire sub ?fifo extra t] by (simp add: Let_def)
qed

theorem poisoned_sends_earn_nothing_witness:
  "\<exists>c. completions 1 (sub_session sample_sub) (wire_sub_id_string sample_sub) 60
     (poison_event_commit_failure (sub_session sample_sub) (wire_sub_id_string sample_sub) sample_state) = [Some c] \<and>
   into_eligible_claims c = None"
proof -
  let ?answers = "completions 1 (sub_session sample_sub) (wire_sub_id_string sample_sub) 60
     (poison_event_commit_failure (sub_session sample_sub) (wire_sub_id_string sample_sub) sample_state)"
  have "length ?answers = 1 \<and> (\<forall>C \<in> set ?answers. \<exists>c. C = Some c \<and> into_eligible_claims c = None)"
    using poisoned_sends_earn_nothing[OF sample_state_ok sample_state_fields(2), of "\<lambda>_. ''h''" "[]" 60]
    by (simp add: record_sends_def Let_def del: completions.simps)
  then show ?thesis by (cases ?answers) (auto simp del: completions.simps One_nat_def)
qed

end
