(* ===== verification/Store_Types.thy ===== *)
theory Store_Types
  imports Address_Key "HOL-Library.Monad_Syntax"
begin

text \<open>
  The values of the event store (\<open>crates/nmp-store/src/lib.rs\<close>, \<open>redb_store/publish_queue.rs\<close>,
  \<open>redb_store/query.rs\<close>) that its ingest and removal paths handle.

  Rows are modelled by the values their codecs carry, not by their bytes. An \<open>EventId\<close> and a
  \<open>PublicKey\<close> are their texts. What the store calls of the \<open>nostr\<close> crate is the record \<open>store_env\<close>: the
  tag accessors, \<open>RelayUrl::parse\<close>, and the single-letter tags an event is indexed under.
\<close>

type_synonym event_key = u64
type_synonym relay_key = u32
type_synonym intent_id = u64

record store_env =
  se_tags :: tag_reader
  se_parse_relay :: "string \<Rightarrow> relay_url option"
  se_index_tags :: "event \<Rightarrow> (char \<times> string) list"

datatype sig_state = SigPending | SigSigned

record local_origin =
  lo_owners :: "intent_id fset"
  lo_sig_state :: sig_state

record provenance =
  pv_seen :: "(relay_url, u64) fmap"
  pv_local :: "local_origin option"

record stored_event =
  st_event :: event
  st_provenance :: provenance

record relay_observed =
  ro_relay :: relay_url
  ro_at :: u64

datatype refuse_reason = AlreadyExpired | Tombstoned

datatype insert_outcome =
    Inserted
  | Duplicate (io_grew: bool) (io_satisfied: "intent_id list") (io_locally_accepted: bool)
  | Superseded stored_event
  | Stale
  | Refused refuse_reason
  | Kind5Processed "stored_event list"

definition provenance_merge_observation :: "relay_observed \<Rightarrow> provenance \<Rightarrow> bool \<times> provenance" where
  "provenance_merge_observation from p =
     (case fmlookup (pv_seen p) (ro_relay from) of
        None \<Rightarrow> (True, p\<lparr>pv_seen := fmupd (ro_relay from) (ro_at from) (pv_seen p)\<rparr>)
      | Some existing \<Rightarrow>
          if existing < ro_at from then (True, p\<lparr>pv_seen := fmupd (ro_relay from) (ro_at from) (pv_seen p)\<rparr>)
          else (False, p))"

section \<open>Publish queue rows\<close>

datatype intent_sig_state = AwaitingSigner | IntentPending | IntentSigned

datatype receipt_state =
    Accepted | Signed | Compensated | Cancelled | RsSuperseded | NoDestination | RsRefused refuse_reason

text \<open>The work of a replaceable operation is carried along untouched by the paths modelled here.\<close>

datatype 'op intent_work =
    EventWork (iw_frozen: event) (iw_routing: string) (iw_sig_state: intent_sig_state)
  | ReplaceableOperationWork 'op

record 'op intent_record =
  ir_receipt_id :: u64
  ir_work :: "'op intent_work"
  ir_expected_pubkey :: public_key
  ir_signing_identity_ref :: string
  ir_accepted_at :: u64

datatype 'op receipt_payload =
    EventReceipt (rp_event_id: string) (rp_state: receipt_state)
  | OperationReceipt 'op

datatype suppress_claim =
    IdClaim (sc_target: string) (sc_claiming_author: public_key)
  | AddrClaim (sc_key: string) (sc_ceiling: u64) (sc_deleting_author: public_key)

record addr_claimant =
  ac_intent_id :: u64
  ac_ceiling :: u64

record addr_tombstone =
  at_ceiling :: u64
  at_deleting_event_id :: string
  at_deleting_author :: public_key

abbreviation KIND_EVENT_DELETION :: u16 where "KIND_EVENT_DELETION \<equiv> 5"

end
