(* ===== verification/Canonical.thy ===== *)
theory Canonical
  imports Store_Types
begin

text \<open>
  \<open>crates/nmp-store/src/redb_store/canonical.rs\<close>: the tables that jointly own one event row.

  The event tree holds three columns under an event key (the note row, the local sidecar and one
  observation per relay); each column is one map here. The two allocators are loaded from the scalar
  table when a transaction opens and written back by \<open>flush_pending\<close>; relay reference counts are
  cached for the transaction and flushed with them.

  An operation is a function on the tables that returns an option: \<open>None\<close> is its \<open>Err\<close>, which drops
  the write transaction. Errors of the database itself and undecodable rows are outside the model.
\<close>

record canonical_tables =
  ct_rows :: "(event_key, event) fmap"
  ct_local :: "(event_key, local_origin) fmap"
  ct_observations :: "(event_key \<times> relay_key, u64) fmap"
  ct_event_ids :: "(string, event_key) fmap"
  ct_meta_next_event_key :: "u64 option"
  ct_meta_next_relay_key :: "u64 option"
  ct_relays :: "(relay_key, u64 \<times> string) fmap"
  ct_relay_ids :: "(string, relay_key) fmap"
  ct_next_event_key :: event_key
  ct_next_relay_key :: relay_key
  ct_event_allocator_dirty :: bool
  ct_relay_allocator_dirty :: bool
  ct_relay_ref_counts :: "(relay_key, u64) fmap"

text \<open>\<open>CanonicalWriteTables::open\<close> on the durable tables \<open>D\<close>: the transaction-local fields are
  initialised, a relay allocator that does not fit its width is refused.\<close>

definition canonical_open :: "canonical_tables \<Rightarrow> canonical_tables option" where
  "canonical_open D =
     do {
       next_relay_key \<leftarrow> (case ct_meta_next_relay_key D of
           None \<Rightarrow> Some 1
         | Some v \<Rightarrow> if unat v < 2 ^ 32 then Some (ucast v) else None);
       Some (D\<lparr>ct_next_event_key := (case ct_meta_next_event_key D of None \<Rightarrow> 1 | Some v \<Rightarrow> v),
               ct_next_relay_key := next_relay_key,
               ct_event_allocator_dirty := False, ct_relay_allocator_dirty := False,
               ct_relay_ref_counts := fmempty\<rparr>)
     }"

definition key_for_id :: "string \<Rightarrow> canonical_tables \<Rightarrow> event_key option" where
  "key_for_id eid T = fmlookup (ct_event_ids T) eid"

definition load_local :: "event_key \<Rightarrow> canonical_tables \<Rightarrow> local_origin option" where
  "load_local key T = fmlookup (ct_local T) key"

definition fold_seen_at :: "relay_url \<Rightarrow> u64 \<Rightarrow> (relay_url, u64) fmap \<Rightarrow> (relay_url, u64) fmap" where
  "fold_seen_at relay at seen = fm_upsert relay (\<lambda>existing. if at > existing then at else existing) at seen"

text \<open>The observations of one event, in the order of the relay key.\<close>

definition observation_range :: "event_key \<Rightarrow> canonical_tables \<Rightarrow> (relay_key \<times> u64) list" where
  "observation_range key T =
     map (\<lambda>((_, relay), at). (relay, at)) (filter (\<lambda>((k, _), _). k = key) (sorted_list_of_fmap (ct_observations T)))"

fun load_seen_rows ::
  "store_env \<Rightarrow> (relay_key \<times> u64) list \<Rightarrow> canonical_tables \<Rightarrow> (relay_url, u64) fmap \<Rightarrow> (relay_url, u64) fmap option" where
  "load_seen_rows env [] T seen = Some seen"
| "load_seen_rows env ((relay_key, at) # rows) T seen =
     do {
       (_, url) \<leftarrow> fmlookup (ct_relays T) relay_key;
       relay \<leftarrow> se_parse_relay env url;
       load_seen_rows env rows T (fold_seen_at relay at seen)
     }"

definition load_seen :: "store_env \<Rightarrow> event_key \<Rightarrow> canonical_tables \<Rightarrow> (relay_url, u64) fmap option" where
  "load_seen env key T = load_seen_rows env (observation_range key T) T fmempty"

definition load_by_key :: "store_env \<Rightarrow> event_key \<Rightarrow> canonical_tables \<Rightarrow> stored_event option option" where
  "load_by_key env key T =
     (case fmlookup (ct_rows T) key of
        None \<Rightarrow> Some None
      | Some event \<Rightarrow>
          do {
            seen \<leftarrow> load_seen env key T;
            Some (Some \<lparr>st_event = event, st_provenance = \<lparr>pv_seen = seen, pv_local = load_local key T\<rparr>\<rparr>)
          })"

definition load_by_id :: "store_env \<Rightarrow> string \<Rightarrow> canonical_tables \<Rightarrow> (event_key \<times> stored_event) option option" where
  "load_by_id env eid T =
     (case key_for_id eid T of
        None \<Rightarrow> Some None
      | Some key \<Rightarrow> do { loaded \<leftarrow> load_by_key env key T; Some (map_option (Pair key) loaded) })"

definition allocate_key :: "canonical_tables \<Rightarrow> (event_key \<times> canonical_tables) option" where
  "allocate_key T =
     do {
       succ \<leftarrow> checked_add (ct_next_event_key T) 1;
       Some (ct_next_event_key T, T\<lparr>ct_next_event_key := succ, ct_event_allocator_dirty := True\<rparr>)
     }"

definition allocate_relay_key :: "canonical_tables \<Rightarrow> (relay_key \<times> canonical_tables) option" where
  "allocate_relay_key T =
     do {
       succ \<leftarrow> checked_add (ct_next_relay_key T) 1;
       Some (ct_next_relay_key T, T\<lparr>ct_next_relay_key := succ, ct_relay_allocator_dirty := True\<rparr>)
     }"

definition intern_relay :: "relay_url \<Rightarrow> canonical_tables \<Rightarrow> (relay_key \<times> canonical_tables) option" where
  "intern_relay relay T =
     (case fmlookup (ct_relay_ids T) relay of
        Some existing \<Rightarrow> Some (existing, T)
      | None \<Rightarrow>
          do {
            (key, T) \<leftarrow> allocate_relay_key T;
            Some (key, T\<lparr>ct_relays := fmupd key (0, relay) (ct_relays T),
                         ct_relay_ids := fmupd relay key (ct_relay_ids T)\<rparr>)
          })"

definition relay_row :: "relay_key \<Rightarrow> canonical_tables \<Rightarrow> (u64 \<times> string) option" where
  "relay_row relay_key T = fmlookup (ct_relays T) relay_key"

definition effective_relay_ref :: "relay_key \<Rightarrow> canonical_tables \<Rightarrow> (u64 \<times> canonical_tables) option" where
  "effective_relay_ref relay_key T =
     (case fmlookup (ct_relay_ref_counts T) relay_key of
        Some current \<Rightarrow> Some (current, T)
      | None \<Rightarrow>
          do {
            (current, _) \<leftarrow> relay_row relay_key T;
            Some (current, T\<lparr>ct_relay_ref_counts := fmupd relay_key current (ct_relay_ref_counts T)\<rparr>)
          })"

definition increment_relay_ref :: "relay_key \<Rightarrow> canonical_tables \<Rightarrow> canonical_tables option" where
  "increment_relay_ref relay_key T =
     do {
       (current, T) \<leftarrow> effective_relay_ref relay_key T;
       succ \<leftarrow> checked_add current 1;
       Some (T\<lparr>ct_relay_ref_counts := fmupd relay_key succ (ct_relay_ref_counts T)\<rparr>)
     }"

definition decrement_relay_ref :: "relay_key \<Rightarrow> canonical_tables \<Rightarrow> canonical_tables option" where
  "decrement_relay_ref relay_key T =
     do {
       (current, T) \<leftarrow> effective_relay_ref relay_key T;
       pred \<leftarrow> checked_sub current 1;
       Some (T\<lparr>ct_relay_ref_counts := fmupd relay_key pred (ct_relay_ref_counts T)\<rparr>)
     }"

fun flush_relay_refs :: "(relay_key \<times> u64) list \<Rightarrow> canonical_tables \<Rightarrow> canonical_tables option" where
  "flush_relay_refs [] T = Some T"
| "flush_relay_refs ((relay_key, effective) # counts) T =
     do {
       (persisted, url) \<leftarrow> relay_row relay_key T;
       flush_relay_refs counts
         (if effective > 0
          then if effective = persisted then T
               else T\<lparr>ct_relays := fmupd relay_key (effective, url) (ct_relays T)\<rparr>
          else T\<lparr>ct_relays := fmdrop relay_key (ct_relays T), ct_relay_ids := fmdrop url (ct_relay_ids T)\<rparr>)
     }"

definition flush_pending :: "canonical_tables \<Rightarrow> canonical_tables option" where
  "flush_pending T =
     (let T = (if ct_event_allocator_dirty T
               then T\<lparr>ct_meta_next_event_key := Some (ct_next_event_key T), ct_event_allocator_dirty := False\<rparr> else T);
          T = (if ct_relay_allocator_dirty T
               then T\<lparr>ct_meta_next_relay_key := Some (ucast (ct_next_relay_key T)), ct_relay_allocator_dirty := False\<rparr> else T)
      in flush_relay_refs (sorted_list_of_fmap (ct_relay_ref_counts T)) (T\<lparr>ct_relay_ref_counts := fmempty\<rparr>))"

definition merge_observation :: "event_key \<Rightarrow> relay_url \<Rightarrow> u64 \<Rightarrow> canonical_tables \<Rightarrow> (bool \<times> canonical_tables) option" where
  "merge_observation event_key relay at T =
     do {
       (relay_key, T) \<leftarrow> intern_relay relay T;
       let existing = fmlookup (ct_observations T) (event_key, relay_key);
       if (case existing of None \<Rightarrow> False | Some old \<Rightarrow> old \<ge> at) then Some (False, T)
       else do {
         let T = T\<lparr>ct_observations := fmupd (event_key, relay_key) at (ct_observations T)\<rparr>;
         T \<leftarrow> (if existing = None then increment_relay_ref relay_key T else Some T);
         Some (True, T)
       }
     }"

definition remove_observation :: "event_key \<Rightarrow> relay_key \<Rightarrow> canonical_tables \<Rightarrow> canonical_tables option" where
  "remove_observation event_key relay_key T =
     (case fmlookup (ct_observations T) (event_key, relay_key) of
        None \<Rightarrow> Some T
      | Some _ \<Rightarrow>
          decrement_relay_ref relay_key
            (T\<lparr>ct_observations := fmdrop (event_key, relay_key) (ct_observations T)\<rparr>))"

fun remove_observations :: "event_key \<Rightarrow> relay_key list \<Rightarrow> canonical_tables \<Rightarrow> canonical_tables option" where
  "remove_observations event_key [] T = Some T"
| "remove_observations event_key (relay_key # relay_keys) T =
     do {
       T \<leftarrow> remove_observation event_key relay_key T;
       remove_observations event_key relay_keys T
     }"

definition remove_all_observations :: "event_key \<Rightarrow> canonical_tables \<Rightarrow> canonical_tables option" where
  "remove_all_observations event_key T = remove_observations event_key (map fst (observation_range event_key T)) T"

fun merge_seen :: "event_key \<Rightarrow> (relay_url \<times> u64) list \<Rightarrow> canonical_tables \<Rightarrow> canonical_tables option" where
  "merge_seen key [] T = Some T"
| "merge_seen key ((relay, at) # seen) T = do { (_, T) \<leftarrow> merge_observation key relay at T; merge_seen key seen T }"

definition insert_new :: "event \<Rightarrow> provenance \<Rightarrow> canonical_tables \<Rightarrow> (event_key \<times> canonical_tables) option" where
  "insert_new event p T =
     do {
       (key, T) \<leftarrow> allocate_key T;
       let T = T\<lparr>ct_rows := fmupd key event (ct_rows T), ct_event_ids := fmupd (ev_id event) key (ct_event_ids T)\<rparr>;
       let T = (case pv_local p of None \<Rightarrow> T | Some l \<Rightarrow> T\<lparr>ct_local := fmupd key l (ct_local T)\<rparr>);
       T \<leftarrow> merge_seen key (sorted_list_of_fmap (pv_seen p)) T;
       Some (key, T)
     }"

definition replace_event :: "event_key \<Rightarrow> event \<Rightarrow> canonical_tables \<Rightarrow> canonical_tables" where
  "replace_event key event T = T\<lparr>ct_rows := fmupd key event (ct_rows T)\<rparr>"

definition replace_local :: "event_key \<Rightarrow> local_origin option \<Rightarrow> canonical_tables \<Rightarrow> canonical_tables" where
  "replace_local key l T =
     (case l of
        Some l \<Rightarrow> T\<lparr>ct_local := fmupd key l (ct_local T)\<rparr>
      | None \<Rightarrow> T\<lparr>ct_local := fmdrop key (ct_local T)\<rparr>)"

fun remove_departed :: "event_key \<Rightarrow> provenance \<Rightarrow> relay_url list \<Rightarrow> canonical_tables \<Rightarrow> canonical_tables option" where
  "remove_departed key p [] T = Some T"
| "remove_departed key p (relay # relays) T =
     (if relay |\<notin>| fmdom (pv_seen p)
      then do {
        relay_key \<leftarrow> fmlookup (ct_relay_ids T) relay;
        T \<leftarrow> remove_observation key relay_key T;
        remove_departed key p relays T
      }
      else remove_departed key p relays T)"

fun put_observations ::
  "event_key \<Rightarrow> (relay_url, u64) fmap \<Rightarrow> (relay_url \<times> u64) list \<Rightarrow> canonical_tables \<Rightarrow> canonical_tables option" where
  "put_observations key existing [] T = Some T"
| "put_observations key existing ((relay, at) # seen) T =
     (if fmlookup existing relay \<noteq> Some at
      then do {
        (relay_key, T) \<leftarrow> intern_relay relay T;
        let was_absent = (fmlookup (ct_observations T) (key, relay_key) = None);
        let T = T\<lparr>ct_observations := fmupd (key, relay_key) at (ct_observations T)\<rparr>;
        T \<leftarrow> (if was_absent then increment_relay_ref relay_key T else Some T);
        put_observations key existing seen T
      }
      else put_observations key existing seen T)"

definition replace_provenance :: "store_env \<Rightarrow> event_key \<Rightarrow> provenance \<Rightarrow> canonical_tables \<Rightarrow> canonical_tables option" where
  "replace_provenance env key p T =
     do {
       existing \<leftarrow> load_seen env key T;
       T \<leftarrow> remove_departed key p (sorted_list_of_fset (fmdom existing)) T;
       T \<leftarrow> put_observations key existing (sorted_list_of_fmap (pv_seen p)) T;
       Some (replace_local key (pv_local p) T)
     }"

definition remove_by_key :: "event_key \<Rightarrow> string \<Rightarrow> canonical_tables \<Rightarrow> canonical_tables option" where
  "remove_by_key key eid T =
     do {
       T \<leftarrow> remove_all_observations key T;
       Some (T\<lparr>ct_event_ids := fmdrop eid (ct_event_ids T),
               ct_rows := fmdrop key (ct_rows T),
               ct_local := fmdrop key (ct_local T),
               ct_observations := fmfilter (\<lambda>(k, _). k \<noteq> key) (ct_observations T)\<rparr>)
     }"

text \<open>The full scan in key order: an event's columns are adjacent, in the order row, local,
  observations.\<close>

datatype column = ColRow event | ColLocal local_origin | ColObservation relay_key u64

definition event_columns :: "canonical_tables \<Rightarrow> event_key \<Rightarrow> (event_key \<times> column) list" where
  "event_columns T key =
     (case fmlookup (ct_rows T) key of None \<Rightarrow> [] | Some e \<Rightarrow> [(key, ColRow e)]) @
     (case fmlookup (ct_local T) key of None \<Rightarrow> [] | Some l \<Rightarrow> [(key, ColLocal l)]) @
     map (\<lambda>(relay_key, at). (key, ColObservation relay_key at)) (observation_range key T)"

definition scan :: "canonical_tables \<Rightarrow> (event_key \<times> column) list" where
  "scan T =
     concat (map (event_columns T)
       (sorted_list_of_fset (fmdom (ct_rows T) |\<union>| fmdom (ct_local T) |\<union>| fst |`| fmdom (ct_observations T))))"

end
