(* ===== verification/Mutation.thy ===== *)
theory Mutation
  imports Canonical
begin

text \<open>
  \<open>crates/nmp-store/src/redb_store/ingest_txn.rs\<close> and \<open>mutation.rs\<close>: the table bundle of a governed
  write, tombstones, row removal, the two halves of deletion requests, the signature fan-out to
  co-owning intents and the re-admission of a stashed row.

  The tombstone and suppression tables are split by the leading column byte of their keys into an id
  part and an address part; an id key is the pair of event id and author. The pending posting changes
  of the transaction are kept as \<open>PostingsBatch\<close> has them, an addition by the event it indexes.
\<close>

record postings_batch =
  pb_additions :: "(event_key, event) fmap"
  pb_deaths :: "event_key fset"

definition batch_insert :: "event \<Rightarrow> event_key \<Rightarrow> postings_batch \<Rightarrow> postings_batch" where
  "batch_insert event key B =
     B\<lparr>pb_deaths := pb_deaths B |-| {|key|}, pb_additions := fmupd key event (pb_additions B)\<rparr>"

definition batch_remove :: "event_key \<Rightarrow> postings_batch \<Rightarrow> postings_batch" where
  "batch_remove key B =
     (if fmlookup (pb_additions B) key = None then B\<lparr>pb_deaths := finsert key (pb_deaths B)\<rparr>
      else B\<lparr>pb_additions := fmdrop key (pb_additions B)\<rparr>)"

record 'op ingest_txn =
  tx_canonical :: canonical_tables
  tx_addr_index :: "(string, event_key) fmap"
  tx_id_tombstones :: "(string \<times> public_key, string) fmap"
  tx_addr_tombstones :: "(string, addr_tombstone) fmap"
  tx_expiration_index :: "(u64 \<times> string, event_key) fmap"
  tx_intents :: "(intent_id, 'op intent_record) fmap"
  tx_receipts :: "(u64, 'op receipt_payload) fmap"
  tx_displaced :: "(intent_id, stored_event) fmap"
  tx_kind5_claims :: "(intent_id, suppress_claim list) fmap"
  tx_id_suppress :: "(string \<times> public_key, u64 list) fmap"
  tx_addr_suppress :: "(string, addr_claimant list) fmap"
  tx_postings :: postings_batch

definition tombstone_refuses :: "store_env \<Rightarrow> event \<Rightarrow> 'op ingest_txn \<Rightarrow> bool" where
  "tombstone_refuses env event X \<longleftrightarrow>
     (ev_id event, ev_pubkey event) |\<in>| fmdom (tx_id_tombstones X) \<or>
     (case address_key_for (se_tags env) event of
        None \<Rightarrow> False
      | Some key \<Rightarrow>
          (case fmlookup (tx_addr_tombstones X) (to_redb_key key) of
             None \<Rightarrow> False
           | Some rec \<Rightarrow> ev_created_at event \<le> at_ceiling rec))"

definition remove_row_in_txn ::
  "store_env \<Rightarrow> string \<Rightarrow> (stored_event \<Rightarrow> bool) \<Rightarrow> 'op ingest_txn \<Rightarrow> (stored_event option \<times> 'op ingest_txn) option" where
  "remove_row_in_txn env eid accept X =
     do {
       loaded \<leftarrow> load_by_id env eid (tx_canonical X);
       case loaded of
         None \<Rightarrow> Some (None, X)
       | Some (event_key, se) \<Rightarrow>
           if \<not> accept se then Some (None, X)
           else do {
             canonical \<leftarrow> remove_by_key event_key eid (tx_canonical X);
             let X = X\<lparr>tx_canonical := canonical, tx_postings := batch_remove event_key (tx_postings X)\<rparr>;
             let X = (case address_key_for (se_tags env) (st_event se) of
                        None \<Rightarrow> X
                      | Some addr_key \<Rightarrow>
                          if fmlookup (tx_addr_index X) (to_redb_key addr_key) = Some event_key
                          then X\<lparr>tx_addr_index := fmdrop (to_redb_key addr_key) (tx_addr_index X)\<rparr> else X);
             let X = (case tr_expiration (se_tags env) (st_event se) of
                        None \<Rightarrow> X
                      | Some ts \<Rightarrow> X\<lparr>tx_expiration_index := fmdrop (ts, eid) (tx_expiration_index X)\<rparr>);
             Some (Some se, X)
           }
     }"

section \<open>Deletion requests\<close>

fun delete_targets ::
  "store_env \<Rightarrow> event \<Rightarrow> string list \<Rightarrow> 'op ingest_txn \<Rightarrow> (stored_event list \<times> 'op ingest_txn) option" where
  "delete_targets env deleting [] X = Some ([], X)"
| "delete_targets env deleting (target_id # target_ids) X =
     do {
       (removed, X) \<leftarrow> remove_row_in_txn env target_id (\<lambda>se. ev_pubkey (st_event se) = ev_pubkey deleting) X;
       (deleted, X) \<leftarrow> delete_targets env deleting target_ids
         (X\<lparr>tx_id_tombstones := fmupd (target_id, ev_pubkey deleting) (ev_id deleting) (tx_id_tombstones X)\<rparr>);
       Some ((case removed of None \<Rightarrow> [] | Some se \<Rightarrow> [se]) @ deleted, X)
     }"

definition raise_ceiling :: "event \<Rightarrow> string \<Rightarrow> 'op ingest_txn \<Rightarrow> 'op ingest_txn" where
  "raise_ceiling deleting key_str X =
     (if (case fmlookup (tx_addr_tombstones X) key_str of None \<Rightarrow> True | Some rec \<Rightarrow> ev_created_at deleting > at_ceiling rec)
      then X\<lparr>tx_addr_tombstones := fmupd key_str
               \<lparr>at_ceiling = ev_created_at deleting, at_deleting_event_id = ev_id deleting,
                at_deleting_author = ev_pubkey deleting\<rparr> (tx_addr_tombstones X)\<rparr>
      else X)"

fun delete_coordinates ::
  "store_env \<Rightarrow> event \<Rightarrow> coordinate list \<Rightarrow> 'op ingest_txn \<Rightarrow> (stored_event list \<times> 'op ingest_txn) option" where
  "delete_coordinates env deleting [] X = Some ([], X)"
| "delete_coordinates env deleting (coord # coords) X =
     (if co_public_key coord \<noteq> ev_pubkey deleting then delete_coordinates env deleting coords X
      else case address_key_for_coordinate coord of
        None \<Rightarrow> delete_coordinates env deleting coords X
      | Some key \<Rightarrow>
          do {
            let X = raise_ceiling deleting (to_redb_key key) X;
            (removed, X) \<leftarrow> (case fmlookup (tx_addr_index X) (to_redb_key key) of
                None \<Rightarrow> Some (None, X)
              | Some current_key \<Rightarrow>
                  do {
                    loaded \<leftarrow> load_by_key env current_key (tx_canonical X);
                    current \<leftarrow> loaded;
                    remove_row_in_txn env (ev_id (st_event current))
                      (\<lambda>se. ev_created_at (st_event se) \<le> ev_created_at deleting) X
                  });
            (deleted, X) \<leftarrow> delete_coordinates env deleting coords X;
            Some ((case removed of None \<Rightarrow> [] | Some se \<Rightarrow> [se]) @ deleted, X)
          })"

definition process_kind5_deletions ::
  "store_env \<Rightarrow> event \<Rightarrow> 'op ingest_txn \<Rightarrow> (stored_event list \<times> 'op ingest_txn) option" where
  "process_kind5_deletions env deleting X =
     do {
       (by_id, X) \<leftarrow> delete_targets env deleting (tr_event_ids (se_tags env) deleting) X;
       (by_address, X) \<leftarrow> delete_coordinates env deleting (tr_coordinates (se_tags env) deleting) X;
       Some (by_id @ by_address, X)
     }"

section \<open>Suppression claims\<close>

definition remove_claimant :: "string \<times> public_key \<Rightarrow> intent_id \<Rightarrow> 'op ingest_txn \<Rightarrow> 'op ingest_txn" where
  "remove_claimant key intent X =
     (case fmlookup (tx_id_suppress X) key of
        None \<Rightarrow> X
      | Some claimants \<Rightarrow>
          (let claimants = filter (\<lambda>i. i \<noteq> intent) claimants
           in if claimants = [] then X\<lparr>tx_id_suppress := fmdrop key (tx_id_suppress X)\<rparr>
              else X\<lparr>tx_id_suppress := fmupd key claimants (tx_id_suppress X)\<rparr>))"

definition remove_addr_claimant :: "string \<Rightarrow> intent_id \<Rightarrow> 'op ingest_txn \<Rightarrow> 'op ingest_txn" where
  "remove_addr_claimant key intent X =
     (case fmlookup (tx_addr_suppress X) key of
        None \<Rightarrow> X
      | Some claimants \<Rightarrow>
          (let claimants = filter (\<lambda>c. ac_intent_id c \<noteq> intent) claimants
           in if claimants = [] then X\<lparr>tx_addr_suppress := fmdrop key (tx_addr_suppress X)\<rparr>
              else X\<lparr>tx_addr_suppress := fmupd key claimants (tx_addr_suppress X)\<rparr>))"

definition add_claimant_in_txn :: "string \<times> public_key \<Rightarrow> intent_id \<Rightarrow> 'op ingest_txn \<Rightarrow> 'op ingest_txn" where
  "add_claimant_in_txn key intent X =
     (let claimants = (case fmlookup (tx_id_suppress X) key of None \<Rightarrow> [] | Some cs \<Rightarrow> cs);
          claimants = (if intent \<in> set claimants then claimants else claimants @ [intent])
      in X\<lparr>tx_id_suppress := fmupd key claimants (tx_id_suppress X)\<rparr>)"

definition add_addr_claimant_in_txn :: "string \<Rightarrow> intent_id \<Rightarrow> u64 \<Rightarrow> 'op ingest_txn \<Rightarrow> 'op ingest_txn" where
  "add_addr_claimant_in_txn key intent until_at X =
     (let claimants = (case fmlookup (tx_addr_suppress X) key of None \<Rightarrow> [] | Some cs \<Rightarrow> cs)
      in X\<lparr>tx_addr_suppress := fmupd key
             (filter (\<lambda>c. ac_intent_id c \<noteq> intent) claimants @ [\<lparr>ac_intent_id = intent, ac_ceiling = until_at\<rparr>])
             (tx_addr_suppress X)\<rparr>)"

definition has_claimants_in_txn :: "string \<times> public_key \<Rightarrow> 'op ingest_txn \<Rightarrow> bool" where
  "has_claimants_in_txn key X \<longleftrightarrow> key |\<in>| fmdom (tx_id_suppress X)"

definition addr_has_covering_claimant_in_txn :: "string \<Rightarrow> u64 \<Rightarrow> 'op ingest_txn \<Rightarrow> bool" where
  "addr_has_covering_claimant_in_txn key created_at X \<longleftrightarrow>
     (case fmlookup (tx_addr_suppress X) key of
        None \<Rightarrow> False
      | Some claimants \<Rightarrow> list_ex (\<lambda>c. created_at \<le> ac_ceiling c) claimants)"

definition is_suppressed_in_txn :: "store_env \<Rightarrow> event \<Rightarrow> 'op ingest_txn \<Rightarrow> bool" where
  "is_suppressed_in_txn env event X \<longleftrightarrow>
     has_claimants_in_txn (ev_id event, ev_pubkey event) X \<or>
     (case address_key_for (se_tags env) event of
        None \<Rightarrow> False
      | Some key \<Rightarrow> addr_has_covering_claimant_in_txn (to_redb_key key) (ev_created_at event) X)"

fun candidate_coordinates ::
  "store_env \<Rightarrow> event \<Rightarrow> coordinate list \<Rightarrow> string list \<Rightarrow> 'op ingest_txn \<Rightarrow> string list option" where
  "candidate_coordinates env deleting [] ids X = Some ids"
| "candidate_coordinates env deleting (coord # coords) ids X =
     (if co_public_key coord \<noteq> ev_pubkey deleting then candidate_coordinates env deleting coords ids X
      else case address_key_for_coordinate coord of
        None \<Rightarrow> candidate_coordinates env deleting coords ids X
      | Some key \<Rightarrow>
          (case fmlookup (tx_addr_index X) (to_redb_key key) of
             None \<Rightarrow> candidate_coordinates env deleting coords ids X
           | Some current_key \<Rightarrow>
               do {
                 loaded \<leftarrow> load_by_key env current_key (tx_canonical X);
                 current \<leftarrow> loaded;
                 let current_id = ev_id (st_event current);
                 candidate_coordinates env deleting coords
                   (if current_id \<in> set ids then ids else ids @ [current_id]) X
               }))"

text \<open>\<open>visible_before\<close>: the candidates whose row is held and not hidden, in candidate order.\<close>

fun visible_candidates :: "store_env \<Rightarrow> string list \<Rightarrow> 'op ingest_txn \<Rightarrow> string list option" where
  "visible_candidates env [] X = Some []"
| "visible_candidates env (eid # ids) X =
     do {
       loaded \<leftarrow> load_by_id env eid (tx_canonical X);
       rest \<leftarrow> visible_candidates env ids X;
       Some (if (case loaded of None \<Rightarrow> False | Some (_, se) \<Rightarrow> \<not> is_suppressed_in_txn env (st_event se) X)
             then eid # rest else rest)
     }"

definition stage_id_claim :: "intent_id \<Rightarrow> event \<Rightarrow> string \<Rightarrow> suppress_claim list \<times> 'op ingest_txn \<Rightarrow> suppress_claim list \<times> 'op ingest_txn" where
  "stage_id_claim intent deleting target_id acc =
     (case acc of (claims, X) \<Rightarrow>
       (claims @ [IdClaim target_id (ev_pubkey deleting)], add_claimant_in_txn (target_id, ev_pubkey deleting) intent X))"

definition stage_addr_claim :: "intent_id \<Rightarrow> event \<Rightarrow> coordinate \<Rightarrow> suppress_claim list \<times> 'op ingest_txn \<Rightarrow> suppress_claim list \<times> 'op ingest_txn" where
  "stage_addr_claim intent deleting coord acc =
     (if co_public_key coord \<noteq> ev_pubkey deleting then acc
      else case address_key_for_coordinate coord of
        None \<Rightarrow> acc
      | Some key \<Rightarrow>
          (case acc of (claims, X) \<Rightarrow>
            (claims @ [AddrClaim (to_redb_key key) (ev_created_at deleting) (ev_pubkey deleting)],
             add_addr_claimant_in_txn (to_redb_key key) intent (ev_created_at deleting) X)))"

fun newly_hidden :: "store_env \<Rightarrow> string list \<Rightarrow> 'op ingest_txn \<Rightarrow> stored_event list option" where
  "newly_hidden env [] X = Some []"
| "newly_hidden env (eid # ids) X =
     do {
       loaded \<leftarrow> load_by_id env eid (tx_canonical X);
       rest \<leftarrow> newly_hidden env ids X;
       Some (case loaded of
               None \<Rightarrow> rest
             | Some (_, se) \<Rightarrow> if is_suppressed_in_txn env (st_event se) X then se # rest else rest)
     }"

definition process_kind5_deletions_provisional_in_txn ::
  "store_env \<Rightarrow> intent_id \<Rightarrow> event \<Rightarrow> 'op ingest_txn \<Rightarrow>
   ((stored_event list \<times> suppress_claim list) \<times> 'op ingest_txn) option" where
  "process_kind5_deletions_provisional_in_txn env intent deleting X =
     do {
       let target_ids = tr_event_ids (se_tags env) deleting;
       let coords = tr_coordinates (se_tags env) deleting;
       candidate_ids \<leftarrow> candidate_coordinates env deleting coords
         (fold (\<lambda>eid ids. if eid \<in> set ids then ids else ids @ [eid]) target_ids []) X;
       visible_before \<leftarrow> visible_candidates env candidate_ids X;
       let (claims, X) = fold (stage_addr_claim intent deleting) coords
                           (fold (stage_id_claim intent deleting) target_ids ([], X));
       hidden \<leftarrow> newly_hidden env visible_before X;
       Some ((hidden, claims), X)
     }"

section \<open>Signature fan-out\<close>

definition update_publish_queue_receipt :: "u64 \<Rightarrow> receipt_state \<Rightarrow> 'op ingest_txn \<Rightarrow> 'op ingest_txn option" where
  "update_publish_queue_receipt receipt_id state X =
     do {
       payload \<leftarrow> fmlookup (tx_receipts X) receipt_id;
       case payload of
         OperationReceipt _ \<Rightarrow> None
       | EventReceipt event_id current \<Rightarrow>
           if current = RsSuperseded \<or> state = RsSuperseded then None
           else Some (X\<lparr>tx_receipts := fmupd receipt_id (EventReceipt event_id state) (tx_receipts X)\<rparr>)
     }"

definition drop_claim :: "intent_id \<Rightarrow> suppress_claim \<Rightarrow> 'op ingest_txn \<Rightarrow> 'op ingest_txn" where
  "drop_claim owner claim X =
     (case claim of
        IdClaim target author \<Rightarrow> remove_claimant (target, author) owner X
      | AddrClaim addr_key _ _ \<Rightarrow> remove_addr_claimant addr_key owner X)"

definition close_claims :: "intent_id \<Rightarrow> 'op ingest_txn \<Rightarrow> 'op ingest_txn" where
  "close_claims owner X =
     (case fmlookup (tx_kind5_claims X) owner of
        None \<Rightarrow> X
      | Some claims \<Rightarrow> fold (drop_claim owner) claims (X\<lparr>tx_kind5_claims := fmdrop owner (tx_kind5_claims X)\<rparr>))"

text \<open>One owner of the fan-out; the result tells whether its journal moved to signed.\<close>

definition fan_out_owner :: "event \<Rightarrow> intent_id \<Rightarrow> 'op ingest_txn \<Rightarrow> (bool \<times> 'op ingest_txn) option" where
  "fan_out_owner canonical_event owner X =
     (let X = X\<lparr>tx_displaced := fmdrop owner (tx_displaced X)\<rparr>;
          is_deletion = (ev_kind canonical_event = KIND_EVENT_DELETION);
          finish = (\<lambda>moved X. Some (moved, if is_deletion then close_claims owner X else X))
      in case fmlookup (tx_intents X) owner of
           None \<Rightarrow> finish False X
         | Some rec \<Rightarrow>
             (case ir_work rec of
                ReplaceableOperationWork _ \<Rightarrow> finish False X
              | EventWork frozen routing sig_state \<Rightarrow>
                  if sig_state = IntentSigned then Some (False, X)
                  else do {
                    let X = X\<lparr>tx_intents := fmupd owner (rec\<lparr>ir_work := EventWork canonical_event routing IntentSigned\<rparr>) (tx_intents X)\<rparr>;
                    X \<leftarrow> update_publish_queue_receipt (ir_receipt_id rec) Signed X;
                    finish True X
                  }))"

fun fan_out_owners :: "event \<Rightarrow> intent_id list \<Rightarrow> 'op ingest_txn \<Rightarrow> (intent_id list \<times> 'op ingest_txn) option" where
  "fan_out_owners canonical_event [] X = Some ([], X)"
| "fan_out_owners canonical_event (owner # owners) X =
     do {
       (moved, X) \<leftarrow> fan_out_owner canonical_event owner X;
       (transitioned, X) \<leftarrow> fan_out_owners canonical_event owners X;
       Some (if moved then owner # transitioned else transitioned, X)
     }"

definition fan_out_signed_in_txn ::
  "store_env \<Rightarrow> intent_id fset \<Rightarrow> event \<Rightarrow> 'op ingest_txn \<Rightarrow> (intent_id list \<times> 'op ingest_txn) option" where
  "fan_out_signed_in_txn env owners canonical_event X =
     do {
       (transitioned, X) \<leftarrow> fan_out_owners canonical_event (sorted_list_of_fset owners) X;
       X \<leftarrow> (if ev_kind canonical_event = KIND_EVENT_DELETION
             then map_option snd (process_kind5_deletions env canonical_event X) else Some X);
       Some (transitioned, X)
     }"

section \<open>Stored rows\<close>

text \<open>The tail shared by every branch that stores a row: posting entry and expiration entry.\<close>

definition index_row :: "store_env \<Rightarrow> event \<Rightarrow> event_key \<Rightarrow> 'op ingest_txn \<Rightarrow> 'op ingest_txn" where
  "index_row env event event_key X =
     (let X = X\<lparr>tx_postings := batch_insert event event_key (tx_postings X)\<rparr>
      in case tr_expiration (se_tags env) event of
           None \<Rightarrow> X
         | Some ts \<Rightarrow> X\<lparr>tx_expiration_index := fmupd (ts, ev_id event) event_key (tx_expiration_index X)\<rparr>)"

definition store_row :: "store_env \<Rightarrow> event \<Rightarrow> provenance \<Rightarrow> string option \<Rightarrow> 'op ingest_txn \<Rightarrow> 'op ingest_txn option" where
  "store_row env event p addr_key_str X =
     do {
       (event_key, canonical) \<leftarrow> insert_new event p (tx_canonical X);
       let X = X\<lparr>tx_canonical := canonical\<rparr>;
       let X = (case addr_key_str of None \<Rightarrow> X | Some key \<Rightarrow> X\<lparr>tx_addr_index := fmupd key event_key (tx_addr_index X)\<rparr>);
       Some (index_row env event event_key X)
     }"

fun merge_stashed_seen :: "(relay_url \<times> u64) list \<Rightarrow> provenance \<Rightarrow> provenance" where
  "merge_stashed_seen [] p = p"
| "merge_stashed_seen ((relay, at) # seen) p =
     merge_stashed_seen seen (snd (provenance_merge_observation \<lparr>ro_relay = relay, ro_at = at\<rparr> p))"

definition join_stashed ::
  "store_env \<Rightarrow> event_key \<Rightarrow> stored_event \<Rightarrow> stored_event \<Rightarrow> 'op ingest_txn \<Rightarrow> (stored_event option \<times> 'op ingest_txn) option" where
  "join_stashed env event_key existing se X =
     (let event = st_event existing;
          p = merge_stashed_seen (sorted_list_of_fmap (pv_seen (st_provenance se))) (st_provenance existing)
      in do {
           (event, p, owners, canonical) \<leftarrow> Some (case pv_local (st_provenance se) of
               None \<Rightarrow> (event, p, None, tx_canonical X)
             | Some stashed_local \<Rightarrow>
                 (let existing_signed = (case pv_local p of None \<Rightarrow> True | Some l \<Rightarrow> lo_sig_state l = SigSigned);
                      stashed_signed = (lo_sig_state stashed_local = SigSigned);
                      adopt = (\<not> existing_signed \<and> stashed_signed);
                      event = (if adopt then event\<lparr>ev_sig := ev_sig (st_event se)\<rparr> else event);
                      canonical = (if adopt then replace_event event_key event (tx_canonical X) else tx_canonical X);
                      owners = (case pv_local p of None \<Rightarrow> {||} | Some l \<Rightarrow> lo_owners l) |\<union>| lo_owners stashed_local;
                      result_signed = (existing_signed \<or> stashed_signed)
                  in (event, p\<lparr>pv_local := Some \<lparr>lo_owners = owners, lo_sig_state = (if result_signed then SigSigned else SigPending)\<rparr>\<rparr>,
                      (if result_signed then Some owners else None), canonical)));
           canonical \<leftarrow> replace_provenance env event_key p canonical;
           X \<leftarrow> (case owners of
               None \<Rightarrow> Some (X\<lparr>tx_canonical := canonical\<rparr>)
             | Some owners \<Rightarrow> map_option snd (fan_out_signed_in_txn env owners event (X\<lparr>tx_canonical := canonical\<rparr>)));
           Some (Some \<lparr>st_event = event, st_provenance = p\<rparr>, X)
         })"

definition reinsert_stashed_in_txn ::
  "store_env \<Rightarrow> stored_event \<Rightarrow> 'op ingest_txn \<Rightarrow> (stored_event option \<times> 'op ingest_txn) option" where
  "reinsert_stashed_in_txn env se X =
     do {
       loaded \<leftarrow> load_by_id env (ev_id (st_event se)) (tx_canonical X);
       case loaded of
         Some (event_key, existing) \<Rightarrow> join_stashed env event_key existing se X
       | None \<Rightarrow>
           if tombstone_refuses env (st_event se) X then Some (None, X)
           else (case address_key_for (se_tags env) (st_event se) of
             None \<Rightarrow> map_option (Pair (Some se)) (store_row env (st_event se) (st_provenance se) None X)
           | Some addr_key \<Rightarrow>
               (case fmlookup (tx_addr_index X) (to_redb_key addr_key) of
                  None \<Rightarrow> map_option (Pair (Some se)) (store_row env (st_event se) (st_provenance se) (Some (to_redb_key addr_key)) X)
                | Some current_key \<Rightarrow>
                    do {
                      loaded \<leftarrow> load_by_key env current_key (tx_canonical X);
                      current \<leftarrow> loaded;
                      if candidate_wins (st_event se) (st_event current)
                      then do {
                        (removed, X) \<leftarrow> remove_row_in_txn env (ev_id (st_event current)) (\<lambda>_. True) X;
                        _ \<leftarrow> removed;
                        map_option (Pair (Some se)) (store_row env (st_event se) (st_provenance se) (Some (to_redb_key addr_key)) X)
                      }
                      else Some (None, X)
                    }))
     }"

fun find_displaced ::
  "(stored_event \<Rightarrow> bool) \<Rightarrow> string \<Rightarrow> (intent_id \<times> stored_event) list \<Rightarrow> intent_id option" where
  "find_displaced owned frozen_id [] = None"
| "find_displaced owned frozen_id ((key, se) # rows) =
     (if owned se \<and> ev_id (st_event se) = frozen_id then Some key else find_displaced owned frozen_id rows)"

definition find_displaced_key_by_event_id_in_txn :: "string \<Rightarrow> intent_id \<Rightarrow> 'op ingest_txn \<Rightarrow> intent_id option" where
  "find_displaced_key_by_event_id_in_txn frozen_id intent X =
     find_displaced (\<lambda>se. case pv_local (st_provenance se) of None \<Rightarrow> False | Some l \<Rightarrow> intent |\<in>| lo_owners l) frozen_id
       (sorted_list_of_fmap (tx_displaced X))"

definition find_any_displaced_key_by_event_id_in_txn :: "string \<Rightarrow> 'op ingest_txn \<Rightarrow> intent_id option" where
  "find_any_displaced_key_by_event_id_in_txn frozen_id X =
     find_displaced (\<lambda>_. True) frozen_id (sorted_list_of_fmap (tx_displaced X))"

end
