(* ===== verification/Ingest.thy ===== *)
theory Ingest
  imports Mutation Coverage_Rows
begin

text \<open>
  \<open>crates/nmp-store/src/redb_store/ingest.rs\<close> and the mutating half of \<open>event_ops.rs\<close>: the one door for
  relay deliveries, removal, expiry and garbage collection, each as one governed write.

  A governed write opens the canonical tables, runs its body and flushes the allocators and reference
  counts; an \<open>Err\<close> anywhere leaves the store as it was. The batch of posting changes is handed on to
  the posting runs at commit; \<open>governed_write\<close> leaves it in the result.
\<close>

definition store_delivered ::
  "store_env \<Rightarrow> event \<Rightarrow> relay_observed \<Rightarrow> 'op ingest_txn \<Rightarrow> (insert_outcome \<times> 'op ingest_txn) option" where
  "store_delivered env event from X =
     (let p = \<lparr>pv_seen = fmupd (ro_relay from) (ro_at from) fmempty, pv_local = None\<rparr>
      in case address_key_for (se_tags env) event of
           None \<Rightarrow> map_option (Pair Inserted) (store_row env event p None X)
         | Some addr_key \<Rightarrow>
             (case fmlookup (tx_addr_index X) (to_redb_key addr_key) of
                None \<Rightarrow> map_option (Pair Inserted) (store_row env event p (Some (to_redb_key addr_key)) X)
              | Some current_key \<Rightarrow>
                  do {
                    loaded \<leftarrow> load_by_key env current_key (tx_canonical X);
                    replaced \<leftarrow> loaded;
                    if candidate_wins event (st_event replaced)
                    then do {
                      (removed, X) \<leftarrow> remove_row_in_txn env (ev_id (st_event replaced)) (\<lambda>_. True) X;
                      _ \<leftarrow> removed;
                      map_option (Pair (Superseded replaced)) (store_row env event p (Some (to_redb_key addr_key)) X)
                    }
                    else Some (Stale, X)
                  }))"

definition merge_delivered ::
  "store_env \<Rightarrow> event_key \<Rightarrow> event \<Rightarrow> relay_observed \<Rightarrow> 'op ingest_txn \<Rightarrow> (insert_outcome \<times> 'op ingest_txn) option" where
  "merge_delivered env event_key event from X =
     do {
       let l = load_local event_key (tx_canonical X);
       (grew, canonical) \<leftarrow> merge_observation event_key (ro_relay from) (ro_at from) (tx_canonical X);
       let X = X\<lparr>tx_canonical := canonical\<rparr>;
       (satisfied, X) \<leftarrow> (case l of
           None \<Rightarrow> Some ([], X)
         | Some origin \<Rightarrow>
             if lo_sig_state origin = SigPending
             then fan_out_signed_in_txn env (lo_owners origin) event
                    (X\<lparr>tx_canonical := replace_local event_key (Some (origin\<lparr>lo_sig_state := SigSigned\<rparr>))
                         (replace_event event_key event (tx_canonical X))\<rparr>)
             else Some ([], X));
       Some (Duplicate grew satisfied (l \<noteq> None), X)
     }"

definition insert_with_tables ::
  "store_env \<Rightarrow> event \<Rightarrow> relay_observed \<Rightarrow> 'op ingest_txn \<Rightarrow> (insert_outcome \<times> 'op ingest_txn) option" where
  "insert_with_tables env event from X =
     (if tr_is_expired_at (se_tags env) event (ro_at from) then Some (Refused AlreadyExpired, X)
      else case key_for_id (ev_id event) (tx_canonical X) of
        Some event_key \<Rightarrow> merge_delivered env event_key event from X
      | None \<Rightarrow>
          if tombstone_refuses env event X then Some (Refused Tombstoned, X)
          else do {
            (outcome, X) \<leftarrow> store_delivered env event from X;
            if ev_kind event = KIND_EVENT_DELETION \<and> outcome = Inserted
            then do {
              (deleted, X) \<leftarrow> process_kind5_deletions env event X;
              Some (Kind5Processed deleted, X)
            }
            else Some (outcome, X)
          })"

definition governed_write ::
  "('op ingest_txn \<Rightarrow> ('r \<times> 'op ingest_txn) option) \<Rightarrow> 'op ingest_txn \<Rightarrow> ('r \<times> 'op ingest_txn) option" where
  "governed_write mutate D =
     do {
       canonical \<leftarrow> canonical_open (tx_canonical D);
       (result, X) \<leftarrow> mutate (D\<lparr>tx_canonical := canonical, tx_postings := \<lparr>pb_additions = fmempty, pb_deaths = {||}\<rparr>\<rparr>);
       canonical \<leftarrow> flush_pending (tx_canonical X);
       Some (result, X\<lparr>tx_canonical := canonical\<rparr>)
     }"

definition store_insert ::
  "store_env \<Rightarrow> event \<Rightarrow> relay_observed \<Rightarrow> 'op ingest_txn \<Rightarrow> (insert_outcome \<times> 'op ingest_txn) option" where
  "store_insert env event from D = governed_write (insert_with_tables env event from) D"

fun insert_each ::
  "store_env \<Rightarrow> (event \<times> relay_observed) list \<Rightarrow> 'op ingest_txn \<Rightarrow> (insert_outcome list \<times> 'op ingest_txn) option" where
  "insert_each env [] X = Some ([], X)"
| "insert_each env ((event, from) # events) X =
     do {
       (outcome, X) \<leftarrow> insert_with_tables env event from X;
       (outcomes, X) \<leftarrow> insert_each env events X;
       Some (outcome # outcomes, X)
     }"

definition insert_batch ::
  "store_env \<Rightarrow> (event \<times> relay_observed) list \<Rightarrow> 'op ingest_txn \<Rightarrow> (insert_outcome list \<times> 'op ingest_txn) option" where
  "insert_batch env events D =
     (if events = [] then Some ([], D) else governed_write (insert_each env events) D)"

definition store_remove :: "store_env \<Rightarrow> string \<Rightarrow> 'op ingest_txn \<Rightarrow> (stored_event option \<times> 'op ingest_txn) option" where
  "store_remove env eid D = governed_write (remove_row_in_txn env eid (\<lambda>_. True)) D"

text \<open>\<open>expire_due\<close>: the index range up to the bound, in key order, is collected first.\<close>

definition due_event_keys :: "u64 \<Rightarrow> 'op ingest_txn \<Rightarrow> event_key list" where
  "due_event_keys now X = map snd (filter (\<lambda>((ts, _), _). ts \<le> now) (sorted_list_of_fmap (tx_expiration_index X)))"

fun expire_keys :: "store_env \<Rightarrow> event_key list \<Rightarrow> 'op ingest_txn \<Rightarrow> (stored_event list \<times> 'op ingest_txn) option" where
  "expire_keys env [] X = Some ([], X)"
| "expire_keys env (event_key # keys) X =
     do {
       loaded \<leftarrow> load_by_key env event_key (tx_canonical X);
       case loaded of
         None \<Rightarrow> expire_keys env keys X
       | Some stored \<Rightarrow>
           do {
             (removed, X) \<leftarrow> remove_row_in_txn env (ev_id (st_event stored)) (\<lambda>_. True) X;
             (rest, X) \<leftarrow> expire_keys env keys X;
             Some ((case removed of None \<Rightarrow> [] | Some row \<Rightarrow> [row]) @ rest, X)
           }
     }"

definition expire_due :: "store_env \<Rightarrow> u64 \<Rightarrow> 'op ingest_txn \<Rightarrow> (stored_event list \<times> 'op ingest_txn) option" where
  "expire_due env now D = governed_write (\<lambda>X. expire_keys env (due_event_keys now X) X) D"

definition next_expiration :: "'op ingest_txn \<Rightarrow> u64 option" where
  "next_expiration D =
     (case sorted_list_of_fmap (tx_expiration_index D) of [] \<Rightarrow> None | ((ts, _), _) # _ \<Rightarrow> Some ts)"

section \<open>Garbage collection\<close>

definition gc_consider ::
  "store_env \<Rightarrow> (event \<Rightarrow> bool) \<Rightarrow> 'op ingest_txn \<Rightarrow> event \<Rightarrow> local_origin option \<Rightarrow> event list" where
  "gc_consider env claimed X event l =
     (if address_key_for (se_tags env) event = None
         \<and> \<not> (case l of None \<Rightarrow> False | Some origin \<Rightarrow> lo_sig_state origin = SigPending)
         \<and> \<not> is_suppressed_in_txn env event X
         \<and> \<not> claimed event
      then [event] else [])"

text \<open>The victim scan: a note row waits for its own local sidecar, which follows it directly.\<close>

fun gc_scan ::
  "store_env \<Rightarrow> (event \<Rightarrow> bool) \<Rightarrow> 'op ingest_txn \<Rightarrow> (event_key \<times> column) list \<Rightarrow> (event_key \<times> event) option \<Rightarrow> event list option" where
  "gc_scan env claimed X [] pending =
     Some (case pending of None \<Rightarrow> [] | Some (_, event) \<Rightarrow> gc_consider env claimed X event None)"
| "gc_scan env claimed X ((event_key, ColRow event) # rows) pending =
     map_option (\<lambda>rest. (case pending of None \<Rightarrow> [] | Some (_, waiting) \<Rightarrow> gc_consider env claimed X waiting None) @ rest)
       (gc_scan env claimed X rows (Some (event_key, event)))"
| "gc_scan env claimed X ((event_key, ColLocal l) # rows) pending =
     (case pending of
        None \<Rightarrow> None
      | Some (pending_key, event) \<Rightarrow>
          if pending_key \<noteq> event_key then None
          else map_option (\<lambda>rest. gc_consider env claimed X event (Some l) @ rest) (gc_scan env claimed X rows None))"
| "gc_scan env claimed X ((event_key, ColObservation _ _) # rows) pending =
     map_option (\<lambda>rest. (case pending of None \<Rightarrow> [] | Some (_, waiting) \<Rightarrow> gc_consider env claimed X waiting None) @ rest)
       (gc_scan env claimed X rows None)"

fun evict_victims :: "store_env \<Rightarrow> event list \<Rightarrow> 'op ingest_txn \<Rightarrow> (nat \<times> 'op ingest_txn) option" where
  "evict_victims env [] X = Some (0, X)"
| "evict_victims env (event # victims) X =
     do {
       (removed, X) \<leftarrow> remove_row_in_txn env (ev_id event) (\<lambda>_. True) X;
       _ \<leftarrow> removed;
       (evicted, X) \<leftarrow> evict_victims env victims X;
       Some (evicted + 1, X)
     }"

record gc_report =
  gr_events_evicted :: nat
  gr_coverage_rows_shrunk :: nat
  gr_coverage_rows_deleted :: nat

text \<open>The collector over the store and the coverage table, in one transaction. The panic of the victim
  index aborts it like an error.\<close>

definition gc ::
  "store_env \<Rightarrow> (event \<Rightarrow> bool) \<Rightarrow> coverage_table \<Rightarrow> 'op ingest_txn \<Rightarrow> ((gc_report \<times> coverage_table) \<times> 'op ingest_txn) option" where
  "gc env claimed coverage D =
     governed_write (\<lambda>X. do {
       victims \<leftarrow> gc_scan env claimed X (scan (tx_canonical X)) None;
       (evicted, X) \<leftarrow> evict_victims env victims X;
       (coverage, shrunk, deleted) \<leftarrow> shrink_coverage_rows victims coverage;
       Some ((\<lparr>gr_events_evicted = evicted, gr_coverage_rows_shrunk = shrunk, gr_coverage_rows_deleted = deleted\<rparr>, coverage), X)
     }) D"

end
