(* ===== verification/Canonical_Props.thy ===== *)
theory Canonical_Props
  imports Canonical
begin

text \<open>
  The relational invariant of the canonical tables and what each operation does to the rows they
  denote.

  \<open>canon_ok\<close> says: the id table is the inverse of the note rows; every key lies below its allocator;
  sidecars and observations belong to a held row and an interned relay; the relay dictionary is a
  bijection; the effective reference count of a relay is the number of its observations. \<open>view\<close> is
  the abstract content: a map from the event id to the event, its observations by relay and its local
  origin.
\<close>

section \<open>The invariant\<close>

definition rows_ok :: "(event_key, event) fmap \<Rightarrow> (string, event_key) fmap \<Rightarrow> (event_key, local_origin) fmap \<Rightarrow> event_key \<Rightarrow> bool" where
  "rows_ok rows ids local next_key \<longleftrightarrow>
     (\<forall>eid k. fmlookup ids eid = Some k \<longleftrightarrow> map_option ev_id (fmlookup rows k) = Some eid) \<and>
     (\<forall>k. fmlookup rows k \<noteq> None \<longrightarrow> k < next_key) \<and>
     (\<forall>k. fmlookup local k \<noteq> None \<longrightarrow> fmlookup rows k \<noteq> None)"

definition relays_ok :: "store_env \<Rightarrow> (relay_key, u64 \<times> string) fmap \<Rightarrow> (string, relay_key) fmap \<Rightarrow> relay_key \<Rightarrow> bool" where
  "relays_ok env relays relay_ids next_key \<longleftrightarrow>
     (\<forall>url rk. fmlookup relay_ids url = Some rk \<longleftrightarrow> map_option snd (fmlookup relays rk) = Some url) \<and>
     (\<forall>rk. fmlookup relays rk \<noteq> None \<longrightarrow> rk < next_key) \<and>
     (\<forall>rk row. fmlookup relays rk = Some row \<longrightarrow> se_parse_relay env (snd row) = Some (snd row))"

definition observers :: "(event_key \<times> relay_key, u64) fmap \<Rightarrow> relay_key \<Rightarrow> event_key set" where
  "observers obs rk = {k. fmlookup obs (k, rk) \<noteq> None}"

definition effective_ref :: "(relay_key, u64 \<times> string) fmap \<Rightarrow> (relay_key, u64) fmap \<Rightarrow> relay_key \<Rightarrow> u64" where
  "effective_ref relays counts rk =
     (case fmlookup counts rk of Some c \<Rightarrow> c | None \<Rightarrow> fst (the (fmlookup relays rk)))"

lemma effective_ref_relay_upd:
  "effective_ref (fmupd rk0 row relays) counts rk =
     (if rk = rk0 \<and> fmlookup counts rk = None then fst row else effective_ref relays counts rk)"
  by (simp add: effective_ref_def split: option.split)

lemma effective_ref_count_upd:
  "effective_ref relays (fmupd rk0 c counts) rk = (if rk = rk0 then c else effective_ref relays counts rk)"
  by (simp add: effective_ref_def)

text \<open>The relays in \<open>fresh\<close> have just been interned: no reference yet, and no cached count.\<close>

definition refs_ok ::
  "relay_key set \<Rightarrow> (event_key, event) fmap \<Rightarrow> (event_key \<times> relay_key, u64) fmap \<Rightarrow> (relay_key, u64 \<times> string) fmap \<Rightarrow>
   (relay_key, u64) fmap \<Rightarrow> bool" where
  "refs_ok fresh rows obs relays counts \<longleftrightarrow>
     (\<forall>k rk. fmlookup obs (k, rk) \<noteq> None \<longrightarrow> fmlookup rows k \<noteq> None \<and> fmlookup relays rk \<noteq> None) \<and>
     (\<forall>rk. fmlookup counts rk \<noteq> None \<longrightarrow> fmlookup relays rk \<noteq> None) \<and>
     (\<forall>rk. fmlookup relays rk \<noteq> None \<longrightarrow> unat (effective_ref relays counts rk) = card (observers obs rk)) \<and>
     (\<forall>rk row. fmlookup relays rk = Some row \<longrightarrow> fmlookup counts rk = None \<longrightarrow> rk \<notin> fresh \<longrightarrow> fst row > 0)"

definition allocator_ok :: "bool \<Rightarrow> u64 option \<Rightarrow> u64 \<Rightarrow> bool" where
  "allocator_ok dirty meta next_key \<longleftrightarrow> (\<not> dirty \<longrightarrow> next_key = (case meta of None \<Rightarrow> 1 | Some v \<Rightarrow> v))"

definition canon_core :: "store_env \<Rightarrow> relay_key set \<Rightarrow> canonical_tables \<Rightarrow> bool" where
  "canon_core env fresh T \<longleftrightarrow>
     rows_ok (ct_rows T) (ct_event_ids T) (ct_local T) (ct_next_event_key T) \<and>
     relays_ok env (ct_relays T) (ct_relay_ids T) (ct_next_relay_key T) \<and>
     refs_ok fresh (ct_rows T) (ct_observations T) (ct_relays T) (ct_relay_ref_counts T) \<and>
     allocator_ok (ct_event_allocator_dirty T) (ct_meta_next_event_key T) (ct_next_event_key T) \<and>
     allocator_ok (ct_relay_allocator_dirty T) (ct_meta_next_relay_key T) (ucast (ct_next_relay_key T))"

abbreviation canon_ok :: "store_env \<Rightarrow> canonical_tables \<Rightarrow> bool" where
  "canon_ok env \<equiv> canon_core env {}"

text \<open>Room left in the two key spaces. Event keys are consumed one per row, relay keys one per new
  relay.\<close>

definition event_room :: "nat \<Rightarrow> canonical_tables \<Rightarrow> bool" where
  "event_room n T \<longleftrightarrow> unat (ct_next_event_key T) + n < 2 ^ 64"

definition relay_room :: "nat \<Rightarrow> canonical_tables \<Rightarrow> bool" where
  "relay_room n T \<longleftrightarrow> unat (ct_next_relay_key T) + n < 2 ^ 32"

lemma rows_okD:
  assumes "rows_ok rows ids local next_key"
  shows "fmlookup ids eid = Some k \<longleftrightarrow> map_option ev_id (fmlookup rows k) = Some eid"
    "fmlookup rows k \<noteq> None \<Longrightarrow> k < next_key" "fmlookup local k \<noteq> None \<Longrightarrow> fmlookup rows k \<noteq> None"
  using assms by (simp_all add: rows_ok_def)

lemma relays_okD:
  assumes "relays_ok env relays relay_ids next_key"
  shows "fmlookup relay_ids url = Some rk \<longleftrightarrow> map_option snd (fmlookup relays rk) = Some url"
    "fmlookup relays rk \<noteq> None \<Longrightarrow> rk < next_key"
    "fmlookup relays rk = Some row \<Longrightarrow> se_parse_relay env (snd row) = Some (snd row)"
  using assms by (simp_all add: relays_ok_def del: split_paired_All)

lemma relay_ids_inj:
  assumes "relays_ok env relays relay_ids next_key" "fmlookup relay_ids url = Some rk" "fmlookup relay_ids url' = Some rk"
  shows "url' = url"
  using assms(2,3) relays_okD(1)[OF assms(1), of url rk] relays_okD(1)[OF assms(1), of url' rk]
  by (cases "fmlookup relays rk") simp_all

lemma refs_okD:
  assumes "refs_ok fresh rows obs relays counts"
  shows "fmlookup obs (k, rk) \<noteq> None \<Longrightarrow> fmlookup rows k \<noteq> None"
    "fmlookup obs (k, rk) \<noteq> None \<Longrightarrow> fmlookup relays rk \<noteq> None"
    "fmlookup counts rk \<noteq> None \<Longrightarrow> fmlookup relays rk \<noteq> None"
    "fmlookup relays rk \<noteq> None \<Longrightarrow> unat (effective_ref relays counts rk) = card (observers obs rk)"
    "fmlookup relays rk = Some row \<Longrightarrow> fmlookup counts rk = None \<Longrightarrow> rk \<notin> fresh \<Longrightarrow> fst row > 0"
  using assms by (simp_all add: refs_ok_def del: split_paired_All)

lemma canon_coreD:
  assumes "canon_core env fresh T"
  shows "rows_ok (ct_rows T) (ct_event_ids T) (ct_local T) (ct_next_event_key T)"
    "relays_ok env (ct_relays T) (ct_relay_ids T) (ct_next_relay_key T)"
    "refs_ok fresh (ct_rows T) (ct_observations T) (ct_relays T) (ct_relay_ref_counts T)"
    "allocator_ok (ct_event_allocator_dirty T) (ct_meta_next_event_key T) (ct_next_event_key T)"
    "allocator_ok (ct_relay_allocator_dirty T) (ct_meta_next_relay_key T) (ucast (ct_next_relay_key T))"
  using assms by (simp_all add: canon_core_def)

lemma finite_observers [simp]: "finite (observers obs rk)"
proof -
  have "observers obs rk \<subseteq> fst ` fset (fmdom obs)"
  proof
    fix k assume "k \<in> observers obs rk"
    then obtain at where "fmlookup obs (k, rk) = Some at" by (auto simp: observers_def)
    then have "(k, rk) \<in> fset (fmdom obs)" by (rule fmdomI)
    then show "k \<in> fst ` fset (fmdom obs)" by (rule rev_image_eqI) simp
  qed
  then show ?thesis by (rule finite_subset) simp
qed

lemma observers_fmupd:
  "observers (fmupd (k, rk) at obs) rk' = (if rk' = rk then insert k (observers obs rk') else observers obs rk')"
  by (auto simp: observers_def)

lemma observers_fmdrop:
  "observers (fmdrop (k, rk) obs) rk' = (if rk' = rk then observers obs rk' - {k} else observers obs rk')"
  by (auto simp: observers_def)

lemma card_observers_less:
  assumes "rows_ok rows ids local next_key" "refs_ok fresh rows obs relays counts" "k \<notin> observers obs rk" "fmlookup rows k \<noteq> None"
  shows "card (observers obs rk) < unat next_key"
proof -
  have "insert k (observers obs rk) \<subseteq> {j. unat j < unat next_key}"
    using assms refs_okD(1)[OF assms(2)] rows_okD(2)[OF assms(1)]
    by (fastforce simp: observers_def word_less_nat_alt)
  moreover have "finite {j :: event_key. unat j < unat next_key}" by simp
  moreover have "card {j :: event_key. unat j < unat next_key} \<le> unat next_key"
  proof -
    have "inj_on unat {j :: event_key. unat j < unat next_key}" by (auto intro: inj_onI simp: word_unat_eq_iff)
    moreover have "unat ` {j :: event_key. unat j < unat next_key} \<subseteq> {..< unat next_key}" by auto
    ultimately show ?thesis using card_inj_on_le[of unat _ "{..< unat next_key}"] by simp
  qed
  ultimately have "card (insert k (observers obs rk)) \<le> unat next_key"
    using card_mono le_trans by blast
  then show ?thesis using assms(3) by simp
qed

section \<open>Relay dictionary and reference counts\<close>

lemma effective_relay_ref_result:
  assumes "fmlookup (ct_relays T) rk \<noteq> None"
  shows "effective_relay_ref rk T = Some (effective_ref (ct_relays T) (ct_relay_ref_counts T) rk,
    T\<lparr>ct_relay_ref_counts := fmupd rk (effective_ref (ct_relays T) (ct_relay_ref_counts T) rk) (ct_relay_ref_counts T)\<rparr>)"
proof (cases "fmlookup (ct_relay_ref_counts T) rk")
  case None
  then show ?thesis using assms by (auto simp: effective_relay_ref_def effective_ref_def relay_row_def)
next
  case (Some c)
  then have "fmupd rk c (ct_relay_ref_counts T) = ct_relay_ref_counts T" by (intro fmap_ext) auto
  then show ?thesis using Some by (simp add: effective_relay_ref_def effective_ref_def)
qed

lemma increment_relay_ref_result:
  assumes "fmlookup (ct_relays T) rk \<noteq> None" "unat (effective_ref (ct_relays T) (ct_relay_ref_counts T) rk) + 1 < 2 ^ 64"
  shows "increment_relay_ref rk T = Some (T\<lparr>ct_relay_ref_counts :=
    fmupd rk (effective_ref (ct_relays T) (ct_relay_ref_counts T) rk + 1) (ct_relay_ref_counts T)\<rparr>)"
proof -
  have "checked_add (effective_ref (ct_relays T) (ct_relay_ref_counts T) rk) 1 =
      Some (effective_ref (ct_relays T) (ct_relay_ref_counts T) rk + 1)"
    using assms(2) by (simp add: checked_add_def)
  then show ?thesis unfolding increment_relay_ref_def effective_relay_ref_result[OF assms(1)] by simp
qed

lemma decrement_relay_ref_result:
  assumes "fmlookup (ct_relays T) rk \<noteq> None" "effective_ref (ct_relays T) (ct_relay_ref_counts T) rk \<noteq> 0"
  shows "decrement_relay_ref rk T = Some (T\<lparr>ct_relay_ref_counts :=
    fmupd rk (effective_ref (ct_relays T) (ct_relay_ref_counts T) rk - 1) (ct_relay_ref_counts T)\<rparr>)"
proof -
  have "checked_sub (effective_ref (ct_relays T) (ct_relay_ref_counts T) rk) 1 =
      Some (effective_ref (ct_relays T) (ct_relay_ref_counts T) rk - 1)"
    using assms(2) by (simp add: checked_sub_def word_le_nat_alt unat_gt_0 Suc_le_eq)
  then show ?thesis unfolding decrement_relay_ref_def effective_relay_ref_result[OF assms(1)] by simp
qed

section \<open>The rows the tables denote\<close>

definition seen_of :: "canonical_tables \<Rightarrow> event_key \<Rightarrow> relay_url \<Rightarrow> u64 option" where
  "seen_of T key url = (case fmlookup (ct_relay_ids T) url of None \<Rightarrow> None | Some rk \<Rightarrow> fmlookup (ct_observations T) (key, rk))"

lemma seen_of_cong:
  "ct_relay_ids T' = ct_relay_ids T \<Longrightarrow> ct_observations T' = ct_observations T \<Longrightarrow> seen_of T' = seen_of T"
  by (simp add: fun_eq_iff seen_of_def split: option.split)

type_synonym row_view = "event \<times> (relay_url \<Rightarrow> u64 option) \<times> local_origin option"

definition view :: "canonical_tables \<Rightarrow> string \<Rightarrow> row_view option" where
  "view T eid =
     (case fmlookup (ct_event_ids T) eid of
        None \<Rightarrow> None
      | Some key \<Rightarrow> map_option (\<lambda>e. (e, seen_of T key, fmlookup (ct_local T) key)) (fmlookup (ct_rows T) key))"

lemma distinct_observation_range: "distinct (map fst (observation_range key T))"
proof -
  have "distinct (filter (\<lambda>p. fst p = key) (map fst (sorted_list_of_fmap (ct_observations T))))"
    by (intro distinct_filter distinct_map_fst_sorted_list_of_fmap)
  moreover have "map fst (observation_range key T) = map snd (filter (\<lambda>p. fst p = key) (map fst (sorted_list_of_fmap (ct_observations T))))"
    by (simp add: observation_range_def filter_map comp_def split_def del: map_fst_sorted_list_of_fmap)
  ultimately show ?thesis by (auto simp: distinct_map inj_on_def)
qed

lemma set_observation_range: "(rk, at) \<in> set (observation_range key T) \<longleftrightarrow> fmlookup (ct_observations T) (key, rk) = Some at"
  by (force simp: observation_range_def set_sorted_list_of_fmap)

lemma map_of_observation_range: "map_of (observation_range key T) rk = fmlookup (ct_observations T) (key, rk)"
proof (cases "fmlookup (ct_observations T) (key, rk)")
  case None
  then show ?thesis by (auto simp: map_of_eq_None_iff set_observation_range)
next
  case (Some at)
  then show ?thesis using distinct_observation_range by (simp add: set_observation_range)
qed

lemma load_seen_rows_result:
  assumes "relays_ok env (ct_relays T) (ct_relay_ids T) n" "\<forall>rk \<in> fst ` set rows. fmlookup (ct_relays T) rk \<noteq> None"
    "distinct (map fst rows)" "\<forall>rk \<in> fst ` set rows. \<forall>row. fmlookup (ct_relays T) rk = Some row \<longrightarrow> fmlookup seen (snd row) = None"
  shows "\<exists>seen'. load_seen_rows env rows T seen = Some seen' \<and>
    (\<forall>url. fmlookup seen' url = (case Option.bind (fmlookup (ct_relay_ids T) url) (map_of rows) of
        None \<Rightarrow> fmlookup seen url | Some at \<Rightarrow> Some at))"
  using assms
proof (induction rows arbitrary: seen)
  case Nil
  then show ?case by (auto split: Option.bind_splits option.split)
next
  case (Cons r rows)
  obtain rk at where r: "r = (rk, at)" by force
  then obtain refs url where row: "fmlookup (ct_relays T) rk = Some (refs, url)" using Cons.prems(2) by force
  have parse: "se_parse_relay env url = Some url" using relays_okD(3)[OF Cons.prems(1) row] by simp
  have fresh: "fmlookup seen url = None" using Cons.prems(4) r row by force
  have urls: "fmlookup (ct_relay_ids T) u = Some rk' \<longleftrightarrow> (\<exists>refs. fmlookup (ct_relays T) rk' = Some (refs, u))" for u rk'
    using relays_okD(1)[OF Cons.prems(1)] by force
  have other: "snd row' \<noteq> url" if "rk' \<in> fst ` set rows" "fmlookup (ct_relays T) rk' = Some row'" for rk' row'
  proof
    assume "snd row' = url"
    then have "fmlookup (ct_relay_ids T) url = Some rk'" using that(2) by (cases row') (auto simp: urls)
    moreover have "fmlookup (ct_relay_ids T) url = Some rk" using row by (auto simp: urls)
    ultimately show False using that(1) Cons.prems(3) r by simp
  qed
  let ?seen = "fold_seen_at url at seen"
  have lookup: "fmlookup ?seen u = (if u = url then Some at else fmlookup seen u)" for u
    using fresh by (simp add: fold_seen_at_def fmlookup_fm_upsert)
  have "\<exists>seen'. load_seen_rows env rows T ?seen = Some seen' \<and>
    (\<forall>u. fmlookup seen' u = (case Option.bind (fmlookup (ct_relay_ids T) u) (map_of rows) of
        None \<Rightarrow> fmlookup ?seen u | Some at \<Rightarrow> Some at))"
  proof (rule Cons.IH)
    show "relays_ok env (ct_relays T) (ct_relay_ids T) n" by (fact Cons.prems(1))
    show "\<forall>rk \<in> fst ` set rows. fmlookup (ct_relays T) rk \<noteq> None" using Cons.prems(2) by simp
    show "distinct (map fst rows)" using Cons.prems(3) by simp
    show "\<forall>rk \<in> fst ` set rows. \<forall>row. fmlookup (ct_relays T) rk = Some row \<longrightarrow> fmlookup ?seen (snd row) = None"
    proof (intro ballI allI impI)
      fix rk' row' assume m: "rk' \<in> fst ` set rows" "fmlookup (ct_relays T) rk' = Some row'"
      from m(1) have "rk' \<in> fst ` set (r # rows)" by simp
      with Cons.prems(4) m(2) have "fmlookup seen (snd row') = None" by blast
      then show "fmlookup ?seen (snd row') = None" using other[OF m] by (simp add: lookup)
    qed
  qed
  then obtain seen' where seen': "load_seen_rows env rows T ?seen = Some seen'"
    "\<And>u. fmlookup seen' u = (case Option.bind (fmlookup (ct_relay_ids T) u) (map_of rows) of
        None \<Rightarrow> fmlookup ?seen u | Some at \<Rightarrow> Some at)" by blast
  have miss: "map_of rows rk = None" using Cons.prems(3) r by (auto simp: map_of_eq_None_iff)
  have hit: "fmlookup (ct_relay_ids T) url = Some rk" using row by (auto simp: urls)
  have "fmlookup seen' u = (case Option.bind (fmlookup (ct_relay_ids T) u) (map_of (r # rows)) of
        None \<Rightarrow> fmlookup seen u | Some at \<Rightarrow> Some at)" for u
  proof (cases "u = url")
    case True
    then show ?thesis by (simp add: seen'(2) lookup hit miss r)
  next
    case False
    show ?thesis
    proof (cases "fmlookup (ct_relay_ids T) u")
      case None
      then show ?thesis using False by (simp add: seen'(2) lookup)
    next
      case (Some rk')
      then have "rk' \<noteq> rk" using row False by (auto simp: urls)
      then show ?thesis using False Some by (simp add: seen'(2) lookup r split: option.split)
    qed
  qed
  moreover have "load_seen_rows env (r # rows) T seen = Some seen'" using seen'(1) r row parse by simp
  ultimately show ?case by blast
qed

lemma load_seen_result:
  assumes "canon_core env fresh T"
  shows "\<exists>seen. load_seen env key T = Some seen \<and> fmlookup seen = seen_of T key"
proof -
  note d = canon_coreD[OF assms]
  have "\<forall>rk \<in> fst ` set (observation_range key T). fmlookup (ct_relays T) rk \<noteq> None"
  proof
    fix rk assume "rk \<in> fst ` set (observation_range key T)"
    then obtain at where "fmlookup (ct_observations T) (key, rk) = Some at" by (auto simp: set_observation_range)
    then show "fmlookup (ct_relays T) rk \<noteq> None" using refs_okD(2)[OF d(3), of key rk] by simp
  qed
  from load_seen_rows_result[OF d(2) this distinct_observation_range, of fmempty]
  obtain seen where seen: "load_seen_rows env (observation_range key T) T fmempty = Some seen"
    "\<forall>url. fmlookup seen url = (case Option.bind (fmlookup (ct_relay_ids T) url) (map_of (observation_range key T)) of
        None \<Rightarrow> fmlookup fmempty url | Some at \<Rightarrow> Some at)" by auto
  have "fmlookup seen url = seen_of T key url" for url
    using spec[OF seen(2), of url]
    by (cases "fmlookup (ct_relay_ids T) url") (simp_all add: seen_of_def map_of_observation_range split: option.splits)
  then show ?thesis using seen(1) by (auto simp: load_seen_def)
qed

lemma load_by_key_result:
  assumes "canon_core env fresh T"
  shows "\<exists>se. load_by_key env key T = Some se \<and>
    map_option (\<lambda>se. (st_event se, fmlookup (pv_seen (st_provenance se)), pv_local (st_provenance se))) se =
    map_option (\<lambda>e. (e, seen_of T key, fmlookup (ct_local T) key)) (fmlookup (ct_rows T) key)"
  using load_seen_result[OF assms, of key] by (auto simp: load_by_key_def load_local_def split: option.split)

section \<open>Observations\<close>

text \<open>What an operation on observations leaves alone.\<close>

definition same_rows :: "canonical_tables \<Rightarrow> canonical_tables \<Rightarrow> bool" where
  "same_rows T T' \<longleftrightarrow>
     ct_rows T' = ct_rows T \<and> ct_local T' = ct_local T \<and> ct_event_ids T' = ct_event_ids T \<and>
     ct_next_event_key T' = ct_next_event_key T \<and> ct_event_allocator_dirty T' = ct_event_allocator_dirty T \<and>
     ct_meta_next_event_key T' = ct_meta_next_event_key T"

lemma same_rowsD:
  assumes "same_rows T T'"
  shows "ct_rows T' = ct_rows T" "ct_local T' = ct_local T" "ct_event_ids T' = ct_event_ids T"
    "ct_next_event_key T' = ct_next_event_key T"
  using assms by (simp_all add: same_rows_def)

lemma same_rows_refl [simp]: "same_rows T T"
  by (simp add: same_rows_def)

lemma same_rows_trans: "same_rows T T' \<Longrightarrow> same_rows T' T'' \<Longrightarrow> same_rows T T''"
  by (simp add: same_rows_def)

lemma refs_ok_mono: "refs_ok fresh rows obs relays counts \<Longrightarrow> fresh \<subseteq> fresh' \<Longrightarrow> refs_ok fresh' rows obs relays counts"
  unfolding refs_ok_def by blast

lemma intern_relay_ok:
  assumes "canon_ok env T" "se_parse_relay env relay = Some relay" "relay_room 1 T"
  shows "\<exists>rk T'. intern_relay relay T = Some (rk, T') \<and> canon_core env {rk} T' \<and> same_rows T T' \<and>
    ct_observations T' = ct_observations T \<and> ct_relay_ref_counts T' = ct_relay_ref_counts T \<and>
    fmlookup (ct_relay_ids T') relay = Some rk \<and> fmlookup (ct_relays T') rk \<noteq> None \<and> seen_of T' = seen_of T \<and>
    unat (ct_next_relay_key T') \<le> unat (ct_next_relay_key T) + 1"
proof (cases "fmlookup (ct_relay_ids T) relay")
  case (Some rk)
  note d = canon_coreD[OF assms(1)]
  have "fmlookup (ct_relays T) rk \<noteq> None" using relays_okD(1)[OF d(2), of relay rk] Some by auto
  moreover have "canon_core env {rk} T" using assms(1) refs_ok_mono[of "{}"] by (auto simp: canon_core_def)
  ultimately show ?thesis using Some by (auto simp: intern_relay_def)
next
  case None
  note d = canon_coreD[OF assms(1)]
  let ?rk = "ct_next_relay_key T"
  have succ: "checked_add ?rk 1 = Some (?rk + 1)" "unat (?rk + 1) = unat ?rk + 1"
    using assms(3) by (simp_all add: relay_room_def checked_add_def unat_word_ariths)
  have fresh: "fmlookup (ct_relays T) ?rk = None" using relays_okD(2)[OF d(2), of ?rk] less_irrefl by blast
  let ?T = "T\<lparr>ct_next_relay_key := ?rk + 1, ct_relay_allocator_dirty := True,
      ct_relays := fmupd ?rk (0, relay) (ct_relays T), ct_relay_ids := fmupd relay ?rk (ct_relay_ids T)\<rparr>"
  have run: "intern_relay relay T = Some (?rk, ?T)"
    using None succ by (simp add: intern_relay_def allocate_relay_key_def)
  have less: "?rk < ?rk + 1" using succ(2) by (simp add: word_less_nat_alt)
  have noobs: "fmlookup (ct_observations T) (k, ?rk) = None" for k
    using refs_okD(2)[OF d(3), of k ?rk] fresh by blast
  have nocount: "fmlookup (ct_relay_ref_counts T) ?rk = None" using refs_okD(3)[OF d(3), of ?rk] fresh by blast
  have unused: "map_option snd (fmlookup (ct_relays T) rk) \<noteq> Some relay" for rk
    using relays_okD(1)[OF d(2), of relay rk] None by simp
  have "relays_ok env (fmupd ?rk (0, relay) (ct_relays T)) (fmupd relay ?rk (ct_relay_ids T)) (?rk + 1)"
    unfolding relays_ok_def
  proof (intro conjI allI impI)
    show "fmlookup (fmupd relay ?rk (ct_relay_ids T)) url = Some rk \<longleftrightarrow>
        map_option snd (fmlookup (fmupd ?rk (0, relay) (ct_relays T)) rk) = Some url" for url rk
      using relays_okD(1)[OF d(2), of url rk] unused[of rk] fresh by (cases "url = relay"; cases "rk = ?rk") auto
    show "rk < ?rk + 1" if "fmlookup (fmupd ?rk (0, relay) (ct_relays T)) rk \<noteq> None" for rk
      using that relays_okD(2)[OF d(2), of rk] less by (cases "rk = ?rk") auto
    show "se_parse_relay env (snd row) = Some (snd row)" if "fmlookup (fmupd ?rk (0, relay) (ct_relays T)) rk = Some row" for rk row
      using that relays_okD(3)[OF d(2), of rk row] assms(2) by (cases "rk = ?rk") auto
  qed
  moreover have "refs_ok {?rk} (ct_rows T) (ct_observations T) (fmupd ?rk (0, relay) (ct_relays T)) (ct_relay_ref_counts T)"
    unfolding refs_ok_def
  proof (intro conjI allI impI)
    fix k rk rk' row
    show "fmlookup (ct_rows T) k \<noteq> None" if "fmlookup (ct_observations T) (k, rk) \<noteq> None" by (rule refs_okD(1)[OF d(3) that])
    show "fmlookup (fmupd ?rk (0, relay) (ct_relays T)) rk \<noteq> None" if "fmlookup (ct_observations T) (k, rk) \<noteq> None"
      using refs_okD(2)[OF d(3) that] by simp
    show "fmlookup (fmupd ?rk (0, relay) (ct_relays T)) rk \<noteq> None" if "fmlookup (ct_relay_ref_counts T) rk \<noteq> None"
      using refs_okD(3)[OF d(3) that] by simp
    show "unat (effective_ref (fmupd ?rk (0, relay) (ct_relays T)) (ct_relay_ref_counts T) rk) = card (observers (ct_observations T) rk)"
      if "fmlookup (fmupd ?rk (0, relay) (ct_relays T)) rk \<noteq> None"
      using that refs_okD(4)[OF d(3), of rk] noobs nocount
      by (cases "rk = ?rk") (simp_all add: effective_ref_relay_upd observers_def)
    show "fst row > 0" if "fmlookup (fmupd ?rk (0, relay) (ct_relays T)) rk = Some row" "fmlookup (ct_relay_ref_counts T) rk = None" "rk \<notin> {?rk}"
      using that refs_okD(5)[OF d(3), of rk row] by simp
  qed
  ultimately have "canon_core env {?rk} ?T" using d by (simp add: canon_core_def allocator_ok_def)
  moreover have "seen_of ?T = seen_of T" using None noobs by (auto simp: fun_eq_iff seen_of_def split: option.split)
  ultimately show ?thesis using run succ(2) by (auto simp: same_rows_def)
qed

text \<open>Writing and dropping one observation, with the count that goes with it.\<close>

lemma refs_ok_put:
  assumes "refs_ok {rk} rows obs relays counts" "fmlookup rows k \<noteq> None" "fmlookup relays rk \<noteq> None"
    "fmlookup obs (k, rk) = None" "unat (effective_ref relays counts rk) + 1 < 2 ^ 64"
  shows "refs_ok {} rows (fmupd (k, rk) at obs) relays (fmupd rk (effective_ref relays counts rk + 1) counts)"
  unfolding refs_ok_def
proof (intro conjI allI impI)
  fix k' rk' row
  show "fmlookup rows k' \<noteq> None" "fmlookup relays rk' \<noteq> None" if "fmlookup (fmupd (k, rk) at obs) (k', rk') \<noteq> None"
    using that assms(2,3) refs_okD(1,2)[OF assms(1), of k' rk'] by (auto split: if_splits)
  show "fmlookup relays rk' \<noteq> None" if "fmlookup (fmupd rk (effective_ref relays counts rk + 1) counts) rk' \<noteq> None"
    using that assms(3) refs_okD(3)[OF assms(1), of rk'] by (auto split: if_splits)
  have "unat (effective_ref relays counts rk + 1) = unat (effective_ref relays counts rk) + 1"
    using assms(5) by (simp add: unat_word_ariths)
  moreover have "k \<notin> observers obs rk" using assms(4) by (simp add: observers_def)
  ultimately show "unat (effective_ref relays (fmupd rk (effective_ref relays counts rk + 1) counts) rk') =
      card (observers (fmupd (k, rk) at obs) rk')" if "fmlookup relays rk' \<noteq> None"
    using that refs_okD(4)[OF assms(1) that] refs_okD(4)[OF assms(1,3)]
    by (simp add: effective_ref_count_upd observers_fmupd)
  show "fst row > 0" if "fmlookup relays rk' = Some row" "fmlookup (fmupd rk (effective_ref relays counts rk + 1) counts) rk' = None"
    using that refs_okD(5)[OF assms(1) that(1)] by (simp split: if_splits)
qed

lemma refs_ok_overwrite:
  assumes "refs_ok {rk} rows obs relays counts" "fmlookup obs (k, rk) \<noteq> None"
  shows "refs_ok {} rows (fmupd (k, rk) at obs) relays counts"
  unfolding refs_ok_def
proof (intro conjI allI impI)
  fix k' rk' row
  show "fmlookup rows k' \<noteq> None" "fmlookup relays rk' \<noteq> None" if "fmlookup (fmupd (k, rk) at obs) (k', rk') \<noteq> None"
    using that refs_okD(1,2)[OF assms(1), of k' rk'] refs_okD(1,2)[OF assms] by (auto split: if_splits)
  show "fmlookup relays rk' \<noteq> None" if "fmlookup counts rk' \<noteq> None" by (rule refs_okD(3)[OF assms(1) that])
  have k: "k \<in> observers obs rk" using assms(2) by (simp add: observers_def)
  then show "unat (effective_ref relays counts rk') = card (observers (fmupd (k, rk) at obs) rk')" if "fmlookup relays rk' \<noteq> None"
    using refs_okD(4)[OF assms(1) that] by (simp add: observers_fmupd insert_absorb)
  show "fst row > 0" if row: "fmlookup relays rk' = Some row" "fmlookup counts rk' = None"
  proof (cases "rk' = rk")
    case True
    have "card (observers obs rk) > 0" using k by (auto simp: card_gt_0_iff)
    then have "unat (effective_ref relays counts rk) > 0" using refs_okD(4)[OF assms(1) refs_okD(2)[OF assms]] by simp
    then show ?thesis using row True by (simp add: effective_ref_def word_less_nat_alt)
  qed (use refs_okD(5)[OF assms(1) row] in simp)
qed

lemma refs_ok_drop:
  assumes "refs_ok {} rows obs relays counts" "fmlookup obs (k, rk) \<noteq> None"
  shows "effective_ref relays counts rk \<noteq> 0"
    "refs_ok {} rows (fmdrop (k, rk) obs) relays (fmupd rk (effective_ref relays counts rk - 1) counts)"
proof -
  note rk = refs_okD(2)[OF assms]
  have k: "k \<in> observers obs rk" using assms(2) by (simp add: observers_def)
  then have pos: "card (observers obs rk) > 0" by (auto simp: card_gt_0_iff)
  then have gt: "unat (effective_ref relays counts rk) > 0" using refs_okD(4)[OF assms(1) rk] by simp
  then show "effective_ref relays counts rk \<noteq> 0" by auto
  have minus: "unat (effective_ref relays counts rk - 1) = unat (effective_ref relays counts rk) - 1"
    using gt by (intro unat_minus_one) auto
  show "refs_ok {} rows (fmdrop (k, rk) obs) relays (fmupd rk (effective_ref relays counts rk - 1) counts)"
    unfolding refs_ok_def
  proof (intro conjI allI impI)
    fix k' rk' row
    show "fmlookup rows k' \<noteq> None" "fmlookup relays rk' \<noteq> None" if "fmlookup (fmdrop (k, rk) obs) (k', rk') \<noteq> None"
      using that refs_okD(1,2)[OF assms(1), of k' rk'] by (auto split: if_splits)
    show "fmlookup relays rk' \<noteq> None" if "fmlookup (fmupd rk (effective_ref relays counts rk - 1) counts) rk' \<noteq> None"
      using that rk refs_okD(3)[OF assms(1), of rk'] by (auto split: if_splits)
    show "unat (effective_ref relays (fmupd rk (effective_ref relays counts rk - 1) counts) rk') =
        card (observers (fmdrop (k, rk) obs) rk')" if "fmlookup relays rk' \<noteq> None"
      using refs_okD(4)[OF assms(1) that] refs_okD(4)[OF assms(1) rk] k minus
      by (simp add: effective_ref_count_upd observers_fmdrop)
    show "fst row > 0" if "fmlookup relays rk' = Some row" "fmlookup (fmupd rk (effective_ref relays counts rk - 1) counts) rk' = None"
      using that refs_okD(5)[OF assms(1) that(1)] by (simp split: if_splits)
  qed
qed

lemma seen_of_put:
  assumes "relays_ok env (ct_relays T) (ct_relay_ids T) n" "fmlookup (ct_relay_ids T) relay = Some rk"
    "ct_relay_ids T' = ct_relay_ids T" "ct_observations T' = fmupd (k, rk) at (ct_observations T)"
  shows "seen_of T' = (seen_of T)(k := (seen_of T k)(relay \<mapsto> at))"
proof (intro ext)
  fix k' url
  show "seen_of T' k' url = ((seen_of T)(k := (seen_of T k)(relay \<mapsto> at))) k' url"
  proof (cases "url = relay")
    case True
    then show ?thesis using assms(2) by (simp add: seen_of_def assms(3,4))
  next
    case False
    then have "fmlookup (ct_relay_ids T) url \<noteq> Some rk" using relay_ids_inj[OF assms(1,2)] by blast
    then show ?thesis using False by (simp add: seen_of_def assms(3,4) split: option.split)
  qed
qed

lemma put_observation_ok:
  assumes "canon_core env {rk} T" "fmlookup (ct_rows T) k \<noteq> None" "fmlookup (ct_relay_ids T) relay = Some rk"
  shows "\<exists>T'. (if fmlookup (ct_observations T) (k, rk) = None
       then increment_relay_ref rk (T\<lparr>ct_observations := fmupd (k, rk) at (ct_observations T)\<rparr>)
       else Some (T\<lparr>ct_observations := fmupd (k, rk) at (ct_observations T)\<rparr>)) = Some T' \<and>
    canon_ok env T' \<and> same_rows T T' \<and> seen_of T' = (seen_of T)(k := (seen_of T k)(relay \<mapsto> at)) \<and>
    ct_next_relay_key T' = ct_next_relay_key T"
proof -
  note d = canon_coreD[OF assms(1)]
  have rk: "fmlookup (ct_relays T) rk \<noteq> None" using relays_okD(1)[OF d(2), of relay rk] assms(3) by auto
  let ?e = "effective_ref (ct_relays T) (ct_relay_ref_counts T) rk"
  let ?T = "T\<lparr>ct_observations := fmupd (k, rk) at (ct_observations T)\<rparr>"
  show ?thesis
  proof (cases "fmlookup (ct_observations T) (k, rk)")
    case None
    then have "k \<notin> observers (ct_observations T) rk" by (simp add: observers_def)
    from card_observers_less[OF d(1,3) this assms(2)] refs_okD(4)[OF d(3) rk]
    have "unat ?e < unat (ct_next_event_key T)" by simp
    moreover have "unat (ct_next_event_key T) < 2 ^ 64" using unsigned_less[of "ct_next_event_key T"] by simp
    ultimately have room: "unat ?e + 1 < 2 ^ 64" by linarith
    let ?T' = "?T\<lparr>ct_relay_ref_counts := fmupd rk (?e + 1) (ct_relay_ref_counts T)\<rparr>"
    have "increment_relay_ref rk ?T = Some ?T'" using increment_relay_ref_result[of ?T rk] rk room by simp
    moreover have "canon_ok env ?T'"
      using d refs_ok_put[OF d(3) assms(2) rk None room] by (simp add: canon_core_def)
    moreover have "seen_of ?T' = (seen_of T)(k := (seen_of T k)(relay \<mapsto> at))"
      by (rule seen_of_put[OF d(2) assms(3)]) simp_all
    ultimately show ?thesis using None by (simp add: same_rows_def)
  next
    case (Some old)
    then have "canon_ok env ?T"
      using d refs_ok_overwrite[OF d(3), of k at] by (simp add: canon_core_def)
    moreover have "seen_of ?T = (seen_of T)(k := (seen_of T k)(relay \<mapsto> at))"
      by (rule seen_of_put[OF d(2) assms(3)]) simp_all
    ultimately show ?thesis using Some by (simp add: same_rows_def)
  qed
qed

text \<open>The reading of a re-observation: the newest timestamp wins.\<close>

definition newest :: "u64 option \<Rightarrow> u64 \<Rightarrow> u64" where
  "newest old at = (case old of None \<Rightarrow> at | Some t \<Rightarrow> max t at)"

lemma merge_observation_ok:
  assumes "canon_ok env T" "fmlookup (ct_rows T) k \<noteq> None" "se_parse_relay env relay = Some relay" "relay_room 1 T"
  shows "\<exists>T'. merge_observation k relay at T = Some (seen_of T k relay \<noteq> Some (newest (seen_of T k relay) at), T') \<and>
    canon_ok env T' \<and> same_rows T T' \<and>
    seen_of T' = (seen_of T)(k := (seen_of T k)(relay \<mapsto> newest (seen_of T k relay) at)) \<and>
    unat (ct_next_relay_key T') \<le> unat (ct_next_relay_key T) + 1"
proof -
  from intern_relay_ok[OF assms(1,3,4)] obtain rk T1 where i: "intern_relay relay T = Some (rk, T1)"
    "canon_core env {rk} T1" "same_rows T T1" "fmlookup (ct_relay_ids T1) relay = Some rk" "seen_of T1 = seen_of T"
    "unat (ct_next_relay_key T1) \<le> unat (ct_next_relay_key T) + 1" by blast
  have row: "fmlookup (ct_rows T1) k \<noteq> None" using assms(2) i(3) by (simp add: same_rowsD)
  have obs: "seen_of T k relay = fmlookup (ct_observations T1) (k, rk)"
    using i(4) by (simp add: i(5)[symmetric] seen_of_def)
  from put_observation_ok[OF i(2) row i(4), of at] obtain T2 where p:
    "(if fmlookup (ct_observations T1) (k, rk) = None
       then increment_relay_ref rk (T1\<lparr>ct_observations := fmupd (k, rk) at (ct_observations T1)\<rparr>)
       else Some (T1\<lparr>ct_observations := fmupd (k, rk) at (ct_observations T1)\<rparr>)) = Some T2"
    "canon_ok env T2" "same_rows T1 T2" "seen_of T2 = (seen_of T1)(k := (seen_of T1 k)(relay \<mapsto> at))"
    "ct_next_relay_key T2 = ct_next_relay_key T1" by blast
  show ?thesis
  proof (cases "case fmlookup (ct_observations T1) (k, rk) of None \<Rightarrow> False | Some old \<Rightarrow> old \<ge> at")
    case True
    then obtain old where old: "fmlookup (ct_observations T1) (k, rk) = Some old" "old \<ge> at" by (auto split: option.splits)
    have "fmupd (k, rk) old (ct_observations T1) = ct_observations T1" using old(1) by (intro fmap_ext) auto
    then have "canon_ok env T1"
      using canon_coreD[OF i(2)] refs_ok_overwrite[OF canon_coreD(3)[OF i(2)], of k old] old(1) by (simp add: canon_core_def)
    moreover have "newest (seen_of T k relay) at = old" using old obs by (simp add: newest_def max_def)
    moreover have "(seen_of T)(k := (seen_of T k)(relay \<mapsto> old)) = seen_of T"
      using old(1) obs by (auto simp: fun_eq_iff)
    ultimately show ?thesis using i old obs by (simp add: merge_observation_def)
  next
    case False
    then have n: "newest (seen_of T k relay) at = at" "seen_of T k relay \<noteq> Some at"
      using obs by (auto simp: newest_def max_def split: option.splits)
    have "merge_observation k relay at T = Some (True, T2)"
      using False p(1) i(1) by (simp add: merge_observation_def Let_def split: if_splits)
    then show ?thesis using n i p same_rows_trans[OF i(3) p(3)] by simp
  qed
qed

lemma relay_room_mono: "relay_room (n + m) T \<Longrightarrow> unat (ct_next_relay_key T') \<le> unat (ct_next_relay_key T) + m \<Longrightarrow> relay_room n T'"
  by (simp add: relay_room_def)

definition merged_seen :: "(relay_url \<Rightarrow> u64 option) \<Rightarrow> (relay_url \<times> u64) list \<Rightarrow> relay_url \<Rightarrow> u64 option" where
  "merged_seen old seen url = (case map_of seen url of None \<Rightarrow> old url | Some at \<Rightarrow> Some (newest (old url) at))"

lemma merge_seen_ok:
  assumes "canon_ok env T" "fmlookup (ct_rows T) k \<noteq> None" "distinct (map fst seen)"
    "\<forall>url \<in> fst ` set seen. se_parse_relay env url = Some url" "relay_room (length seen) T"
  shows "\<exists>T'. merge_seen k seen T = Some T' \<and> canon_ok env T' \<and> same_rows T T' \<and>
    seen_of T' = (seen_of T)(k := merged_seen (seen_of T k) seen) \<and>
    unat (ct_next_relay_key T') \<le> unat (ct_next_relay_key T) + length seen"
  using assms
proof (induction seen arbitrary: T)
  case Nil
  then show ?case by (auto simp: fun_eq_iff merged_seen_def)
next
  case (Cons p seen)
  obtain relay at where p: "p = (relay, at)" by force
  have "relay_room 1 T" using Cons.prems(5) by (simp add: relay_room_def)
  moreover have "se_parse_relay env relay = Some relay" using Cons.prems(4) p by simp
  ultimately obtain T1 where m: "merge_observation k relay at T = Some (seen_of T k relay \<noteq> Some (newest (seen_of T k relay) at), T1)"
    "canon_ok env T1" "same_rows T T1"
    "seen_of T1 = (seen_of T)(k := (seen_of T k)(relay \<mapsto> newest (seen_of T k relay) at))"
    "unat (ct_next_relay_key T1) \<le> unat (ct_next_relay_key T) + 1"
    using merge_observation_ok[OF Cons.prems(1,2), of relay at] by blast
  have room: "relay_room (length seen) T1" using relay_room_mono[of "length seen" 1] Cons.prems(5) m(5) by simp
  have prems: "fmlookup (ct_rows T1) k \<noteq> None" "distinct (map fst seen)"
    "\<forall>url \<in> fst ` set seen. se_parse_relay env url = Some url"
    using Cons.prems(2-4) m(3) by (simp_all add: same_rowsD)
  from Cons.IH[OF m(2) prems room] obtain T2 where r: "merge_seen k seen T1 = Some T2" "canon_ok env T2" "same_rows T1 T2"
    "seen_of T2 = (seen_of T1)(k := merged_seen (seen_of T1 k) seen)"
    "unat (ct_next_relay_key T2) \<le> unat (ct_next_relay_key T1) + length seen"
    by blast
  have "map_of seen relay = None" using Cons.prems(3) p by (auto simp: map_of_eq_None_iff)
  then have "seen_of T2 = (seen_of T)(k := merged_seen (seen_of T k) (p # seen))"
    by (auto simp: fun_eq_iff merged_seen_def r(4) m(4) p split: option.split)
  moreover have "merge_seen k (p # seen) T = Some T2" using p m(1) r(1) by simp
  moreover have "unat (ct_next_relay_key T2) \<le> unat (ct_next_relay_key T) + length (p # seen)" using r(5) m(5) by simp
  ultimately show ?case using r(2) same_rows_trans[OF m(3) r(3)] by blast
qed

lemma seen_of_drop:
  assumes "relays_ok env (ct_relays T) (ct_relay_ids T) n" "map_option snd (fmlookup (ct_relays T) rk) = Some relay"
    "ct_relay_ids T' = ct_relay_ids T" "ct_observations T' = fmdrop (k, rk) (ct_observations T)"
  shows "seen_of T' = (seen_of T)(k := (seen_of T k)(relay := None))"
proof (intro ext)
  fix k' url
  have ids: "fmlookup (ct_relay_ids T) relay = Some rk" using relays_okD(1)[OF assms(1), of relay rk] assms(2) by simp
  show "seen_of T' k' url = ((seen_of T)(k := (seen_of T k)(relay := None))) k' url"
  proof (cases "url = relay")
    case True
    then show ?thesis using ids by (simp add: seen_of_def assms(3,4))
  next
    case False
    then have "fmlookup (ct_relay_ids T) url \<noteq> Some rk" using relay_ids_inj[OF assms(1) ids] by blast
    then show ?thesis using False by (simp add: seen_of_def assms(3,4) split: option.split)
  qed
qed

lemma remove_observation_ok:
  assumes "canon_ok env T"
  shows "\<exists>T'. remove_observation k rk T = Some T' \<and> canon_ok env T' \<and> same_rows T T' \<and>
    ct_observations T' = fmdrop (k, rk) (ct_observations T) \<and> ct_relays T' = ct_relays T \<and>
    ct_relay_ids T' = ct_relay_ids T \<and> ct_next_relay_key T' = ct_next_relay_key T"
proof (cases "fmlookup (ct_observations T) (k, rk)")
  case None
  then have "fmdrop (k, rk) (ct_observations T) = ct_observations T" by (intro fmap_ext) auto
  then show ?thesis using None assms by (simp add: remove_observation_def)
next
  case (Some at)
  note d = canon_coreD[OF assms]
  let ?T = "T\<lparr>ct_observations := fmdrop (k, rk) (ct_observations T)\<rparr>"
  have rk: "fmlookup (ct_relays T) rk \<noteq> None" using refs_okD(2)[OF d(3), of k rk] Some by simp
  have held: "fmlookup (ct_observations T) (k, rk) \<noteq> None" using Some by simp
  note drop = refs_ok_drop[OF d(3) held]
  have "decrement_relay_ref rk ?T = Some (?T\<lparr>ct_relay_ref_counts :=
      fmupd rk (effective_ref (ct_relays T) (ct_relay_ref_counts T) rk - 1) (ct_relay_ref_counts T)\<rparr>)"
    using decrement_relay_ref_result[of ?T rk] rk drop(1) by simp
  then show ?thesis using Some d drop(2) by (simp add: remove_observation_def canon_core_def same_rows_def)
qed

lemma remove_observations_ok:
  assumes "canon_ok env T"
  shows "\<exists>T'. remove_observations k rks T = Some T' \<and> canon_ok env T' \<and> same_rows T T' \<and>
    ct_observations T' = fmfilter (\<lambda>(k', rk). \<not> (k' = k \<and> rk \<in> set rks)) (ct_observations T) \<and> ct_relays T' = ct_relays T \<and>
    ct_relay_ids T' = ct_relay_ids T \<and> ct_next_relay_key T' = ct_next_relay_key T"
  using assms
proof (induction rks arbitrary: T)
  case Nil
  have "fmfilter (\<lambda>(k', rk). True) (ct_observations T) = ct_observations T" by (intro fmap_ext) auto
  then show ?case using Nil by simp
next
  case (Cons rk rks)
  from remove_observation_ok[OF Cons.prems, of k rk] obtain T1 where r: "remove_observation k rk T = Some T1"
    "canon_ok env T1" "same_rows T T1" "ct_observations T1 = fmdrop (k, rk) (ct_observations T)" "ct_relays T1 = ct_relays T"
    "ct_relay_ids T1 = ct_relay_ids T" "ct_next_relay_key T1 = ct_next_relay_key T" by blast
  from Cons.IH[OF r(2)] obtain T2 where s: "remove_observations k rks T1 = Some T2" "canon_ok env T2" "same_rows T1 T2"
    "ct_observations T2 = fmfilter (\<lambda>(k', rk). \<not> (k' = k \<and> rk \<in> set rks)) (ct_observations T1)"
    "ct_relays T2 = ct_relays T1" "ct_relay_ids T2 = ct_relay_ids T1" "ct_next_relay_key T2 = ct_next_relay_key T1" by blast
  have "ct_observations T2 = fmfilter (\<lambda>(k', rk'). \<not> (k' = k \<and> rk' \<in> set (rk # rks))) (ct_observations T)"
    by (rule fmap_ext) (auto simp: s(4) r(4))
  then show ?case using r s same_rows_trans[OF r(3) s(3)] by simp
qed

lemma remove_all_observations_ok:
  assumes "canon_ok env T"
  shows "\<exists>T'. remove_all_observations k T = Some T' \<and> canon_ok env T' \<and> same_rows T T' \<and>
    ct_observations T' = fmfilter (\<lambda>(k', rk). k' \<noteq> k) (ct_observations T) \<and> ct_relays T' = ct_relays T \<and>
    ct_relay_ids T' = ct_relay_ids T \<and> ct_next_relay_key T' = ct_next_relay_key T"
proof -
  have "fmfilter (\<lambda>(k', rk). \<not> (k' = k \<and> rk \<in> set (map fst (observation_range k T)))) (ct_observations T) =
      fmfilter (\<lambda>(k', rk). k' \<noteq> k) (ct_observations T)"
  proof (rule fmap_ext)
    fix x :: "event_key \<times> relay_key"
    obtain k' rk where x: "x = (k', rk)" by force
    have "rk \<in> fst ` set (observation_range k T)" if "fmlookup (ct_observations T) (k, rk) = Some at" for at
      using that by (force simp: set_observation_range[symmetric])
    then show "fmlookup (fmfilter (\<lambda>(k', rk). \<not> (k' = k \<and> rk \<in> set (map fst (observation_range k T)))) (ct_observations T)) x =
        fmlookup (fmfilter (\<lambda>(k', rk). k' \<noteq> k) (ct_observations T)) x"
      unfolding x by (cases "fmlookup (ct_observations T) (k, rk)") auto
  qed
  then show ?thesis using remove_observations_ok[OF assms, of k "map fst (observation_range k T)"]
    unfolding remove_all_observations_def by simp
qed

section \<open>Rows\<close>

lemma view_cong:
  assumes "ct_rows T' = ct_rows T" "ct_local T' = ct_local T" "ct_event_ids T' = ct_event_ids T" "seen_of T' = seen_of T"
  shows "view T' = view T"
  by (simp add: fun_eq_iff view_def assms split: option.split)

lemma remove_by_key_ok:
  assumes "canon_ok env T" "fmlookup (ct_event_ids T) eid = Some k"
  shows "\<exists>T'. remove_by_key k eid T = Some T' \<and> canon_ok env T' \<and> view T' = (view T)(eid := None) \<and>
    ct_rows T' = fmdrop k (ct_rows T) \<and> ct_event_ids T' = fmdrop eid (ct_event_ids T) \<and> ct_local T' = fmdrop k (ct_local T) \<and>
    ct_next_event_key T' = ct_next_event_key T \<and> ct_next_relay_key T' = ct_next_relay_key T \<and>
    (\<forall>k'. k' \<noteq> k \<longrightarrow> seen_of T' k' = seen_of T k')"
proof -
  note d = canon_coreD[OF assms(1)]
  from remove_all_observations_ok[OF assms(1), of k] obtain T1 where r: "remove_all_observations k T = Some T1"
    "canon_ok env T1" "same_rows T T1" "ct_observations T1 = fmfilter (\<lambda>(k', rk). k' \<noteq> k) (ct_observations T)"
    "ct_relays T1 = ct_relays T" "ct_relay_ids T1 = ct_relay_ids T" "ct_next_relay_key T1 = ct_next_relay_key T" by blast
  note d1 = canon_coreD[OF r(2)]
  let ?T = "T1\<lparr>ct_event_ids := fmdrop eid (ct_event_ids T1), ct_rows := fmdrop k (ct_rows T1), ct_local := fmdrop k (ct_local T1),
      ct_observations := fmfilter (\<lambda>(k', _). k' \<noteq> k) (ct_observations T1)\<rparr>"
  have same: "fmfilter (\<lambda>(k', _). k' \<noteq> k) (ct_observations T1) = ct_observations T1"
    by (rule fmap_ext) (auto simp: r(4))
  have row: "map_option ev_id (fmlookup (ct_rows T) k) = Some eid" using rows_okD(1)[OF d(1), of eid k] assms(2) by simp
  have "rows_ok (fmdrop k (ct_rows T1)) (fmdrop eid (ct_event_ids T1)) (fmdrop k (ct_local T1)) (ct_next_event_key T1)"
    unfolding rows_ok_def same_rowsD[OF r(3)]
  proof (intro conjI allI impI)
    show "fmlookup (fmdrop eid (ct_event_ids T)) eid' = Some k' \<longleftrightarrow> map_option ev_id (fmlookup (fmdrop k (ct_rows T)) k') = Some eid'" for eid' k'
      using rows_okD(1)[OF d(1), of eid' k'] rows_okD(1)[OF d(1), of eid k'] row assms(2)
      by (cases "k' = k"; cases "eid' = eid") auto
    show "k' < ct_next_event_key T" if "fmlookup (fmdrop k (ct_rows T)) k' \<noteq> None" for k'
      using that rows_okD(2)[OF d(1), of k'] by (simp split: if_splits)
    show "fmlookup (fmdrop k (ct_rows T)) k' \<noteq> None" if "fmlookup (fmdrop k (ct_local T)) k' \<noteq> None" for k'
      using that rows_okD(3)[OF d(1), of k'] by (simp split: if_splits)
  qed
  moreover have "refs_ok {} (fmdrop k (ct_rows T1)) (ct_observations T1) (ct_relays T1) (ct_relay_ref_counts T1)"
    unfolding refs_ok_def
  proof (intro conjI allI impI)
    show "fmlookup (fmdrop k (ct_rows T1)) k' \<noteq> None" if "fmlookup (ct_observations T1) (k', rk) \<noteq> None" for k' rk
      using that refs_okD(1)[OF d1(3) that] by (auto simp: r(4) split: if_splits)
  qed (use refs_okD[OF d1(3)] in blast)+
  ultimately have ok: "canon_ok env ?T" using d1 same by (simp add: canon_core_def)
  have seen: "seen_of ?T k' = seen_of T k'" if "k' \<noteq> k" for k'
    using that by (simp add: fun_eq_iff seen_of_def same r(4,6) split: option.split)
  have "view ?T eid' = ((view T)(eid := None)) eid'" for eid'
  proof (cases "eid' = eid")
    case False
    then have "fmlookup (ct_event_ids T) eid' \<noteq> Some k" using rows_okD(1)[OF d(1), of eid' k] row by auto
    then show ?thesis using False seen by (simp add: view_def same_rowsD[OF r(3)] split: option.split)
  qed (simp add: view_def)
  then show ?thesis using r ok seen by (simp add: remove_by_key_def same_rowsD[OF r(3)] fun_eq_iff)
qed

lemma canon_seen_fresh:
  assumes "canon_core env fresh T" "fmlookup (ct_rows T) k = None"
  shows "seen_of T k = Map.empty" "fmlookup (ct_local T) k = None"
proof -
  note d = canon_coreD[OF assms(1)]
  have "fmlookup (ct_observations T) (k, rk) = None" for rk
    using refs_okD(1)[OF d(3), of k rk] assms(2) by blast
  then show "seen_of T k = Map.empty" by (simp add: fun_eq_iff seen_of_def split: option.split)
  show "fmlookup (ct_local T) k = None" using rows_okD(3)[OF d(1), of k] assms(2) by blast
qed

lemma next_event_key_fresh: "canon_core env fresh T \<Longrightarrow> fmlookup (ct_rows T) (ct_next_event_key T) = None"
  using rows_okD(2)[OF canon_coreD(1), of env fresh T "ct_next_event_key T"] less_irrefl by blast

text \<open>The row before its observations are written.\<close>

definition add_row :: "event \<Rightarrow> local_origin option \<Rightarrow> canonical_tables \<Rightarrow> canonical_tables" where
  "add_row event l T =
     (let key = ct_next_event_key T;
          T = T\<lparr>ct_next_event_key := key + 1, ct_event_allocator_dirty := True,
                ct_rows := fmupd key event (ct_rows T), ct_event_ids := fmupd (ev_id event) key (ct_event_ids T)\<rparr>
      in case l of None \<Rightarrow> T | Some l \<Rightarrow> T\<lparr>ct_local := fmupd key l (ct_local T)\<rparr>)"

lemma add_row_fields:
  "ct_rows (add_row e l T) = fmupd (ct_next_event_key T) e (ct_rows T)"
  "ct_event_ids (add_row e l T) = fmupd (ev_id e) (ct_next_event_key T) (ct_event_ids T)"
  "ct_local (add_row e l T) = (case l of None \<Rightarrow> ct_local T | Some l \<Rightarrow> fmupd (ct_next_event_key T) l (ct_local T))"
  "ct_next_event_key (add_row e l T) = ct_next_event_key T + 1"
  "ct_event_allocator_dirty (add_row e l T)"
  "ct_observations (add_row e l T) = ct_observations T" "ct_relays (add_row e l T) = ct_relays T"
  "ct_relay_ids (add_row e l T) = ct_relay_ids T" "ct_next_relay_key (add_row e l T) = ct_next_relay_key T"
  "ct_relay_ref_counts (add_row e l T) = ct_relay_ref_counts T"
  "ct_relay_allocator_dirty (add_row e l T) = ct_relay_allocator_dirty T"
  "ct_meta_next_event_key (add_row e l T) = ct_meta_next_event_key T"
  "ct_meta_next_relay_key (add_row e l T) = ct_meta_next_relay_key T"
  by (simp_all add: add_row_def Let_def split: option.split)

lemma add_row_ok:
  assumes "canon_ok env T" "fmlookup (ct_event_ids T) (ev_id e) = None" "event_room 1 T"
  shows "canon_ok env (add_row e l T)"
proof -
  note d = canon_coreD[OF assms(1)]
  let ?k = "ct_next_event_key T"
  have succ: "unat (?k + 1) = unat ?k + 1" using assms(3) by (simp add: event_room_def unat_word_ariths)
  then have less: "?k < ?k + 1" by (simp add: word_less_nat_alt)
  have unused: "map_option ev_id (fmlookup (ct_rows T) k) \<noteq> Some (ev_id e)" for k
    using rows_okD(1)[OF d(1), of "ev_id e" k] assms(2) by simp
  have "rows_ok (fmupd ?k e (ct_rows T)) (fmupd (ev_id e) ?k (ct_event_ids T))
      (case l of None \<Rightarrow> ct_local T | Some l \<Rightarrow> fmupd ?k l (ct_local T)) (?k + 1)"
    unfolding rows_ok_def
  proof (intro conjI allI impI)
    show "fmlookup (fmupd (ev_id e) ?k (ct_event_ids T)) eid = Some k \<longleftrightarrow>
        map_option ev_id (fmlookup (fmupd ?k e (ct_rows T)) k) = Some eid" for eid k
      using rows_okD(1)[OF d(1), of eid k] unused[of k] next_event_key_fresh[OF assms(1)]
      by (cases "eid = ev_id e"; cases "k = ?k") auto
    show "k < ?k + 1" if "fmlookup (fmupd ?k e (ct_rows T)) k \<noteq> None" for k
      using that rows_okD(2)[OF d(1), of k] less by (cases "k = ?k") auto
    show "fmlookup (fmupd ?k e (ct_rows T)) k \<noteq> None"
      if "fmlookup (case l of None \<Rightarrow> ct_local T | Some l \<Rightarrow> fmupd ?k l (ct_local T)) k \<noteq> None" for k
      using that rows_okD(3)[OF d(1), of k] by (cases "k = ?k"; cases l) auto
  qed
  moreover have "refs_ok {} (fmupd ?k e (ct_rows T)) (ct_observations T) (ct_relays T) (ct_relay_ref_counts T)"
    unfolding refs_ok_def
  proof (intro conjI allI impI)
    show "fmlookup (fmupd ?k e (ct_rows T)) k \<noteq> None" if "fmlookup (ct_observations T) (k, rk) \<noteq> None" for k rk
      using refs_okD(1)[OF d(3) that] by simp
  qed (use refs_okD[OF d(3)] in blast)+
  ultimately show ?thesis using d by (simp add: canon_core_def add_row_fields allocator_ok_def)
qed

lemma insert_new_ok:
  assumes "canon_ok env T" "fmlookup (ct_event_ids T) (ev_id e) = None" "event_room 1 T"
    "\<forall>url. fmlookup (pv_seen p) url \<noteq> None \<longrightarrow> se_parse_relay env url = Some url" "relay_room (fcard (fmdom (pv_seen p))) T"
  shows "\<exists>T'. insert_new e p T = Some (ct_next_event_key T, T') \<and> canon_ok env T' \<and> same_rows (add_row e (pv_local p) T) T' \<and>
    view T' = (view T)(ev_id e \<mapsto> (e, fmlookup (pv_seen p), pv_local p)) \<and>
    unat (ct_next_event_key T') = unat (ct_next_event_key T) + 1 \<and>
    unat (ct_next_relay_key T') \<le> unat (ct_next_relay_key T) + fcard (fmdom (pv_seen p))"
proof -
  let ?k = "ct_next_event_key T" and ?T1 = "add_row e (pv_local p) T" and ?seen = "sorted_list_of_fmap (pv_seen p)"
  note d = canon_coreD[OF assms(1)]
  have succ: "checked_add ?k 1 = Some (?k + 1)" "unat (?k + 1) = unat ?k + 1"
    using assms(3) by (simp_all add: event_room_def checked_add_def unat_word_ariths)
  have len: "length ?seen = fcard (fmdom (pv_seen p))"
    by (metis length_map map_fst_sorted_list_of_fmap length_sorted_list_of_fset)
  have ok1: "canon_ok env ?T1" by (rule add_row_ok[OF assms(1-3)])
  have "\<exists>T'. merge_seen ?k ?seen ?T1 = Some T' \<and> canon_ok env T' \<and> same_rows ?T1 T' \<and>
    seen_of T' = (seen_of ?T1)(?k := merged_seen (seen_of ?T1 ?k) ?seen) \<and>
    unat (ct_next_relay_key T') \<le> unat (ct_next_relay_key ?T1) + length ?seen"
  proof (rule merge_seen_ok[OF ok1])
    show "fmlookup (ct_rows ?T1) ?k \<noteq> None" by (simp add: add_row_fields)
    show "distinct (map fst ?seen)" by simp
    show "\<forall>url \<in> fst ` set ?seen. se_parse_relay env url = Some url" using assms(4) by (auto simp: set_sorted_list_of_fmap)
    show "relay_room (length ?seen) ?T1" using assms(5) len by (simp add: relay_room_def add_row_fields)
  qed
  then obtain T' where T': "merge_seen ?k ?seen ?T1 = Some T'" "canon_ok env T'" "same_rows ?T1 T'"
    "seen_of T' = (seen_of ?T1)(?k := merged_seen (seen_of ?T1 ?k) ?seen)"
    "unat (ct_next_relay_key T') \<le> unat (ct_next_relay_key ?T1) + length ?seen" by blast
  have "seen_of ?T1 = seen_of T" by (rule seen_of_cong) (simp_all add: add_row_fields)
  then have seen: "seen_of T' = (seen_of T)(?k := fmlookup (pv_seen p))"
    using T'(4) canon_seen_fresh(1)[OF assms(1) next_event_key_fresh[OF assms(1)]]
    by (simp add: fun_eq_iff merged_seen_def newest_def map_of_sorted_list_of_fmap split: option.split)
  have l: "fmlookup (ct_local T') ?k = pv_local p"
    using canon_seen_fresh(2)[OF assms(1) next_event_key_fresh[OF assms(1)]]
    by (simp add: same_rowsD[OF T'(3)] add_row_fields split: option.split)
  have "view T' eid = ((view T)(ev_id e \<mapsto> (e, fmlookup (pv_seen p), pv_local p))) eid" for eid
  proof (cases "eid = ev_id e")
    case True
    then show ?thesis using seen l by (simp add: view_def same_rowsD[OF T'(3)] add_row_fields)
  next
    case False
    have "k \<noteq> ?k" if "fmlookup (ct_event_ids T) eid = Some k" for k
      using that rows_okD(1)[OF d(1), of eid k] next_event_key_fresh[OF assms(1)] by auto
    then show ?thesis using False seen
      by (auto simp: view_def same_rowsD[OF T'(3)] add_row_fields split: option.split)
  qed
  moreover have "insert_new e p T = Some (?k, T')"
    using T'(1) succ(1) by (cases "pv_local p") (simp_all add: insert_new_def allocate_key_def add_row_def Let_def)
  ultimately show ?thesis using T' succ(2) len by (auto simp: same_rowsD[OF T'(3)] add_row_fields)
qed

lemma replace_row_ok:
  assumes "canon_ok env T" "fmlookup (ct_rows T) k = Some held" "ev_id e = ev_id held"
  shows "canon_ok env (replace_local k l (replace_event k e T))"
    "view (replace_local k l (replace_event k e T)) = (view T)(ev_id e \<mapsto> (e, seen_of T k, l))"
proof -
  note d = canon_coreD[OF assms(1)]
  let ?T = "replace_local k l (replace_event k e T)"
  let ?l = "case l of None \<Rightarrow> fmdrop k (ct_local T) | Some x \<Rightarrow> fmupd k x (ct_local T)"
  have f: "ct_rows ?T = fmupd k e (ct_rows T)" "ct_local ?T = ?l" "ct_event_ids ?T = ct_event_ids T"
    "ct_next_event_key ?T = ct_next_event_key T" "ct_observations ?T = ct_observations T" "ct_relays ?T = ct_relays T"
    "ct_relay_ids ?T = ct_relay_ids T" "ct_next_relay_key ?T = ct_next_relay_key T" "ct_relay_ref_counts ?T = ct_relay_ref_counts T"
    "ct_event_allocator_dirty ?T = ct_event_allocator_dirty T" "ct_relay_allocator_dirty ?T = ct_relay_allocator_dirty T"
    "ct_meta_next_event_key ?T = ct_meta_next_event_key T" "ct_meta_next_relay_key ?T = ct_meta_next_relay_key T"
    by (simp_all add: replace_local_def replace_event_def split: option.split)
  have "rows_ok (fmupd k e (ct_rows T)) (ct_event_ids T) ?l (ct_next_event_key T)"
    unfolding rows_ok_def
  proof (intro conjI allI impI)
    show "fmlookup (ct_event_ids T) eid = Some k' \<longleftrightarrow> map_option ev_id (fmlookup (fmupd k e (ct_rows T)) k') = Some eid" for eid k'
      using rows_okD(1)[OF d(1), of eid k'] assms(2,3) by (cases "k' = k") auto
    show "k' < ct_next_event_key T" if "fmlookup (fmupd k e (ct_rows T)) k' \<noteq> None" for k'
      using that rows_okD(2)[OF d(1), of k'] assms(2) by (cases "k' = k") auto
    show "fmlookup (fmupd k e (ct_rows T)) k' \<noteq> None" if "fmlookup ?l k' \<noteq> None" for k'
      using that rows_okD(3)[OF d(1), of k'] by (cases "k' = k"; cases l) auto
  qed
  moreover have "refs_ok {} (fmupd k e (ct_rows T)) (ct_observations T) (ct_relays T) (ct_relay_ref_counts T)"
    unfolding refs_ok_def
  proof (intro conjI allI impI)
    show "fmlookup (fmupd k e (ct_rows T)) k' \<noteq> None" if "fmlookup (ct_observations T) (k', rk) \<noteq> None" for k' rk
      using refs_okD(1)[OF d(3) that] by simp
  qed (use refs_okD[OF d(3)] in blast)+
  ultimately show "canon_ok env ?T" using d by (simp add: canon_core_def f)
  have seen: "seen_of ?T = seen_of T" by (rule seen_of_cong) (simp_all add: f)
  have ids: "fmlookup (ct_event_ids T) (ev_id e) = Some k" using rows_okD(1)[OF d(1), of "ev_id e" k] assms(2,3) by simp
  have "view ?T eid = ((view T)(ev_id e \<mapsto> (e, seen_of T k, l))) eid" for eid
  proof (cases "eid = ev_id e")
    case True
    then show ?thesis using ids by (simp add: view_def f seen split: option.split)
  next
    case False
    have "k' \<noteq> k" if "fmlookup (ct_event_ids T) eid = Some k'" for k'
      using that rows_okD(1)[OF d(1), of eid k'] assms(2,3) False by auto
    then show ?thesis using False by (auto simp: view_def f seen split: option.split)
  qed
  then show "view ?T = (view T)(ev_id e \<mapsto> (e, seen_of T k, l))" by (simp add: fun_eq_iff)
qed

lemma view_Some_iff:
  assumes "canon_core env fresh T"
  shows "view T eid = Some r \<longleftrightarrow>
    (\<exists>k e. fmlookup (ct_rows T) k = Some e \<and> ev_id e = eid \<and> r = (e, seen_of T k, fmlookup (ct_local T) k))"
proof -
  note d = canon_coreD(1)[OF assms]
  show ?thesis
  proof (cases "fmlookup (ct_event_ids T) eid")
    case None
    then show ?thesis using rows_okD(1)[OF d, of eid] by (auto simp: view_def)
  next
    case (Some k)
    then obtain e where e: "fmlookup (ct_rows T) k = Some e" "ev_id e = eid" using rows_okD(1)[OF d, of eid k] by auto
    then have v: "view T eid = Some (e, seen_of T k, fmlookup (ct_local T) k)" using Some by (simp add: view_def)
    show ?thesis
    proof
      assume "view T eid = Some r"
      then have "r = (e, seen_of T k, fmlookup (ct_local T) k)" using v by simp
      then show "\<exists>k e. fmlookup (ct_rows T) k = Some e \<and> ev_id e = eid \<and> r = (e, seen_of T k, fmlookup (ct_local T) k)"
        using e by blast
    next
      assume "\<exists>k e. fmlookup (ct_rows T) k = Some e \<and> ev_id e = eid \<and> r = (e, seen_of T k, fmlookup (ct_local T) k)"
      then obtain k' e' where r: "fmlookup (ct_rows T) k' = Some e'" "ev_id e' = eid" "r = (e', seen_of T k', fmlookup (ct_local T) k')"
        by blast
      then have "k' = k" using Some rows_okD(1)[OF d, of eid k'] by simp
      then show "view T eid = Some r" using v r e by simp
    qed
  qed
qed

section \<open>The boundaries of a transaction\<close>

definition settled :: "canonical_tables \<Rightarrow> bool" where
  "settled T \<longleftrightarrow> ct_relay_ref_counts T = fmempty \<and> \<not> ct_event_allocator_dirty T \<and> \<not> ct_relay_allocator_dirty T"

lemma canonical_open_ok:
  assumes "canon_ok env T" "settled T"
  shows "canonical_open T = Some T"
proof -
  note d = canon_coreD[OF assms(1)]
  have e: "ct_next_event_key T = (case ct_meta_next_event_key T of None \<Rightarrow> 1 | Some v \<Rightarrow> v)"
    using d(4) assms(2) by (simp add: allocator_ok_def settled_def)
  have down: "ucast (ucast n :: u64) = n" for n :: relay_key by (simp add: ucast_up_ucast_id is_up)
  have small: "unat (ucast n :: u64) < 2 ^ 32" for n :: relay_key
  proof -
    have "unat n < 2 ^ 32" using unsigned_less[of n] by simp
    then show ?thesis by (simp add: unsigned_ucast_eq take_bit_eq_mod)
  qed
  have "ucast (ct_next_relay_key T) = (case ct_meta_next_relay_key T of None \<Rightarrow> 1 | Some v \<Rightarrow> v)"
    using d(5) assms(2) by (simp add: allocator_ok_def settled_def)
  then have "(case ct_meta_next_relay_key T of None \<Rightarrow> Some 1 | Some v \<Rightarrow> if unat v < 2 ^ 32 then Some (ucast v) else None) =
      Some (ct_next_relay_key T)"
    using down[of "ct_next_relay_key T"] small[of "ct_next_relay_key T"] by (auto split: option.splits)
  then show ?thesis using e assms(2) by (simp add: canonical_open_def settled_def)
qed

definition flushed_row :: "u64 option \<Rightarrow> (u64 \<times> string) option \<Rightarrow> (u64 \<times> string) option" where
  "flushed_row effective row =
     (case effective of None \<Rightarrow> row | Some c \<Rightarrow> if c > 0 then map_option (\<lambda>(_, url). (c, url)) row else None)"

lemma relays_ok_drop:
  assumes "relays_ok env relays ids n" "fmlookup relays rk = Some (c, url)"
  shows "relays_ok env (fmdrop rk relays) (fmdrop url ids) n"
  unfolding relays_ok_def
proof (intro conjI allI impI)
  show "fmlookup (fmdrop url ids) url' = Some rk' \<longleftrightarrow> map_option snd (fmlookup (fmdrop rk relays) rk') = Some url'" for url' rk'
    using relays_okD(1)[OF assms(1), of url' rk'] relays_okD(1)[OF assms(1), of url rk'] relays_okD(1)[OF assms(1), of url rk] assms(2)
    by (cases "rk' = rk"; cases "url' = url") auto
  show "rk' < n" if "fmlookup (fmdrop rk relays) rk' \<noteq> None" for rk'
    using that relays_okD(2)[OF assms(1), of rk'] by (simp split: if_splits)
  show "se_parse_relay env (snd row) = Some (snd row)" if "fmlookup (fmdrop rk relays) rk' = Some row" for rk' row
    using that relays_okD(3)[OF assms(1), of rk' row] by (simp split: if_splits)
qed

lemma relays_ok_recount:
  assumes "relays_ok env relays ids n" "fmlookup relays rk = Some (c, url)"
  shows "relays_ok env (fmupd rk (c', url) relays) ids n"
  unfolding relays_ok_def
proof (intro conjI allI impI)
  show "fmlookup ids url' = Some rk' \<longleftrightarrow> map_option snd (fmlookup (fmupd rk (c', url) relays) rk') = Some url'" for url' rk'
    using relays_okD(1)[OF assms(1), of url' rk'] assms(2) by (cases "rk' = rk") simp_all
  show "rk' < n" if "fmlookup (fmupd rk (c', url) relays) rk' \<noteq> None" for rk'
    using that relays_okD(2)[OF assms(1), of rk'] assms(2) by (cases "rk' = rk") simp_all
  show "se_parse_relay env (snd row) = Some (snd row)" if "fmlookup (fmupd rk (c', url) relays) rk' = Some row" for rk' row
    using that relays_okD(3)[OF assms(1), of rk'] assms(2) by (cases "rk' = rk") auto
qed

lemma flush_relay_refs_result:
  assumes "relays_ok env (ct_relays T) (ct_relay_ids T) n" "\<forall>rk \<in> fst ` set counts. fmlookup (ct_relays T) rk \<noteq> None"
    "distinct (map fst counts)"
  shows "\<exists>R I. flush_relay_refs counts T = Some (T\<lparr>ct_relays := R, ct_relay_ids := I\<rparr>) \<and> relays_ok env R I n \<and>
    (\<forall>rk. fmlookup R rk = flushed_row (map_of counts rk) (fmlookup (ct_relays T) rk))"
  using assms
proof (induction counts arbitrary: T)
  case Nil
  then show ?case by (auto simp: flushed_row_def intro!: exI[of _ "ct_relays T"] exI[of _ "ct_relay_ids T"])
next
  case (Cons p counts)
  obtain rk c where p: "p = (rk, c)" by force
  obtain old url where row: "fmlookup (ct_relays T) rk = Some (old, url)" using Cons.prems(2) p by force
  let ?R = "if c > 0 then fmupd rk (c, url) (ct_relays T) else fmdrop rk (ct_relays T)"
  let ?I = "if c > 0 then ct_relay_ids T else fmdrop url (ct_relay_ids T)"
  let ?T = "T\<lparr>ct_relays := ?R, ct_relay_ids := ?I\<rparr>"
  have "fmupd rk (old, url) (ct_relays T) = ct_relays T" using row by (intro fmap_ext) auto
  then have step: "flush_relay_refs (p # counts) T = flush_relay_refs counts ?T"
    using row p by (simp add: relay_row_def)
  have ok: "relays_ok env ?R ?I n" using relays_ok_drop[OF Cons.prems(1) row] relays_ok_recount[OF Cons.prems(1) row] by simp
  have fresh: "rk \<notin> fst ` set counts" using Cons.prems(3) p by simp
  have held: "\<forall>rk' \<in> fst ` set counts. fmlookup ?R rk' \<noteq> None"
  proof
    fix rk' assume "rk' \<in> fst ` set counts"
    then have "rk' \<noteq> rk" "rk' \<in> fst ` set (p # counts)" using fresh by auto
    then show "fmlookup ?R rk' \<noteq> None" using Cons.prems(2) by auto
  qed
  have "\<exists>R I. flush_relay_refs counts ?T = Some (?T\<lparr>ct_relays := R, ct_relay_ids := I\<rparr>) \<and> relays_ok env R I n \<and>
    (\<forall>rk. fmlookup R rk = flushed_row (map_of counts rk) (fmlookup (ct_relays ?T) rk))"
    using Cons.prems(3) ok held by (intro Cons.IH) simp_all
  then obtain R I where R: "flush_relay_refs counts ?T = Some (?T\<lparr>ct_relays := R, ct_relay_ids := I\<rparr>)" "relays_ok env R I n"
    "\<And>rk. fmlookup R rk = flushed_row (map_of counts rk) (fmlookup ?R rk)" by auto
  have "map_of counts rk = None" using fresh by (auto simp: map_of_eq_None_iff)
  then have "fmlookup R rk' = flushed_row (map_of (p # counts) rk') (fmlookup (ct_relays T) rk')" for rk'
    using row p by (simp add: R(3) flushed_row_def split: option.split)
  moreover have "flush_relay_refs (p # counts) T = Some (T\<lparr>ct_relays := R, ct_relay_ids := I\<rparr>)" using step R(1) by simp
  ultimately show ?case using R(2) by blast
qed

lemma flush_pending_ok:
  assumes "canon_ok env T"
  shows "\<exists>T'. flush_pending T = Some T' \<and> canon_ok env T' \<and> settled T' \<and> view T' = view T \<and> ct_rows T' = ct_rows T \<and>
    ct_event_ids T' = ct_event_ids T \<and> ct_next_event_key T' = ct_next_event_key T \<and> ct_next_relay_key T' = ct_next_relay_key T"
proof -
  note d = canon_coreD[OF assms]
  let ?m = "if ct_event_allocator_dirty T then Some (ct_next_event_key T) else ct_meta_next_event_key T"
  let ?mr = "if ct_relay_allocator_dirty T then Some (ucast (ct_next_relay_key T)) else ct_meta_next_relay_key T"
  let ?T = "T\<lparr>ct_meta_next_event_key := ?m, ct_event_allocator_dirty := False, ct_meta_next_relay_key := ?mr,
      ct_relay_allocator_dirty := False, ct_relay_ref_counts := fmempty\<rparr>"
  let ?c = "sorted_list_of_fmap (ct_relay_ref_counts T)"
  have run: "flush_pending T = flush_relay_refs ?c ?T" by (cases T) (simp add: flush_pending_def Let_def)
  have held: "\<forall>rk \<in> fst ` set ?c. fmlookup (ct_relays ?T) rk \<noteq> None"
    using refs_okD(3)[OF d(3)] by (auto simp: set_sorted_list_of_fmap)
  have "relays_ok env (ct_relays ?T) (ct_relay_ids ?T) (ct_next_relay_key T)" using d(2) by simp
  from flush_relay_refs_result[OF this held distinct_map_fst_sorted_list_of_fmap]
  obtain R I where R: "flush_relay_refs ?c ?T = Some (?T\<lparr>ct_relays := R, ct_relay_ids := I\<rparr>)"
    "relays_ok env R I (ct_next_relay_key T)"
    "\<And>rk. fmlookup R rk = flushed_row (fmlookup (ct_relay_ref_counts T) rk) (fmlookup (ct_relays T) rk)"
    by (auto simp: map_of_sorted_list_of_fmap)
  let ?T' = "?T\<lparr>ct_relays := R, ct_relay_ids := I\<rparr>"
  have eff: "effective_ref R fmempty rk = effective_ref (ct_relays T) (ct_relay_ref_counts T) rk" "fmlookup (ct_relays T) rk \<noteq> None"
    "fst row > 0" if "fmlookup R rk = Some row" for rk row
    using that refs_okD(5)[OF d(3), of rk row]
    by (auto simp: R(3) flushed_row_def effective_ref_def split: option.splits if_splits)
  have kept: "fmlookup R rk \<noteq> None" if "fmlookup (ct_observations T) (k, rk) \<noteq> None" for k rk
  proof -
    note rk = refs_okD(2)[OF d(3) that]
    have "k \<in> observers (ct_observations T) rk" using that by (simp add: observers_def)
    then have "card (observers (ct_observations T) rk) > 0" by (auto simp: card_gt_0_iff)
    then have "effective_ref (ct_relays T) (ct_relay_ref_counts T) rk > 0"
      using refs_okD(4)[OF d(3) rk] by (simp add: word_less_nat_alt)
    then show ?thesis using rk by (auto simp: R(3) flushed_row_def effective_ref_def split: option.splits)
  qed
  have "refs_ok {} (ct_rows T) (ct_observations T) R fmempty"
    unfolding refs_ok_def
  proof (intro conjI allI impI)
    fix k rk row
    show "fmlookup (ct_rows T) k \<noteq> None" "fmlookup R rk \<noteq> None" if "fmlookup (ct_observations T) (k, rk) \<noteq> None"
      using refs_okD(1)[OF d(3) that] kept[OF that] by blast+
    show "unat (effective_ref R fmempty rk) = card (observers (ct_observations T) rk)" if "fmlookup R rk \<noteq> None"
      using that eff(1,2)[of rk] refs_okD(4)[OF d(3), of rk] by fastforce
    show "fst row > 0" if "fmlookup R rk = Some row" by (rule eff(3)[OF that])
  qed simp
  then have ok: "canon_ok env ?T'" using d R(2) by (simp add: canon_core_def allocator_ok_def)
  have seen: "seen_of ?T' = seen_of T"
  proof (intro ext)
    fix k url
    have same: "fmlookup I url = Some rk \<longleftrightarrow> fmlookup (ct_relay_ids T) url = Some rk" if "fmlookup R rk \<noteq> None" for rk
      using that relays_okD(1)[OF R(2), of url rk] relays_okD(1)[OF d(2), of url rk]
      by (auto simp: R(3) flushed_row_def split: option.splits if_splits)
    have only: "fmlookup R rk \<noteq> None \<or> (\<forall>k. fmlookup (ct_observations T) (k, rk) = None)" for rk using kept by blast
    have named: "fmlookup R rk \<noteq> None" if "fmlookup I url = Some rk" for rk using that relays_okD(1)[OF R(2), of url rk] by auto
    have lookup: "fmlookup I url = (case fmlookup (ct_relay_ids T) url of None \<Rightarrow> None
        | Some rk \<Rightarrow> if fmlookup R rk = None then None else Some rk)"
    proof (cases "fmlookup I url")
      case None
      then show ?thesis using same by (simp split: option.split)
    next
      case (Some rk)
      then show ?thesis using same[OF named[OF Some]] named[OF Some] by simp
    qed
    show "seen_of ?T' k url = seen_of T k url"
    proof (cases "fmlookup (ct_relay_ids T) url")
      case (Some rk)
      then show ?thesis using lookup only[of rk] by (cases "fmlookup R rk") (simp_all add: seen_of_def)
    qed (simp add: seen_of_def lookup)
  qed
  have "view ?T' = view T" by (rule view_cong) (simp_all only: seen, simp_all)
  then show ?thesis using run R(1) ok by (simp add: settled_def)
qed

end
