(* ===== verification/Store_Spec.thy ===== *)
theory Store_Spec
  imports Ingest Canonical_Props
begin

text \<open>
  What the event store promises, without its tables: the held rows by event id, the permanent
  deletion facts, and one delivery as a function on them. The indexes, surrogate keys, reference
  counts and the order in which a deletion request is processed do not appear here.

  \<open>store_ok\<close> is the invariant of the tables under which this reading is exact; \<open>store_abs\<close> is the reading.
\<close>

section \<open>The abstract store\<close>

record store_spec =
  sp_rows :: "string \<Rightarrow> row_view option"
  sp_ids :: "(string \<times> public_key) set"
  sp_ceilings :: "string \<Rightarrow> u64 option"

definition addr_of :: "store_env \<Rightarrow> event \<Rightarrow> string option" where
  "addr_of env e = map_option to_redb_key (address_key_for (se_tags env) e)"

definition coord_of :: "coordinate \<Rightarrow> string option" where
  "coord_of c = map_option to_redb_key (address_key_for_coordinate c)"

definition spec_refuses :: "store_env \<Rightarrow> event \<Rightarrow> store_spec \<Rightarrow> bool" where
  "spec_refuses env e S \<longleftrightarrow>
     (ev_id e, ev_pubkey e) \<in> sp_ids S \<or>
     (\<exists>a c. addr_of env e = Some a \<and> sp_ceilings S a = Some c \<and> ev_created_at e \<le> c)"

text \<open>The rows a deletion request names: by id with the same author, or by an address of its own
  author, up to its own timestamp.\<close>

definition named_addresses :: "store_env \<Rightarrow> event \<Rightarrow> coordinate list \<Rightarrow> string set" where
  "named_addresses env d coords = {a. \<exists>c \<in> set coords. co_public_key c = ev_pubkey d \<and> coord_of c = Some a}"

definition names_id :: "event \<Rightarrow> string list \<Rightarrow> event \<Rightarrow> bool" where
  "names_id d ids e \<longleftrightarrow> ev_pubkey e = ev_pubkey d \<and> ev_id e \<in> set ids"

definition names_address :: "store_env \<Rightarrow> event \<Rightarrow> coordinate list \<Rightarrow> event \<Rightarrow> bool" where
  "names_address env d coords e \<longleftrightarrow>
     (\<exists>a. addr_of env e = Some a \<and> a \<in> named_addresses env d coords) \<and> ev_created_at e \<le> ev_created_at d"

definition drop_rows :: "(event \<Rightarrow> bool) \<Rightarrow> store_spec \<Rightarrow> store_spec" where
  "drop_rows P S =
     S\<lparr>sp_rows := (\<lambda>eid. case sp_rows S eid of None \<Rightarrow> None | Some r \<Rightarrow> if P (fst r) then None else Some r)\<rparr>"

definition rows_where :: "(event \<Rightarrow> bool) \<Rightarrow> store_spec \<Rightarrow> row_view set" where
  "rows_where P S = {r. P (fst r) \<and> (\<exists>eid. sp_rows S eid = Some r)}"

definition spec_delete_ids :: "event \<Rightarrow> string list \<Rightarrow> store_spec \<Rightarrow> store_spec" where
  "spec_delete_ids d ids S = (drop_rows (names_id d ids) S)\<lparr>sp_ids := sp_ids S \<union> (\<lambda>eid. (eid, ev_pubkey d)) ` set ids\<rparr>"

definition spec_delete_coords :: "store_env \<Rightarrow> event \<Rightarrow> coordinate list \<Rightarrow> store_spec \<Rightarrow> store_spec" where
  "spec_delete_coords env d coords S =
     (drop_rows (names_address env d coords) S)
       \<lparr>sp_ceilings := (\<lambda>a. if a \<in> named_addresses env d coords then Some (newest (sp_ceilings S a) (ev_created_at d))
                           else sp_ceilings S a)\<rparr>"

definition spec_delete :: "store_env \<Rightarrow> event \<Rightarrow> store_spec \<Rightarrow> store_spec" where
  "spec_delete env d S =
     spec_delete_coords env d (tr_coordinates (se_tags env) d) (spec_delete_ids d (tr_event_ids (se_tags env) d) S)"

definition spec_deleted :: "store_env \<Rightarrow> event \<Rightarrow> store_spec \<Rightarrow> row_view set" where
  "spec_deleted env d S =
     rows_where (\<lambda>e. names_id d (tr_event_ids (se_tags env) d) e \<or> names_address env d (tr_coordinates (se_tags env) d) e) S"

text \<open>One delivery. An event takes its address iff it beats every row held there, and then those rows
  leave.\<close>

datatype spec_outcome =
    SpInserted
  | SpDuplicate bool bool
  | SpSuperseded "row_view set"
  | SpStale
  | SpRefused refuse_reason
  | SpDeleted "row_view set"

definition rival :: "store_env \<Rightarrow> event \<Rightarrow> event \<Rightarrow> bool" where
  "rival env e held \<longleftrightarrow> addr_of env e \<noteq> None \<and> addr_of env held = addr_of env e"

definition awaits_signature :: "local_origin option \<Rightarrow> bool" where
  "awaits_signature l \<longleftrightarrow> (case l of None \<Rightarrow> False | Some origin \<Rightarrow> lo_sig_state origin = SigPending)"

definition put_spec_row :: "string \<Rightarrow> row_view \<Rightarrow> store_spec \<Rightarrow> store_spec" where
  "put_spec_row eid r S = S\<lparr>sp_rows := (sp_rows S)(eid \<mapsto> r)\<rparr>"

definition spec_merge :: "store_env \<Rightarrow> event \<Rightarrow> relay_observed \<Rightarrow> row_view \<Rightarrow> store_spec \<Rightarrow> spec_outcome \<times> store_spec" where
  "spec_merge env e from r S =
     (let (held, seen, l) = r;
          at = newest (seen (ro_relay from)) (ro_at from);
          seen' = seen(ro_relay from \<mapsto> at);
          adopt = awaits_signature l;
          S' = put_spec_row (ev_id e)
                 (if adopt then (e, seen', map_option (\<lambda>origin. origin\<lparr>lo_sig_state := SigSigned\<rparr>) l) else (held, seen', l)) S
      in (SpDuplicate (seen (ro_relay from) \<noteq> Some at) (l \<noteq> None),
          if adopt \<and> ev_kind e = KIND_EVENT_DELETION then spec_delete env e S' else S'))"

definition spec_admit :: "store_env \<Rightarrow> event \<Rightarrow> relay_observed \<Rightarrow> store_spec \<Rightarrow> spec_outcome \<times> store_spec" where
  "spec_admit env e from S =
     (let rivals = rows_where (rival env e) S
      in if \<exists>r \<in> rivals. \<not> candidate_wins e (fst r) then (SpStale, S)
         else (let S' = put_spec_row (ev_id e) (e, [ro_relay from \<mapsto> ro_at from], None) (drop_rows (rival env e) S)
               in if ev_kind e = KIND_EVENT_DELETION then (SpDeleted (spec_deleted env e S'), spec_delete env e S')
                  else (if rivals = {} then SpInserted else SpSuperseded rivals, S')))"

definition spec_insert :: "store_env \<Rightarrow> event \<Rightarrow> relay_observed \<Rightarrow> store_spec \<Rightarrow> spec_outcome \<times> store_spec" where
  "spec_insert env e from S =
     (if tr_is_expired_at (se_tags env) e (ro_at from) then (SpRefused AlreadyExpired, S)
      else case sp_rows S (ev_id e) of
        Some r \<Rightarrow> spec_merge env e from r S
      | None \<Rightarrow> if spec_refuses env e S then (SpRefused Tombstoned, S) else spec_admit env e from S)"

section \<open>Reading the tables\<close>

definition store_abs :: "'op ingest_txn \<Rightarrow> store_spec" where
  "store_abs X = \<lparr>sp_rows = view (tx_canonical X), sp_ids = fset (fmdom (tx_id_tombstones X)),
            sp_ceilings = (\<lambda>a. map_option at_ceiling (fmlookup (tx_addr_tombstones X) a))\<rparr>"

definition row_of :: "stored_event \<Rightarrow> row_view" where
  "row_of se = (st_event se, fmlookup (pv_seen (st_provenance se)), pv_local (st_provenance se))"

fun abs_outcome :: "insert_outcome \<Rightarrow> spec_outcome" where
  "abs_outcome Inserted = SpInserted"
| "abs_outcome (Duplicate grew satisfied accepted) = SpDuplicate grew accepted"
| "abs_outcome (Superseded se) = SpSuperseded {row_of se}"
| "abs_outcome Stale = SpStale"
| "abs_outcome (Refused reason) = SpRefused reason"
| "abs_outcome (Kind5Processed rows) = SpDeleted (row_of ` set rows)"

text \<open>The two secondary indexes are exact.\<close>

definition addr_ok :: "store_env \<Rightarrow> (event_key, event) fmap \<Rightarrow> (string, event_key) fmap \<Rightarrow> bool" where
  "addr_ok env rows idx \<longleftrightarrow>
     (\<forall>a k. fmlookup idx a = Some k \<longleftrightarrow> map_option (addr_of env) (fmlookup rows k) = Some (Some a))"

definition exp_ok :: "store_env \<Rightarrow> (event_key, event) fmap \<Rightarrow> (u64 \<times> string, event_key) fmap \<Rightarrow> bool" where
  "exp_ok env rows idx \<longleftrightarrow>
     (\<forall>ts eid k. fmlookup idx (ts, eid) = Some k \<longleftrightarrow>
        map_option (\<lambda>e. (tr_expiration (se_tags env) e, ev_id e)) (fmlookup rows k) = Some (Some ts, eid))"

text \<open>\<open>indexed\<close> are the keys the committed posting runs cover; the batch of the transaction is the
  difference to the rows held now.\<close>

definition postings_ok :: "event_key set \<Rightarrow> (event_key, event) fmap \<Rightarrow> event_key \<Rightarrow> postings_batch \<Rightarrow> bool" where
  "postings_ok indexed rows next_key B \<longleftrightarrow>
     (\<forall>k \<in> indexed. k < next_key) \<and>
     (\<forall>k. fmlookup (pb_additions B) k \<noteq> None \<longleftrightarrow> fmlookup rows k \<noteq> None \<and> k \<notin> indexed) \<and>
     (\<forall>k. k |\<in>| pb_deaths B \<longleftrightarrow> k \<in> indexed \<and> fmlookup rows k = None)"

definition tables_ok :: "store_env \<Rightarrow> event_key set \<Rightarrow> 'op ingest_txn \<Rightarrow> bool" where
  "tables_ok env indexed X \<longleftrightarrow>
     canon_ok env (tx_canonical X) \<and>
     addr_ok env (ct_rows (tx_canonical X)) (tx_addr_index X) \<and>
     exp_ok env (ct_rows (tx_canonical X)) (tx_expiration_index X) \<and>
     postings_ok indexed (ct_rows (tx_canonical X)) (ct_next_event_key (tx_canonical X)) (tx_postings X)"

text \<open>No held row falls under a deletion fact.\<close>

definition live_ok :: "store_env \<Rightarrow> store_spec \<Rightarrow> bool" where
  "live_ok env S \<longleftrightarrow> (\<forall>eid r. sp_rows S eid = Some r \<longrightarrow> \<not> spec_refuses env (fst r) S)"

definition store_ok :: "store_env \<Rightarrow> event_key set \<Rightarrow> 'op ingest_txn \<Rightarrow> bool" where
  "store_ok env indexed X \<longleftrightarrow> tables_ok env indexed X \<and> live_ok env (store_abs X)"

text \<open>An unsigned journal entry has a receipt that can still move.\<close>

definition journal_ok :: "'op ingest_txn \<Rightarrow> bool" where
  "journal_ok X \<longleftrightarrow>
     (\<forall>owner rec frozen routing sig_state.
        fmlookup (tx_intents X) owner = Some rec \<longrightarrow> ir_work rec = EventWork frozen routing sig_state \<longrightarrow> sig_state \<noteq> IntentSigned \<longrightarrow>
        (\<exists>event_id state. fmlookup (tx_receipts X) (ir_receipt_id rec) = Some (EventReceipt event_id state) \<and> state \<noteq> RsSuperseded))"

text \<open>An event id commits to everything the store reads of an event except its signature.\<close>

definition same_body :: "store_env \<Rightarrow> event \<Rightarrow> event \<Rightarrow> bool" where
  "same_body env e e' \<longleftrightarrow>
     ev_id e = ev_id e' \<and> ev_pubkey e = ev_pubkey e' \<and> ev_created_at e = ev_created_at e' \<and> ev_kind e = ev_kind e' \<and>
     addr_of env e = addr_of env e' \<and> tr_expiration (se_tags env) e = tr_expiration (se_tags env) e'"

end
