(* ===== verification/Store_Props.thy ===== *)
theory Store_Props
  imports Store_Spec
begin

text \<open>
  The operations of a governed write keep the invariant of the tables and act on the abstract store as
  \<open>Store_Spec\<close> says: row removal, row admission, deletion requests, signature fan-out and delivery.
  They fail only when a surrogate key space is used up.
\<close>

section \<open>The secondary indexes\<close>

lemma addr_okD: "addr_ok env rows idx \<Longrightarrow> fmlookup idx a = Some k \<longleftrightarrow> map_option (addr_of env) (fmlookup rows k) = Some (Some a)"
  unfolding addr_ok_def by blast

lemma exp_okD:
  "exp_ok env rows idx \<Longrightarrow> fmlookup idx (ts, eid) = Some k \<longleftrightarrow>
     map_option (\<lambda>e. (tr_expiration (se_tags env) e, ev_id e)) (fmlookup rows k) = Some (Some ts, eid)"
  unfolding exp_ok_def by blast

lemma postings_okD:
  assumes "postings_ok indexed rows n B"
  shows "k \<in> indexed \<Longrightarrow> k < n"
    "fmlookup (pb_additions B) k \<noteq> None \<longleftrightarrow> fmlookup rows k \<noteq> None \<and> k \<notin> indexed"
    "k |\<in>| pb_deaths B \<longleftrightarrow> k \<in> indexed \<and> fmlookup rows k = None"
  using assms unfolding postings_ok_def by blast+

lemma addr_ok_drop:
  assumes "addr_ok env rows idx" "fmlookup rows k = Some e"
  shows "addr_ok env (fmdrop k rows) (case addr_of env e of None \<Rightarrow> idx | Some a \<Rightarrow> fmdrop a idx)"
  unfolding addr_ok_def
proof (intro allI)
  fix a k'
  show "fmlookup (case addr_of env e of None \<Rightarrow> idx | Some a \<Rightarrow> fmdrop a idx) a = Some k' \<longleftrightarrow>
      map_option (addr_of env) (fmlookup (fmdrop k rows) k') = Some (Some a)"
    using addr_okD[OF assms(1), of a k'] addr_okD[OF assms(1), of a k] assms(2)
    by (cases "k' = k"; cases "addr_of env e = Some a") (auto split: option.split)
qed

lemma addr_ok_put:
  assumes "addr_ok env rows idx" "fmlookup rows k = None" "\<And>a. addr_of env e = Some a \<Longrightarrow> fmlookup idx a = None"
  shows "addr_ok env (fmupd k e rows) (case addr_of env e of None \<Rightarrow> idx | Some a \<Rightarrow> fmupd a k idx)"
  unfolding addr_ok_def
proof (intro allI)
  fix a k'
  show "fmlookup (case addr_of env e of None \<Rightarrow> idx | Some a \<Rightarrow> fmupd a k idx) a = Some k' \<longleftrightarrow>
      map_option (addr_of env) (fmlookup (fmupd k e rows) k') = Some (Some a)"
    using addr_okD[OF assms(1), of a k'] addr_okD[OF assms(1), of a k] assms(2,3)
    by (cases "k' = k"; cases "addr_of env e = Some a") (auto split: option.split)
qed

lemma exp_ok_drop:
  assumes "exp_ok env rows idx" "fmlookup rows k = Some e"
  shows "exp_ok env (fmdrop k rows)
    (case tr_expiration (se_tags env) e of None \<Rightarrow> idx | Some ts \<Rightarrow> fmdrop (ts, ev_id e) idx)"
  unfolding exp_ok_def
proof (intro allI)
  fix ts eid k'
  show "fmlookup (case tr_expiration (se_tags env) e of None \<Rightarrow> idx | Some ts \<Rightarrow> fmdrop (ts, ev_id e) idx) (ts, eid) = Some k' \<longleftrightarrow>
      map_option (\<lambda>e. (tr_expiration (se_tags env) e, ev_id e)) (fmlookup (fmdrop k rows) k') = Some (Some ts, eid)"
    using exp_okD[OF assms(1), of ts eid k'] exp_okD[OF assms(1), of ts eid k] assms(2)
    by (cases "k' = k"; cases "tr_expiration (se_tags env) e = Some ts \<and> ev_id e = eid") (auto split: option.split)
qed

lemma exp_ok_put:
  assumes "exp_ok env rows idx" "fmlookup rows k = None"
    "\<And>k' e'. fmlookup rows k' = Some e' \<Longrightarrow> ev_id e' \<noteq> ev_id e"
  shows "exp_ok env (fmupd k e rows)
    (case tr_expiration (se_tags env) e of None \<Rightarrow> idx | Some ts \<Rightarrow> fmupd (ts, ev_id e) k idx)"
  unfolding exp_ok_def
proof (intro allI)
  fix ts eid k'
  have "fmlookup idx (ts, ev_id e) \<noteq> Some k'" using exp_okD[OF assms(1), of ts "ev_id e" k'] assms(3)[of k'] by auto
  then show "fmlookup (case tr_expiration (se_tags env) e of None \<Rightarrow> idx | Some ts \<Rightarrow> fmupd (ts, ev_id e) k idx) (ts, eid) = Some k' \<longleftrightarrow>
      map_option (\<lambda>e. (tr_expiration (se_tags env) e, ev_id e)) (fmlookup (fmupd k e rows) k') = Some (Some ts, eid)"
    using exp_okD[OF assms(1), of ts eid k'] exp_okD[OF assms(1), of ts eid k] assms(2)
    by (cases "k' = k"; cases "tr_expiration (se_tags env) e = Some ts \<and> ev_id e = eid") (auto split: option.split)
qed

lemma postings_ok_remove:
  assumes "postings_ok indexed rows n B" "fmlookup rows k \<noteq> None"
  shows "postings_ok indexed (fmdrop k rows) n (batch_remove k B)"
proof -
  note p = postings_okD[OF assms(1)]
  have "fmlookup (pb_additions (batch_remove k B)) k' \<noteq> None \<longleftrightarrow> fmlookup (fmdrop k rows) k' \<noteq> None \<and> k' \<notin> indexed" for k'
    using p(2)[of k'] by (cases "k' = k") (auto simp: batch_remove_def)
  moreover have "k' |\<in>| pb_deaths (batch_remove k B) \<longleftrightarrow> k' \<in> indexed \<and> fmlookup (fmdrop k rows) k' = None" for k'
    using p(2)[of k] p(3)[of k'] assms(2) by (cases "k' = k") (auto simp: batch_remove_def)
  ultimately show ?thesis using p(1) unfolding postings_ok_def by blast
qed

lemma postings_ok_insert:
  assumes "postings_ok indexed rows n B" "fmlookup rows n = None" "n < n + 1"
  shows "postings_ok indexed (fmupd n e rows) (n + 1) (batch_insert e n B)"
proof -
  note p = postings_okD[OF assms(1)]
  have n: "n \<notin> indexed" using p(1)[of n] by auto
  have "k < n + 1" if "k \<in> indexed" for k using p(1)[OF that] assms(3) by simp
  moreover have "fmlookup (pb_additions (batch_insert e n B)) k \<noteq> None \<longleftrightarrow> fmlookup (fmupd n e rows) k \<noteq> None \<and> k \<notin> indexed" for k
    using p(2)[of k] n by (cases "k = n") (auto simp: batch_insert_def)
  moreover have "k |\<in>| pb_deaths (batch_insert e n B) \<longleftrightarrow> k \<in> indexed \<and> fmlookup (fmupd n e rows) k = None" for k
    using p(3)[of k] n by (cases "k = n") (auto simp: batch_insert_def)
  ultimately show ?thesis unfolding postings_ok_def by blast
qed

lemma indexes_replace:
  assumes "fmlookup rows k = Some held" "same_body env e held"
  shows "addr_ok env (fmupd k e rows) idx \<longleftrightarrow> addr_ok env rows idx"
    "exp_ok env (fmupd k e rows) xidx \<longleftrightarrow> exp_ok env rows xidx"
    "postings_ok indexed (fmupd k e rows) n B \<longleftrightarrow> postings_ok indexed rows n B"
proof -
  have "map_option (addr_of env) (fmlookup (fmupd k e rows) k') = map_option (addr_of env) (fmlookup rows k')" for k'
    using assms by (cases "k' = k") (simp_all add: same_body_def)
  then show "addr_ok env (fmupd k e rows) idx \<longleftrightarrow> addr_ok env rows idx" by (simp add: addr_ok_def)
  have "map_option (\<lambda>e. (tr_expiration (se_tags env) e, ev_id e)) (fmlookup (fmupd k e rows) k') =
      map_option (\<lambda>e. (tr_expiration (se_tags env) e, ev_id e)) (fmlookup rows k')" for k'
    using assms by (cases "k' = k") (simp_all add: same_body_def)
  then show "exp_ok env (fmupd k e rows) xidx \<longleftrightarrow> exp_ok env rows xidx" by (simp add: exp_ok_def)
  have "fmlookup (fmupd k e rows) k' = None \<longleftrightarrow> fmlookup rows k' = None" for k' using assms(1) by (cases "k' = k") simp_all
  then show "postings_ok indexed (fmupd k e rows) n B \<longleftrightarrow> postings_ok indexed rows n B" by (simp add: postings_ok_def)
qed

section \<open>Row removal\<close>

text \<open>What row operations leave alone: the deletion facts and the publish queue.\<close>

definition same_queue :: "'op ingest_txn \<Rightarrow> 'op ingest_txn \<Rightarrow> bool" where
  "same_queue X X' \<longleftrightarrow>
     tx_intents X' = tx_intents X \<and> tx_receipts X' = tx_receipts X \<and> tx_displaced X' = tx_displaced X \<and>
     tx_kind5_claims X' = tx_kind5_claims X \<and> tx_id_suppress X' = tx_id_suppress X \<and> tx_addr_suppress X' = tx_addr_suppress X"

definition same_keys :: "'op ingest_txn \<Rightarrow> 'op ingest_txn \<Rightarrow> bool" where
  "same_keys X X' \<longleftrightarrow>
     ct_next_event_key (tx_canonical X') = ct_next_event_key (tx_canonical X) \<and>
     ct_next_relay_key (tx_canonical X') = ct_next_relay_key (tx_canonical X)"

lemma same_queue_refl [simp]: "same_queue X X" and same_keys_refl [simp]: "same_keys X X"
  by (simp_all add: same_queue_def same_keys_def)

lemma same_queue_trans: "same_queue X Y \<Longrightarrow> same_queue Y Z \<Longrightarrow> same_queue X Z"
  and same_keys_trans: "same_keys X Y \<Longrightarrow> same_keys Y Z \<Longrightarrow> same_keys X Z"
  by (simp_all add: same_queue_def same_keys_def)

lemma tables_okD:
  assumes "tables_ok env indexed X"
  shows "canon_ok env (tx_canonical X)" "addr_ok env (ct_rows (tx_canonical X)) (tx_addr_index X)"
    "exp_ok env (ct_rows (tx_canonical X)) (tx_expiration_index X)"
    "postings_ok indexed (ct_rows (tx_canonical X)) (ct_next_event_key (tx_canonical X)) (tx_postings X)"
  using assms unfolding tables_ok_def by blast+

lemma store_abs_sel [simp]:
  "sp_rows (store_abs X) = view (tx_canonical X)" "sp_ids (store_abs X) = fset (fmdom (tx_id_tombstones X))"
  "sp_ceilings (store_abs X) = (\<lambda>a. map_option at_ceiling (fmlookup (tx_addr_tombstones X) a))"
  by (simp_all add: store_abs_def)

lemma tombstone_refuses_abs: "tombstone_refuses env e X = spec_refuses env e (store_abs X)"
  by (auto simp: tombstone_refuses_def spec_refuses_def store_abs_def addr_of_def split: option.splits)

lemma spec_refuses_cong:
  "sp_ids S' = sp_ids S \<Longrightarrow> sp_ceilings S' = sp_ceilings S \<Longrightarrow> spec_refuses env e S' = spec_refuses env e S"
  by (simp add: spec_refuses_def)

lemma load_by_id_result:
  assumes "canon_ok env T"
  shows "\<exists>loaded. load_by_id env eid T = Some loaded \<and>
    (case loaded of None \<Rightarrow> view T eid = None
     | Some (k, se) \<Rightarrow> view T eid = Some (row_of se) \<and> fmlookup (ct_event_ids T) eid = Some k \<and>
         fmlookup (ct_rows T) k = Some (st_event se) \<and> ev_id (st_event se) = eid)"
proof (cases "fmlookup (ct_event_ids T) eid")
  case None
  then show ?thesis by (simp add: load_by_id_def key_for_id_def view_def)
next
  case (Some k)
  then obtain e where e: "fmlookup (ct_rows T) k = Some e" "ev_id e = eid"
    using rows_okD(1)[OF canon_coreD(1)[OF assms], of eid k] by auto
  obtain seen where "load_seen env k T = Some seen" "fmlookup seen = seen_of T k" using load_seen_result[OF assms, of k] by blast
  then show ?thesis using Some e
    by (simp add: load_by_id_def key_for_id_def load_by_key_def load_local_def view_def row_of_def)
qed

lemma remove_row_step:
  assumes "tables_ok env indexed X" "fmlookup (ct_event_ids (tx_canonical X)) eid = Some k"
    "fmlookup (ct_rows (tx_canonical X)) k = Some e" "ev_id e = eid" "remove_by_key k eid (tx_canonical X) = Some T"
  defines "A \<equiv> case addr_of env e of None \<Rightarrow> tx_addr_index X | Some a \<Rightarrow> fmdrop a (tx_addr_index X)"
    and "E \<equiv> case tr_expiration (se_tags env) e of None \<Rightarrow> tx_expiration_index X | Some ts \<Rightarrow> fmdrop (ts, eid) (tx_expiration_index X)"
  defines "X' \<equiv> X\<lparr>tx_canonical := T, tx_postings := batch_remove k (tx_postings X), tx_addr_index := A, tx_expiration_index := E\<rparr>"
  shows "tables_ok env indexed X'" "store_abs X' = (store_abs X)\<lparr>sp_rows := (sp_rows (store_abs X))(eid := None)\<rparr>" "same_keys X X'"
    "ct_rows (tx_canonical X') = fmdrop k (ct_rows (tx_canonical X))"
proof -
  note d = tables_okD[OF assms(1)]
  from remove_by_key_ok[OF d(1) assms(2)] assms(5) have r: "canon_ok env T" "view T = (view (tx_canonical X))(eid := None)"
    "ct_rows T = fmdrop k (ct_rows (tx_canonical X))" "ct_next_event_key T = ct_next_event_key (tx_canonical X)"
    "ct_next_relay_key T = ct_next_relay_key (tx_canonical X)" by auto
  show same: "store_abs X' = (store_abs X)\<lparr>sp_rows := (sp_rows (store_abs X))(eid := None)\<rparr>"
    by (simp add: X'_def store_abs_def r(2))
  show "same_keys X X'" "ct_rows (tx_canonical X') = fmdrop k (ct_rows (tx_canonical X))" by (simp_all add: same_keys_def X'_def r)
  have "postings_ok indexed (ct_rows T) (ct_next_event_key T) (batch_remove k (tx_postings X))"
    unfolding r(3,4) by (rule postings_ok_remove[OF d(4)]) (simp add: assms(3))
  moreover have "addr_ok env (ct_rows T) A" unfolding r(3) A_def by (rule addr_ok_drop[OF d(2) assms(3)])
  moreover have "exp_ok env (ct_rows T) E" unfolding r(3) E_def assms(4)[symmetric] by (rule exp_ok_drop[OF d(3) assms(3)])
  ultimately show "tables_ok env indexed X'" using r(1,3) by (simp add: tables_ok_def X'_def)
qed

definition taken :: "(event \<Rightarrow> bool) \<Rightarrow> row_view option \<Rightarrow> row_view option" where
  "taken P r = (case r of None \<Rightarrow> None | Some r \<Rightarrow> if P (fst r) then Some r else None)"

lemma remove_row_in_txn_ok:
  assumes "tables_ok env indexed X"
  shows "\<exists>r X'. remove_row_in_txn env eid (\<lambda>se. P (st_event se)) X = Some (r, X') \<and> tables_ok env indexed X' \<and>
    map_option row_of r = taken P (sp_rows (store_abs X) eid) \<and>
    store_abs X' = drop_rows (\<lambda>e. ev_id e = eid \<and> P e) (store_abs X) \<and>
    same_queue X X' \<and> same_keys X X' \<and> tx_id_tombstones X' = tx_id_tombstones X \<and> tx_addr_tombstones X' = tx_addr_tombstones X \<and>
    (\<forall>k e. fmlookup (ct_rows (tx_canonical X')) k = Some e \<longleftrightarrow> fmlookup (ct_rows (tx_canonical X)) k = Some e \<and> \<not> (ev_id e = eid \<and> P e))"
proof -
  note d = tables_okD[OF assms]
  have ids: "ev_id (fst r) = eid'" if "view (tx_canonical X) eid' = Some r" for eid' r
    using that by (auto simp: view_Some_iff[OF d(1)])
  obtain loaded where l: "load_by_id env eid (tx_canonical X) = Some loaded"
    "case loaded of None \<Rightarrow> view (tx_canonical X) eid = None
     | Some (k, se) \<Rightarrow> view (tx_canonical X) eid = Some (row_of se) \<and> fmlookup (ct_event_ids (tx_canonical X)) eid = Some k \<and>
         fmlookup (ct_rows (tx_canonical X)) k = Some (st_event se) \<and> ev_id (st_event se) = eid"
    using load_by_id_result[OF d(1)] by blast
  have drop: "drop_rows (\<lambda>e. ev_id e = eid \<and> P e) (store_abs X) =
      (store_abs X)\<lparr>sp_rows := (sp_rows (store_abs X))(eid := (case taken P (view (tx_canonical X) eid) of
        None \<Rightarrow> view (tx_canonical X) eid | Some _ \<Rightarrow> None))\<rparr>"
    using ids by (auto simp: drop_rows_def store_abs_def fun_eq_iff taken_def split: option.split)
  show ?thesis
  proof (cases "taken P (view (tx_canonical X) eid)")
    case None
    then have "remove_row_in_txn env eid (\<lambda>se. P (st_event se)) X = Some (None, X)"
      using l by (auto simp: remove_row_in_txn_def taken_def row_of_def split: option.splits if_splits)
    moreover have "drop_rows (\<lambda>e. ev_id e = eid \<and> P e) (store_abs X) = store_abs X"
      unfolding drop None by (simp add: store_abs_def)
    moreover have "\<not> (ev_id e = eid \<and> P e)" if "fmlookup (ct_rows (tx_canonical X)) k = Some e" for k e
    proof -
      have "view (tx_canonical X) (ev_id e) = Some (e, seen_of (tx_canonical X) k, fmlookup (ct_local (tx_canonical X)) k)"
        using that view_Some_iff[OF d(1)] by blast
      then show ?thesis using None by (auto simp: taken_def split: if_splits)
    qed
    ultimately show ?thesis using None assms by simp blast
  next
    case (Some r)
    then have "loaded \<noteq> None" using l(2) by (cases loaded) (simp_all add: taken_def)
    then obtain k se where loaded: "loaded = Some (k, se)" by auto
    then have se: "loaded = Some (k, se)" "view (tx_canonical X) eid = Some (row_of se)" "r = row_of se" "P (st_event se)"
        "fmlookup (ct_event_ids (tx_canonical X)) eid = Some k" "fmlookup (ct_rows (tx_canonical X)) k = Some (st_event se)"
        "ev_id (st_event se) = eid"
      using l(2) Some by (simp_all add: taken_def row_of_def split: if_splits)
    from remove_by_key_ok[OF d(1) se(5)] obtain T where T: "remove_by_key k eid (tx_canonical X) = Some T" by blast
    let ?A = "case addr_of env (st_event se) of None \<Rightarrow> tx_addr_index X | Some a \<Rightarrow> fmdrop a (tx_addr_index X)"
    let ?E = "case tr_expiration (se_tags env) (st_event se) of None \<Rightarrow> tx_expiration_index X | Some ts \<Rightarrow> fmdrop (ts, eid) (tx_expiration_index X)"
    let ?X = "X\<lparr>tx_canonical := T, tx_postings := batch_remove k (tx_postings X), tx_addr_index := ?A, tx_expiration_index := ?E\<rparr>"
    note step = remove_row_step[OF assms se(5,6,7) T]
    have "fmlookup (tx_addr_index X) a = Some k" if "addr_of env (st_event se) = Some a" for a
      using that addr_okD[OF d(2), of a k] se(6) by simp
    then have "remove_row_in_txn env eid (\<lambda>se. P (st_event se)) X = Some (Some se, ?X)"
      using l(1) se T
      by (cases "address_key_for (se_tags env) (st_event se)"; cases "tr_expiration (se_tags env) (st_event se)")
        (simp_all add: remove_row_in_txn_def addr_of_def)
    moreover have "store_abs ?X = drop_rows (\<lambda>e. ev_id e = eid \<and> P e) (store_abs X)" unfolding step(2) drop Some by simp
    moreover have "same_queue X ?X" by (simp add: same_queue_def)
    moreover have "fmlookup (ct_rows (tx_canonical ?X)) k' = Some e \<longleftrightarrow>
        fmlookup (ct_rows (tx_canonical X)) k' = Some e \<and> \<not> (ev_id e = eid \<and> P e)" for k' e
      using rows_okD(1)[OF canon_coreD(1)[OF d(1)], of eid k'] se unfolding step(4) by (cases "k' = k") auto
    moreover have "map_option row_of (Some se) = taken P (sp_rows (store_abs X) eid)" "tx_id_tombstones ?X = tx_id_tombstones X"
      "tx_addr_tombstones ?X = tx_addr_tombstones X" using Some se(3) by simp_all
    ultimately show ?thesis using step(1,3) by blast
  qed
qed

section \<open>Deletion requests\<close>

definition keyed :: "store_spec \<Rightarrow> bool" where
  "keyed S \<longleftrightarrow> (\<forall>eid r. sp_rows S eid = Some r \<longrightarrow> ev_id (fst r) = eid)"

lemma keyed_abs: "tables_ok env indexed X \<Longrightarrow> keyed (store_abs X)"
  using view_Some_iff[OF tables_okD(1)] by (fastforce simp: keyed_def)

lemma keyedD: "keyed S \<Longrightarrow> sp_rows S eid = Some r \<Longrightarrow> ev_id (fst r) = eid"
  unfolding keyed_def by blast

lemma row_in_view:
  assumes "tables_ok env indexed X" "fmlookup (ct_rows (tx_canonical X)) k = Some e"
  shows "\<exists>r. sp_rows (store_abs X) (ev_id e) = Some r \<and> fst r = e"
  using assms(2) by (auto simp: view_Some_iff[OF tables_okD(1)[OF assms(1)]])

lemma drop_rows_sel [simp]:
  "sp_rows (drop_rows P S) eid = (case sp_rows S eid of None \<Rightarrow> None | Some r \<Rightarrow> if P (fst r) then None else Some r)"
  "sp_ids (drop_rows P S) = sp_ids S" "sp_ceilings (drop_rows P S) = sp_ceilings S"
  by (simp_all add: drop_rows_def)

lemma drop_rows_drop_rows: "drop_rows P (drop_rows Q S) = drop_rows (\<lambda>e. Q e \<or> P e) S"
  by (auto simp: drop_rows_def fun_eq_iff split: option.split)

lemma drop_rows_cong:
  "(\<And>eid r. sp_rows S eid = Some r \<Longrightarrow> P (fst r) = Q (fst r)) \<Longrightarrow> drop_rows P S = drop_rows Q S"
  by (auto simp: drop_rows_def fun_eq_iff split: option.split)

lemma keyed_drop_rows: "keyed S \<Longrightarrow> keyed (drop_rows P S)"
  by (auto simp: keyed_def split: option.splits if_splits)

lemma mem_rows_where: "keyed S \<Longrightarrow> r \<in> rows_where P S \<longleftrightarrow> P (fst r) \<and> sp_rows S (ev_id (fst r)) = Some r"
  using keyedD[of S] unfolding rows_where_def by blast

lemma taken_Some: "taken P x = Some r \<longleftrightarrow> x = Some r \<and> P (fst r)"
  by (auto simp: taken_def split: option.splits)

lemma spec_delete_ids_Cons:
  assumes "keyed S"
  shows "spec_delete_ids d (t # ts) S =
    spec_delete_ids d ts ((drop_rows (\<lambda>e. ev_id e = t \<and> ev_pubkey e = ev_pubkey d) S)\<lparr>sp_ids := insert (t, ev_pubkey d) (sp_ids S)\<rparr>)"
  by (rule store_spec.equality) (auto simp: spec_delete_ids_def names_id_def fun_eq_iff split: option.split)

lemma rows_where_names_id_Cons:
  assumes "keyed S"
  shows "rows_where (names_id d (t # ts)) S =
    set_option (taken (\<lambda>e. ev_pubkey e = ev_pubkey d) (sp_rows S t)) \<union>
    rows_where (names_id d ts) (drop_rows (\<lambda>e. ev_id e = t \<and> ev_pubkey e = ev_pubkey d) S)" (is "?l = ?r")
proof (rule set_eqI)
  fix r
  have "sp_rows S t = Some r \<longleftrightarrow> t = ev_id (fst r) \<and> sp_rows S (ev_id (fst r)) = Some r" using keyedD[OF assms] by blast
  then show "r \<in> ?l \<longleftrightarrow> r \<in> ?r"
    by (cases "sp_rows S (ev_id (fst r)) = Some r")
      (auto simp: mem_rows_where[OF assms] mem_rows_where[OF keyed_drop_rows[OF assms]] taken_Some names_id_def split: option.splits)
qed

lemma delete_targets_ok:
  assumes "tables_ok env indexed X"
  shows "\<exists>rs X'. delete_targets env d ids X = Some (rs, X') \<and> tables_ok env indexed X' \<and>
    store_abs X' = spec_delete_ids d ids (store_abs X) \<and> row_of ` set rs = rows_where (names_id d ids) (store_abs X) \<and>
    same_queue X X' \<and> same_keys X X'"
  using assms
proof (induction ids arbitrary: X)
  case Nil
  then show ?case by (simp add: spec_delete_ids_def names_id_def drop_rows_def rows_where_def fun_eq_iff split: option.split)
next
  case (Cons t ts)
  let ?P = "\<lambda>e. ev_id e = t \<and> ev_pubkey e = ev_pubkey d"
  from remove_row_in_txn_ok[OF Cons.prems, of t "\<lambda>e. ev_pubkey e = ev_pubkey d"] obtain r X1 where
    r: "remove_row_in_txn env t (\<lambda>se. ev_pubkey (st_event se) = ev_pubkey d) X = Some (r, X1)" "tables_ok env indexed X1"
      "map_option row_of r = taken (\<lambda>e. ev_pubkey e = ev_pubkey d) (sp_rows (store_abs X) t)"
      "store_abs X1 = drop_rows ?P (store_abs X)" "same_queue X X1" "same_keys X X1" "tx_id_tombstones X1 = tx_id_tombstones X" by blast
  let ?X = "X1\<lparr>tx_id_tombstones := fmupd (t, ev_pubkey d) (ev_id d) (tx_id_tombstones X1)\<rparr>"
  have abs: "store_abs ?X = (drop_rows ?P (store_abs X))\<lparr>sp_ids := insert (t, ev_pubkey d) (sp_ids (store_abs X))\<rparr>"
    unfolding r(4)[symmetric] by (rule store_spec.equality) (simp_all add: r(7))
  have "tables_ok env indexed ?X" using r(2) by (simp add: tables_ok_def)
  from Cons.IH[OF this] obtain rs X2 where s: "delete_targets env d ts ?X = Some (rs, X2)" "tables_ok env indexed X2"
    "store_abs X2 = spec_delete_ids d ts (store_abs ?X)" "row_of ` set rs = rows_where (names_id d ts) (store_abs ?X)"
    "same_queue ?X X2" "same_keys ?X X2" by blast
  have "store_abs X2 = spec_delete_ids d (t # ts) (store_abs X)"
    unfolding s(3) abs by (rule spec_delete_ids_Cons[OF keyed_abs[OF Cons.prems], symmetric])
  moreover have "row_of ` set ((case r of None \<Rightarrow> [] | Some se \<Rightarrow> [se]) @ rs) = rows_where (names_id d (t # ts)) (store_abs X)"
  proof -
    have "row_of ` set (case r of None \<Rightarrow> [] | Some se \<Rightarrow> [se]) = set_option (map_option row_of r)" by (cases r) simp_all
    moreover have "rows_where (names_id d ts) (store_abs ?X) = rows_where (names_id d ts) (drop_rows ?P (store_abs X))"
      unfolding abs by (simp add: rows_where_def)
    ultimately show ?thesis unfolding rows_where_names_id_Cons[OF keyed_abs[OF Cons.prems]] by (simp add: image_Un s(4) r(3))
  qed
  moreover have "same_queue X X2" "same_keys X X2" using r(5,6) s(5,6) by (simp_all add: same_queue_def same_keys_def)
  ultimately show ?case using r(1) s(1,2) by simp
qed

definition named_address :: "event \<Rightarrow> coordinate \<Rightarrow> string option" where
  "named_address d c = (if co_public_key c = ev_pubkey d then coord_of c else None)"

lemma named_addresses_Cons:
  "named_addresses env d (c # cs) = set_option (named_address d c) \<union> named_addresses env d cs"
  by (auto simp: named_addresses_def named_address_def)

lemma raise_ceiling_fields:
  "tx_canonical (raise_ceiling d a X) = tx_canonical X" "tx_addr_index (raise_ceiling d a X) = tx_addr_index X"
  "tables_ok env indexed (raise_ceiling d a X) = tables_ok env indexed X"
  "same_queue X (raise_ceiling d a X)" "same_keys X (raise_ceiling d a X)"
  "store_abs (raise_ceiling d a X) =
     (store_abs X)\<lparr>sp_ceilings := (sp_ceilings (store_abs X))(a \<mapsto> newest (sp_ceilings (store_abs X) a) (ev_created_at d))\<rparr>"
  by (auto simp: raise_ceiling_def tables_ok_def same_queue_def same_keys_def store_abs_def newest_def max_def fun_eq_iff
      split: option.split)

text \<open>One coordinate: the row that holds the address leaves, if it is old enough.\<close>

definition delete_holder ::
  "store_env \<Rightarrow> (event \<Rightarrow> bool) \<Rightarrow> string \<Rightarrow> 'op ingest_txn \<Rightarrow> (stored_event option \<times> 'op ingest_txn) option" where
  "delete_holder env P a X =
     (case fmlookup (tx_addr_index X) a of
        None \<Rightarrow> Some (None, X)
      | Some current_key \<Rightarrow>
          do {
            loaded \<leftarrow> load_by_key env current_key (tx_canonical X);
            current \<leftarrow> loaded;
            remove_row_in_txn env (ev_id (st_event current)) (\<lambda>se. P (st_event se)) X
          })"

lemma delete_holder_ok:
  assumes "tables_ok env indexed X"
  shows "\<exists>r X'. delete_holder env P a X = Some (r, X') \<and> tables_ok env indexed X' \<and>
    set_option (map_option row_of r) = rows_where (\<lambda>e. addr_of env e = Some a \<and> P e) (store_abs X) \<and>
    store_abs X' = drop_rows (\<lambda>e. addr_of env e = Some a \<and> P e) (store_abs X) \<and> same_queue X X' \<and> same_keys X X'"
proof -
  note d = tables_okD[OF assms]
  note keyed = keyed_abs[OF assms]
  have at: "\<exists>k. fmlookup (tx_addr_index X) a = Some k \<and> fmlookup (ct_rows (tx_canonical X)) k = Some (fst r)"
    if "sp_rows (store_abs X) eid = Some r" "addr_of env (fst r) = Some a" for eid r
    using that addr_okD[OF d(2), of a] by (fastforce simp: view_Some_iff[OF d(1)])
  show ?thesis
  proof (cases "fmlookup (tx_addr_index X) a")
    case None
    then have "addr_of env (fst r) \<noteq> Some a" if "sp_rows (store_abs X) eid = Some r" for eid r using at[OF that] by auto
    then have "drop_rows (\<lambda>e. addr_of env e = Some a \<and> P e) (store_abs X) = store_abs X"
      "rows_where (\<lambda>e. addr_of env e = Some a \<and> P e) (store_abs X) = {}"
      by (auto simp: drop_rows_def rows_where_def fun_eq_iff store_abs_def split: option.split)
    then show ?thesis using None assms by (simp add: delete_holder_def)
  next
    case (Some k)
    then obtain e where e: "fmlookup (ct_rows (tx_canonical X)) k = Some e" "addr_of env e = Some a"
      using addr_okD[OF d(2), of a k] by auto
    obtain seen where seen: "load_seen env k (tx_canonical X) = Some seen" using load_seen_result[OF d(1), of k] by blast
    have held: "\<exists>r. sp_rows (store_abs X) (ev_id e) = Some r \<and> fst r = e" by (rule row_in_view[OF assms e(1)])
    have only: "addr_of env (fst r) = Some a \<longleftrightarrow> ev_id (fst r) = ev_id e" if "sp_rows (store_abs X) eid = Some r" for eid r
      using that at[OF that] Some e held keyedD[OF keyed that] by auto
    from remove_row_in_txn_ok[OF assms, of "ev_id e" P] obtain r X' where
      r: "remove_row_in_txn env (ev_id e) (\<lambda>se. P (st_event se)) X = Some (r, X')" "tables_ok env indexed X'"
        "map_option row_of r = taken P (sp_rows (store_abs X) (ev_id e))"
        "store_abs X' = drop_rows (\<lambda>e'. ev_id e' = ev_id e \<and> P e') (store_abs X)" "same_queue X X'" "same_keys X X'" by blast
    have "store_abs X' = drop_rows (\<lambda>e. addr_of env e = Some a \<and> P e) (store_abs X)"
      unfolding r(4) using only by (intro drop_rows_cong) simp
    moreover have "set_option (map_option row_of r) = rows_where (\<lambda>e. addr_of env e = Some a \<and> P e) (store_abs X)"
    proof (rule set_eqI)
      fix row
      show "row \<in> set_option (map_option row_of r) \<longleftrightarrow> row \<in> rows_where (\<lambda>e. addr_of env e = Some a \<and> P e) (store_abs X)"
        unfolding r(3) mem_rows_where[OF keyed] using held only[of "ev_id (fst row)" row] only[of "ev_id e" row] keyedD[OF keyed, of "ev_id e" row]
        by (auto simp: taken_Some)
    qed
    ultimately show ?thesis using Some e(1) seen r by (simp add: delete_holder_def load_by_key_def)
  qed
qed

lemma rows_where_ceilings [simp]: "rows_where P (S\<lparr>sp_ceilings := c\<rparr>) = rows_where P S"
  by (simp add: rows_where_def)

lemma rows_where_split:
  assumes "keyed S"
  shows "rows_where (\<lambda>e. P e \<or> Q e) S = rows_where P S \<union> rows_where Q (drop_rows P S)"
  by (rule set_eqI) (auto simp: mem_rows_where[OF assms] mem_rows_where[OF keyed_drop_rows[OF assms]] split: option.splits)

lemma newest_newest: "newest (Some (newest old at)) at = newest old at"
  by (simp add: newest_def max_def split: option.split)

lemma names_address_Cons:
  "names_address env d (c # cs) e \<longleftrightarrow>
     (\<exists>a. named_address d c = Some a \<and> addr_of env e = Some a \<and> ev_created_at e \<le> ev_created_at d) \<or> names_address env d cs e"
  by (auto simp: names_address_def named_addresses_Cons)

lemma spec_delete_coords_skip:
  assumes "named_address d c = None"
  shows "names_address env d (c # cs) = names_address env d cs"
    "spec_delete_coords env d (c # cs) S = spec_delete_coords env d cs S"
proof -
  show same: "names_address env d (c # cs) = names_address env d cs"
    using assms by (simp add: fun_eq_iff names_address_Cons)
  show "spec_delete_coords env d (c # cs) S = spec_delete_coords env d cs S"
    using assms by (simp add: spec_delete_coords_def same named_addresses_Cons)
qed

lemma spec_delete_coords_Cons:
  assumes "named_address d c = Some a"
  shows "spec_delete_coords env d (c # cs) S =
    spec_delete_coords env d cs
      ((drop_rows (\<lambda>e. addr_of env e = Some a \<and> ev_created_at e \<le> ev_created_at d) S)
         \<lparr>sp_ceilings := (sp_ceilings S)(a \<mapsto> newest (sp_ceilings S a) (ev_created_at d))\<rparr>)"
proof (rule store_spec.equality)
  show "sp_rows (spec_delete_coords env d (c # cs) S) =
      sp_rows (spec_delete_coords env d cs ((drop_rows (\<lambda>e. addr_of env e = Some a \<and> ev_created_at e \<le> ev_created_at d) S)
         \<lparr>sp_ceilings := (sp_ceilings S)(a \<mapsto> newest (sp_ceilings S a) (ev_created_at d))\<rparr>))"
    using assms by (auto simp: spec_delete_coords_def names_address_Cons fun_eq_iff split: option.split)
qed (auto simp: spec_delete_coords_def fun_eq_iff named_addresses_Cons newest_newest assms)

lemma delete_coordinates_ok:
  assumes "tables_ok env indexed X"
  shows "\<exists>rs X'. delete_coordinates env d cs X = Some (rs, X') \<and> tables_ok env indexed X' \<and>
    store_abs X' = spec_delete_coords env d cs (store_abs X) \<and> row_of ` set rs = rows_where (names_address env d cs) (store_abs X) \<and>
    same_queue X X' \<and> same_keys X X'"
  using assms
proof (induction cs arbitrary: X)
  case Nil
  have "spec_delete_coords env d [] (store_abs X) = store_abs X" "rows_where (names_address env d []) (store_abs X) = {}"
    by (rule store_spec.equality)
      (auto simp: spec_delete_coords_def names_address_def named_addresses_def rows_where_def fun_eq_iff split: option.split)
  then show ?case using Nil by simp
next
  case (Cons c cs)
  show ?case
  proof (cases "named_address d c")
    case None
    then have "delete_coordinates env d (c # cs) X = delete_coordinates env d cs X"
      by (auto simp: named_address_def coord_of_def split: if_splits)
    then show ?thesis using Cons.IH[OF Cons.prems] spec_delete_coords_skip[OF None] by simp
  next
    case (Some a)
    then obtain key where key: "co_public_key c = ev_pubkey d" "address_key_for_coordinate c = Some key" "to_redb_key key = a"
      by (auto simp: named_address_def coord_of_def split: if_splits)
    let ?X = "raise_ceiling d a X" and ?P = "\<lambda>e :: event. ev_created_at e \<le> ev_created_at d"
    let ?Q = "\<lambda>e :: event. addr_of env e = Some a \<and> ?P e"
    note rc = raise_ceiling_fields[where d = d and a = a and X = X]
    have "tables_ok env indexed ?X" using Cons.prems rc(3) by blast
    from delete_holder_ok[OF this, where a = a and P = ?P] obtain r X1 where r: "delete_holder env ?P a ?X = Some (r, X1)" "tables_ok env indexed X1" "set_option (map_option row_of r) = rows_where ?Q (store_abs ?X)"
      "store_abs X1 = drop_rows ?Q (store_abs ?X)" "same_queue ?X X1" "same_keys ?X X1"
      by (elim exE conjE) (rule that)
    from Cons.IH[OF r(2)] obtain rs X2 where s: "delete_coordinates env d cs X1 = Some (rs, X2)" "tables_ok env indexed X2"
      "store_abs X2 = spec_delete_coords env d cs (store_abs X1)" "row_of ` set rs = rows_where (names_address env d cs) (store_abs X1)"
      "same_queue X1 X2" "same_keys X1 X2" by blast
    have abs1: "store_abs X1 = (drop_rows ?Q (store_abs X))
        \<lparr>sp_ceilings := (sp_ceilings (store_abs X))(a \<mapsto> newest (sp_ceilings (store_abs X) a) (ev_created_at d))\<rparr>"
      unfolding r(4) rc(6) by (simp add: drop_rows_def)
    have "delete_coordinates env d (c # cs) X = Some ((case r of None \<Rightarrow> [] | Some se \<Rightarrow> [se]) @ rs, X2)"
      using key r(1) s(1) by (simp add: delete_holder_def)
    moreover have "store_abs X2 = spec_delete_coords env d (c # cs) (store_abs X)"
      unfolding s(3) abs1 by (rule spec_delete_coords_Cons[OF Some, symmetric])
    moreover have "row_of ` set ((case r of None \<Rightarrow> [] | Some se \<Rightarrow> [se]) @ rs) = rows_where (names_address env d (c # cs)) (store_abs X)"
    proof -
      have "names_address env d (c # cs) = (\<lambda>e. ?Q e \<or> names_address env d cs e)"
        using Some by (auto simp: fun_eq_iff names_address_Cons)
      moreover have "row_of ` set (case r of None \<Rightarrow> [] | Some se \<Rightarrow> [se]) = set_option (map_option row_of r)" by (cases r) simp_all
      ultimately show ?thesis
        by (simp add: image_Un s(4) r(3) rows_where_split[OF keyed_abs[OF Cons.prems]] abs1 rc(6) del: store_abs_sel)
    qed
    moreover have "same_queue X X2" "same_keys X X2"
      using rc(4,5) r(5,6) s(5,6) by (simp_all add: same_queue_def same_keys_def)
    ultimately show ?thesis using s(2) by blast
  qed
qed

lemma process_kind5_deletions_ok:
  assumes "tables_ok env indexed X"
  shows "\<exists>rs X'. process_kind5_deletions env d X = Some (rs, X') \<and> tables_ok env indexed X' \<and>
    store_abs X' = spec_delete env d (store_abs X) \<and> row_of ` set rs = spec_deleted env d (store_abs X) \<and>
    same_queue X X' \<and> same_keys X X'"
proof -
  from delete_targets_ok[OF assms] obtain rs X1 where r: "delete_targets env d (tr_event_ids (se_tags env) d) X = Some (rs, X1)"
    "tables_ok env indexed X1" "store_abs X1 = spec_delete_ids d (tr_event_ids (se_tags env) d) (store_abs X)"
    "row_of ` set rs = rows_where (names_id d (tr_event_ids (se_tags env) d)) (store_abs X)" "same_queue X X1" "same_keys X X1" by blast
  from delete_coordinates_ok[OF r(2)] obtain rs' X2 where s: "delete_coordinates env d (tr_coordinates (se_tags env) d) X1 = Some (rs', X2)"
    "tables_ok env indexed X2" "store_abs X2 = spec_delete_coords env d (tr_coordinates (se_tags env) d) (store_abs X1)"
    "row_of ` set rs' = rows_where (names_address env d (tr_coordinates (se_tags env) d)) (store_abs X1)" "same_queue X1 X2" "same_keys X1 X2"
    by blast
  have "rows_where P (store_abs X1) = rows_where P (drop_rows (names_id d (tr_event_ids (se_tags env) d)) (store_abs X))" for P
    unfolding r(3) spec_delete_ids_def by (simp add: rows_where_def)
  then have "row_of ` set (rs @ rs') = spec_deleted env d (store_abs X)"
    by (simp add: image_Un r(4) s(4) spec_deleted_def rows_where_split[OF keyed_abs[OF assms]])
  then show ?thesis using r s same_queue_trans[OF r(5) s(5)] same_keys_trans[OF r(6) s(6)]
    by (simp add: process_kind5_deletions_def spec_delete_def)
qed

section \<open>Signature fan-out\<close>

text \<open>What the fan-out over the journal leaves alone.\<close>

definition same_store :: "'op ingest_txn \<Rightarrow> 'op ingest_txn \<Rightarrow> bool" where
  "same_store X X' \<longleftrightarrow>
     tx_canonical X' = tx_canonical X \<and> tx_addr_index X' = tx_addr_index X \<and> tx_expiration_index X' = tx_expiration_index X \<and>
     tx_postings X' = tx_postings X \<and> tx_id_tombstones X' = tx_id_tombstones X \<and> tx_addr_tombstones X' = tx_addr_tombstones X"

lemma same_store_trans: "same_store X Y \<Longrightarrow> same_store Y Z \<Longrightarrow> same_store X Z"
  by (simp add: same_store_def)

lemma same_store_abs:
  assumes "same_store X X'"
  shows "store_abs X' = store_abs X" "tables_ok env indexed X' = tables_ok env indexed X" "same_keys X X'"
  using assms by (simp_all add: same_store_def store_abs_def tables_ok_def same_keys_def)

definition unsigned_work :: "'op ingest_txn \<Rightarrow> intent_id \<Rightarrow> bool" where
  "unsigned_work X owner \<longleftrightarrow>
     (case fmlookup (tx_intents X) owner of
        None \<Rightarrow> False
      | Some rec \<Rightarrow> (case ir_work rec of EventWork _ _ sig_state \<Rightarrow> sig_state \<noteq> IntentSigned | ReplaceableOperationWork _ \<Rightarrow> False))"

lemma drop_claim_frame: "same_store X (drop_claim owner c X)" "tx_intents (drop_claim owner c X) = tx_intents X"
  "tx_receipts (drop_claim owner c X) = tx_receipts X"
  by (auto simp: drop_claim_def remove_claimant_def remove_addr_claimant_def same_store_def Let_def
      split: suppress_claim.split option.split)

lemma fold_drop_claim_frame:
  "same_store X (fold (drop_claim owner) cs X) \<and> tx_intents (fold (drop_claim owner) cs X) = tx_intents X \<and>
   tx_receipts (fold (drop_claim owner) cs X) = tx_receipts X"
proof (induction cs arbitrary: X)
  case (Cons c cs)
  then show ?case using drop_claim_frame[where X = X and owner = owner and c = c] same_store_trans by simp blast
qed (simp add: same_store_def)

lemma close_claims_frame: "same_store X (close_claims owner X)" "tx_intents (close_claims owner X) = tx_intents X"
  "tx_receipts (close_claims owner X) = tx_receipts X"
proof -
  let ?Y = "X\<lparr>tx_kind5_claims := fmdrop owner (tx_kind5_claims X)\<rparr>"
  have base: "same_store X ?Y" "same_store X X" by (simp_all add: same_store_def)
  note f = fold_drop_claim_frame[where X = ?Y and owner = owner]
  show "same_store X (close_claims owner X)"
  proof (cases "fmlookup (tx_kind5_claims X) owner")
    case (Some cs)
    then show ?thesis using same_store_trans[OF base(1) conjunct1[OF f[of cs]]] by (simp add: close_claims_def)
  qed (simp add: close_claims_def base(2))
  show "tx_intents (close_claims owner X) = tx_intents X" "tx_receipts (close_claims owner X) = tx_receipts X"
    using f by (simp_all add: close_claims_def split: option.split)
qed

lemma journal_okD:
  assumes "journal_ok X" "fmlookup (tx_intents X) owner = Some rec" "ir_work rec = EventWork frozen routing sig_state" "sig_state \<noteq> IntentSigned"
  shows "\<exists>event_id state. fmlookup (tx_receipts X) (ir_receipt_id rec) = Some (EventReceipt event_id state) \<and> state \<noteq> RsSuperseded"
  using assms unfolding journal_ok_def by blast

lemma journal_ok_cong: "tx_intents X' = tx_intents X \<Longrightarrow> tx_receipts X' = tx_receipts X \<Longrightarrow> journal_ok X' = journal_ok X"
  unfolding journal_ok_def by simp

lemma journal_ok_sign:
  assumes "journal_ok X" "fmlookup (tx_receipts X) rid = Some (EventReceipt eid state)"
  shows "journal_ok (X\<lparr>tx_intents := fmupd owner (rec\<lparr>ir_work := EventWork e routing IntentSigned\<rparr>) (tx_intents X),
    tx_receipts := fmupd rid (EventReceipt eid Signed) (tx_receipts X)\<rparr>)"
  unfolding journal_ok_def
proof (intro allI impI)
  fix owner' rec' frozen routing' sig_state
  assume a: "fmlookup (tx_intents (X\<lparr>tx_intents := fmupd owner (rec\<lparr>ir_work := EventWork e routing IntentSigned\<rparr>) (tx_intents X),
      tx_receipts := fmupd rid (EventReceipt eid Signed) (tx_receipts X)\<rparr>)) owner' = Some rec'"
    "ir_work rec' = EventWork frozen routing' sig_state" "sig_state \<noteq> IntentSigned"
  then have "owner' \<noteq> owner" by (auto split: if_splits)
  then have "fmlookup (tx_intents X) owner' = Some rec'" using a(1) by simp
  from journal_okD[OF assms(1) this a(2,3)]
  show "\<exists>event_id state. fmlookup (tx_receipts (X\<lparr>tx_intents := fmupd owner (rec\<lparr>ir_work := EventWork e routing IntentSigned\<rparr>) (tx_intents X),
      tx_receipts := fmupd rid (EventReceipt eid Signed) (tx_receipts X)\<rparr>)) (ir_receipt_id rec') = Some (EventReceipt event_id state) \<and>
      state \<noteq> RsSuperseded"
    by (cases "ir_receipt_id rec' = rid") auto
qed

lemma fan_out_owner_ok:
  assumes "journal_ok X"
  shows "\<exists>X'. fan_out_owner e owner X = Some (unsigned_work X owner, X') \<and> journal_ok X' \<and> same_store X X' \<and>
    (\<forall>o'. unsigned_work X' o' = (o' \<noteq> owner \<and> unsigned_work X o'))"
proof -
  let ?X = "X\<lparr>tx_displaced := fmdrop owner (tx_displaced X)\<rparr>"
  let ?fin = "\<lambda>X. if ev_kind e = KIND_EVENT_DELETION then close_claims owner X else X"
  have base: "same_store X ?X" "tx_intents ?X = tx_intents X" "tx_receipts ?X = tx_receipts X" by (simp_all add: same_store_def)
  have fin: "same_store Y (?fin Y)" "tx_intents (?fin Y) = tx_intents Y" "tx_receipts (?fin Y) = tx_receipts Y" for Y :: "'a ingest_txn"
    using close_claims_frame[where X = Y and owner = owner] by (simp_all add: same_store_def)
  have jX: "journal_ok ?X" using assms journal_ok_cong[OF base(2,3)] by blast
  show ?thesis
  proof (cases "unsigned_work X owner")
    case True
    then obtain rec frozen routing st where rec: "fmlookup (tx_intents X) owner = Some rec" "ir_work rec = EventWork frozen routing st"
        "st \<noteq> IntentSigned"
      by (auto simp: unsigned_work_def split: option.splits intent_work.splits)
    from journal_okD[OF assms rec] obtain eid state where rcpt: "fmlookup (tx_receipts X) (ir_receipt_id rec) = Some (EventReceipt eid state)"
      "state \<noteq> RsSuperseded" by blast
    let ?Y = "?X\<lparr>tx_intents := fmupd owner (rec\<lparr>ir_work := EventWork e routing IntentSigned\<rparr>) (tx_intents ?X),
        tx_receipts := fmupd (ir_receipt_id rec) (EventReceipt eid Signed) (tx_receipts ?X)\<rparr>"
    have "fan_out_owner e owner X = Some (True, ?fin ?Y)"
      using rec rcpt by (simp add: fan_out_owner_def update_publish_queue_receipt_def Let_def)
    moreover have "journal_ok (?fin ?Y)"
    proof -
      have "fmlookup (tx_receipts ?X) (ir_receipt_id rec) = Some (EventReceipt eid state)" using rcpt(1) by simp
      from journal_ok_sign[OF jX this] show ?thesis using journal_ok_cong[OF fin(2,3)] by blast
    qed
    moreover have "same_store X (?fin ?Y)"
      using same_store_trans[OF _ fin(1), of X ?Y] by (simp add: same_store_def)
    moreover have "unsigned_work (?fin ?Y) o' = (o' \<noteq> owner \<and> unsigned_work X o')" for o'
      by (simp add: unsigned_work_def fin(2))
    ultimately show ?thesis using True by simp
  next
    case False
    then have run: "fan_out_owner e owner X = Some (False, ?X) \<or> fan_out_owner e owner X = Some (False, ?fin ?X)"
      by (auto simp: fan_out_owner_def unsigned_work_def Let_def split: option.split intent_work.split)
    have u: "unsigned_work (?fin ?X) o' = (o' \<noteq> owner \<and> unsigned_work X o')" "unsigned_work ?X o' = (o' \<noteq> owner \<and> unsigned_work X o')" for o'
      using False by (auto simp: unsigned_work_def fin(2))
    have j: "journal_ok (?fin ?X)" "same_store X (?fin ?X)"
      using jX journal_ok_cong[OF fin(2,3)] same_store_trans[OF base(1) fin(1)] by blast+
    have wrap: ?thesis if "fan_out_owner e owner X = Some (False, Z)" "journal_ok Z" "same_store X Z"
      "\<And>o'. unsigned_work Z o' = (o' \<noteq> owner \<and> unsigned_work X o')" for Z
      using that False by auto
    from run show ?thesis
    proof
      assume "fan_out_owner e owner X = Some (False, ?X)"
      then show ?thesis by (rule wrap) (fact jX, fact base(1), fact u(2))
    next
      assume "fan_out_owner e owner X = Some (False, ?fin ?X)"
      then show ?thesis by (rule wrap) (fact j(1), fact j(2), fact u(1))
    qed
  qed
qed

lemma fan_out_owners_ok:
  assumes "journal_ok X" "distinct owners"
  shows "\<exists>X'. fan_out_owners e owners X = Some (filter (unsigned_work X) owners, X') \<and> journal_ok X' \<and> same_store X X' \<and>
    (\<forall>o'. unsigned_work X' o' = (o' \<notin> set owners \<and> unsigned_work X o'))"
  using assms
proof (induction owners arbitrary: X)
  case (Cons owner owners)
  from fan_out_owner_ok[OF Cons.prems(1)] obtain X1 where r: "fan_out_owner e owner X = Some (unsigned_work X owner, X1)"
    "journal_ok X1" "same_store X X1" "\<And>o'. unsigned_work X1 o' = (o' \<noteq> owner \<and> unsigned_work X o')" by blast
  from Cons.IH[OF r(2)] Cons.prems(2) obtain X2 where s: "fan_out_owners e owners X1 = Some (filter (unsigned_work X1) owners, X2)"
    "journal_ok X2" "same_store X1 X2" "\<And>o'. unsigned_work X2 o' = (o' \<notin> set owners \<and> unsigned_work X1 o')" by auto
  have "filter (unsigned_work X1) owners = filter (unsigned_work X) owners"
    using Cons.prems(2) by (auto simp: r(4) intro!: filter_cong)
  then show ?case using r(1) s same_store_trans[OF r(3) s(3)] by (auto simp: r(4))
qed (simp add: same_store_def)

lemma fan_out_signed_in_txn_ok:
  assumes "tables_ok env indexed X" "journal_ok X"
  shows "\<exists>X'. fan_out_signed_in_txn env owners e X = Some (filter (unsigned_work X) (sorted_list_of_fset owners), X') \<and>
    tables_ok env indexed X' \<and> journal_ok X' \<and> same_keys X X' \<and>
    store_abs X' = (if ev_kind e = KIND_EVENT_DELETION then spec_delete env e (store_abs X) else store_abs X) \<and>
    (\<forall>o'. unsigned_work X' o' = (o' |\<notin>| owners \<and> unsigned_work X o'))"
proof -
  from fan_out_owners_ok[OF assms(2), of "sorted_list_of_fset owners" e] obtain X1 where r:
    "fan_out_owners e (sorted_list_of_fset owners) X = Some (filter (unsigned_work X) (sorted_list_of_fset owners), X1)"
    "journal_ok X1" "same_store X X1" "\<And>o'. unsigned_work X1 o' = (o' |\<notin>| owners \<and> unsigned_work X o')" by auto
  note same = same_store_abs[OF r(3)]
  show ?thesis
  proof (cases "ev_kind e = KIND_EVENT_DELETION")
    case True
    from process_kind5_deletions_ok[of env indexed X1 e] assms(1) same(2) obtain rs X2 where s:
      "process_kind5_deletions env e X1 = Some (rs, X2)" "tables_ok env indexed X2" "store_abs X2 = spec_delete env e (store_abs X1)"
      "same_queue X1 X2" "same_keys X1 X2" by blast
    have "journal_ok X2" using s(4) r(2) journal_ok_cong[of X2 X1] by (simp add: same_queue_def)
    moreover have "unsigned_work X2 = unsigned_work X1" using s(4) by (simp add: same_queue_def unsigned_work_def fun_eq_iff)
    ultimately show ?thesis using True r(1,4) s same(1) same_keys_trans[OF same(3) s(5)] by (simp add: fan_out_signed_in_txn_def)
  next
    case False
    then show ?thesis using r assms(1) same by (simp add: fan_out_signed_in_txn_def)
  qed
qed

end
