(* ===== verification/Store_Refinement.thy ===== *)
theory Store_Refinement
  imports Store_Props
begin

text \<open>
  Delivery through \<open>insert_with_tables\<close> refines the abstract store, and so do the governed writes
  around it: one delivery, a batch, removal, expiry and garbage collection.
\<close>

section \<open>Admission of a row\<close>

definition room :: "nat \<Rightarrow> 'op ingest_txn \<Rightarrow> bool" where
  "room n X \<longleftrightarrow> event_room n (tx_canonical X) \<and> relay_room n (tx_canonical X)"

text \<open>At most \<open>n\<close> keys of each space are consumed; one delivery consumes at most one.\<close>

definition keys_within :: "nat \<Rightarrow> 'op ingest_txn \<Rightarrow> 'op ingest_txn \<Rightarrow> bool" where
  "keys_within n X X' \<longleftrightarrow>
     unat (ct_next_event_key (tx_canonical X')) \<le> unat (ct_next_event_key (tx_canonical X)) + n \<and>
     unat (ct_next_relay_key (tx_canonical X')) \<le> unat (ct_next_relay_key (tx_canonical X)) + n"

abbreviation one_key_each :: "'op ingest_txn \<Rightarrow> 'op ingest_txn \<Rightarrow> bool" where
  "one_key_each \<equiv> keys_within 1"

lemma room_step: "room (m + n) X \<Longrightarrow> keys_within m X X' \<Longrightarrow> room n X'"
  by (simp add: room_def keys_within_def event_room_def relay_room_def)

lemma keys_within_trans: "keys_within m X Y \<Longrightarrow> keys_within n Y Z \<Longrightarrow> keys_within (m + n) X Z"
  by (simp add: keys_within_def)

lemma keys_within_same: "same_keys X X' \<Longrightarrow> keys_within n X X'"
  by (simp add: keys_within_def same_keys_def)

lemma keys_within_same_left: "same_keys X Y \<Longrightarrow> keys_within n Y Z \<Longrightarrow> keys_within n X Z"
  by (simp add: same_keys_def keys_within_def)

lemma keys_within_same_right: "keys_within n X Y \<Longrightarrow> same_keys Y Z \<Longrightarrow> keys_within n X Z"
  by (simp add: same_keys_def keys_within_def)

lemma view_None_iff:
  assumes "canon_ok env T"
  shows "view T eid = None \<longleftrightarrow> fmlookup (ct_event_ids T) eid = None"
proof (cases "fmlookup (ct_event_ids T) eid")
  case (Some k)
  then show ?thesis using rows_okD(1)[OF canon_coreD(1)[OF assms], of eid k] by (auto simp: view_def)
qed (simp add: view_def)

lemma address_free:
  assumes "tables_ok env indexed X" "\<And>eid r. sp_rows (store_abs X) eid = Some r \<Longrightarrow> addr_of env (fst r) \<noteq> Some a"
  shows "fmlookup (tx_addr_index X) a = None"
proof (rule ccontr)
  assume "fmlookup (tx_addr_index X) a \<noteq> None"
  then obtain k where k: "fmlookup (tx_addr_index X) a = Some k" by auto
  then obtain e where e: "fmlookup (ct_rows (tx_canonical X)) k = Some e" "addr_of env e = Some a"
    using addr_okD[OF tables_okD(2)[OF assms(1)], of a k] by auto
  from row_in_view[OF assms(1) e(1)] assms(2) e(2) show False by blast
qed

lemma put_spec_row_abs:
  assumes "view (tx_canonical X') = (view (tx_canonical X))(eid \<mapsto> r)" "tx_id_tombstones X' = tx_id_tombstones X"
    "tx_addr_tombstones X' = tx_addr_tombstones X"
  shows "store_abs X' = put_spec_row eid r (store_abs X)"
  by (rule store_spec.equality) (simp_all add: put_spec_row_def assms)

lemma store_row_ok:
  assumes "tables_ok env indexed X" "sp_rows (store_abs X) (ev_id e) = None"
    "\<And>a. addr_of env e = Some a \<Longrightarrow> fmlookup (tx_addr_index X) a = None"
    "\<forall>url. fmlookup (pv_seen p) url \<noteq> None \<longrightarrow> se_parse_relay env url = Some url" "fcard (fmdom (pv_seen p)) \<le> 1" "room 1 X"
  shows "\<exists>X'. store_row env e p (addr_of env e) X = Some X' \<and> tables_ok env indexed X' \<and>
    store_abs X' = put_spec_row (ev_id e) (e, fmlookup (pv_seen p), pv_local p) (store_abs X) \<and> same_queue X X' \<and> one_key_each X X'"
proof -
  note d = tables_okD[OF assms(1)]
  let ?T = "tx_canonical X" and ?k = "ct_next_event_key (tx_canonical X)"
  have ids: "fmlookup (ct_event_ids ?T) (ev_id e) = None" using assms(2) by (simp add: view_None_iff[OF d(1)])
  have rooms: "event_room 1 ?T" "relay_room (fcard (fmdom (pv_seen p))) ?T"
    using assms(5,6) by (simp_all add: room_def relay_room_def)
  from insert_new_ok[OF d(1) ids rooms(1) assms(4) rooms(2)] obtain T' where T': "insert_new e p ?T = Some (?k, T')" "canon_ok env T'"
    "same_rows (add_row e (pv_local p) ?T) T'" "view T' = (view ?T)(ev_id e \<mapsto> (e, fmlookup (pv_seen p), pv_local p))"
    "unat (ct_next_event_key T') = unat ?k + 1" "unat (ct_next_relay_key T') \<le> unat (ct_next_relay_key ?T) + fcard (fmdom (pv_seen p))"
    by blast
  let ?A = "case addr_of env e of None \<Rightarrow> tx_addr_index X | Some a \<Rightarrow> fmupd a ?k (tx_addr_index X)"
  let ?E = "case tr_expiration (se_tags env) e of None \<Rightarrow> tx_expiration_index X | Some ts \<Rightarrow> fmupd (ts, ev_id e) ?k (tx_expiration_index X)"
  let ?X = "X\<lparr>tx_canonical := T', tx_addr_index := ?A, tx_postings := batch_insert e ?k (tx_postings X), tx_expiration_index := ?E\<rparr>"
  have run: "store_row env e p (addr_of env e) X = Some ?X"
    using T'(1) by (cases "addr_of env e"; cases "tr_expiration (se_tags env) e") (simp_all add: store_row_def index_row_def Let_def)
  have rows: "ct_rows T' = fmupd ?k e (ct_rows ?T)" "ct_next_event_key T' = ?k + 1"
    by (simp_all add: same_rowsD[OF T'(3)] add_row_fields)
  note fresh = next_event_key_fresh[OF d(1)]
  have "ev_id e' \<noteq> ev_id e" if "fmlookup (ct_rows ?T) k' = Some e'" for k' e'
    using row_in_view[OF assms(1) that] assms(2) by auto
  then have "exp_ok env (ct_rows T') ?E" unfolding rows by (rule exp_ok_put[OF d(3) fresh])
  moreover have "addr_ok env (ct_rows T') ?A" unfolding rows by (rule addr_ok_put[OF d(2) fresh assms(3)])
  moreover have "postings_ok indexed (ct_rows T') (ct_next_event_key T') (batch_insert e ?k (tx_postings X))"
    unfolding rows using T'(5) rows(2) by (intro postings_ok_insert[OF d(4) fresh]) (simp add: word_less_nat_alt)
  ultimately have "tables_ok env indexed ?X" using T'(2) by (simp add: tables_ok_def)
  moreover have "store_abs ?X = put_spec_row (ev_id e) (e, fmlookup (pv_seen p), pv_local p) (store_abs X)"
    by (rule put_spec_row_abs) (simp_all add: T'(4))
  moreover have "same_queue X ?X" "one_key_each X ?X"
    using T'(5,6) assms(5) by (simp_all add: same_queue_def keys_within_def)
  ultimately show ?thesis using run by blast
qed

section \<open>A delivery of a held id\<close>

lemma merge_delivered_ok:
  assumes "tables_ok env indexed X" "journal_ok X" "key_for_id (ev_id e) (tx_canonical X) = Some k"
    "\<And>held. fmlookup (ct_rows (tx_canonical X)) k = Some held \<Longrightarrow> same_body env e held"
    "se_parse_relay env (ro_relay from) = Some (ro_relay from)" "room 1 X"
  shows "\<exists>out X' r. merge_delivered env k e from X = Some (out, X') \<and> sp_rows (store_abs X) (ev_id e) = Some r \<and>
    tables_ok env indexed X' \<and> journal_ok X' \<and> one_key_each X X' \<and> (abs_outcome out, store_abs X') = spec_merge env e from r (store_abs X)"
proof -
  note d = tables_okD[OF assms(1)]
  let ?T = "tx_canonical X" and ?url = "ro_relay from"
  have ids: "fmlookup (ct_event_ids ?T) (ev_id e) = Some k" using assms(3) by (simp add: key_for_id_def)
  then obtain held where held: "fmlookup (ct_rows ?T) k = Some held" "ev_id held = ev_id e"
    using rows_okD(1)[OF canon_coreD(1)[OF d(1)], of "ev_id e" k] by auto
  let ?l = "fmlookup (ct_local ?T) k" and ?at = "newest (seen_of ?T k ?url) (ro_at from)"
  have row: "sp_rows (store_abs X) (ev_id e) = Some (held, seen_of ?T k, ?l)" using ids held by (simp add: view_def)
  have "fmlookup (ct_rows ?T) k \<noteq> None" "relay_room 1 ?T" using held assms(6) by (simp_all add: room_def)
  from merge_observation_ok[OF d(1) this(1) assms(5) this(2), of "ro_at from"] obtain T1 where
    m: "merge_observation k ?url (ro_at from) ?T = Some (seen_of ?T k ?url \<noteq> Some ?at, T1)" "canon_ok env T1" "same_rows ?T T1"
      "seen_of T1 = (seen_of ?T)(k := (seen_of ?T k)(?url \<mapsto> ?at))" "unat (ct_next_relay_key T1) \<le> unat (ct_next_relay_key ?T) + 1" by blast
  let ?X1 = "X\<lparr>tx_canonical := T1\<rparr>"
  let ?seen = "(seen_of ?T k)(?url \<mapsto> ?at)"
  have ok1: "tables_ok env indexed ?X1" using d m(2) by (simp add: tables_ok_def same_rowsD[OF m(3)])
  have view1: "view T1 = (view ?T)(ev_id e \<mapsto> (held, ?seen, ?l))"
  proof
    fix eid
    have "k' \<noteq> k" if "fmlookup (ct_event_ids ?T) eid = Some k'" "eid \<noteq> ev_id e" for k'
      using that ids rows_okD(1)[OF canon_coreD(1)[OF d(1)], of eid k'] held by auto
    then show "view T1 eid = ((view ?T)(ev_id e \<mapsto> (held, ?seen, ?l))) eid"
      using ids held by (auto simp: view_def same_rowsD[OF m(3)] m(4) split: option.split)
  qed
  have keys1: "one_key_each X ?X1" using m(5) by (simp add: keys_within_def same_rowsD[OF m(3)])
  have j1: "journal_ok ?X1" using assms(2) journal_ok_cong[of ?X1 X] by simp
  show ?thesis
  proof (cases "awaits_signature ?l")
    case False
    have "store_abs ?X1 = put_spec_row (ev_id e) (held, ?seen, ?l) (store_abs X)" by (rule put_spec_row_abs) (simp_all add: view1)
    moreover have "merge_delivered env k e from X = Some (Duplicate (seen_of ?T k ?url \<noteq> Some ?at) [] (?l \<noteq> None), ?X1)"
      using False m(1) by (auto simp: merge_delivered_def load_local_def awaits_signature_def split: option.splits)
    ultimately show ?thesis using row ok1 j1 keys1 False by (simp add: spec_merge_def Let_def)
  next
    case True
    then obtain origin where o: "?l = Some origin" "lo_sig_state origin = SigPending" by (auto simp: awaits_signature_def split: option.splits)
    let ?o = "Some (origin\<lparr>lo_sig_state := SigSigned\<rparr>)"
    let ?T2 = "replace_local k ?o (replace_event k e T1)"
    have held1: "fmlookup (ct_rows T1) k = Some held" using held(1) by (simp add: same_rowsD[OF m(3)])
    note body = assms(4)[OF held(1)]
    note rep = replace_row_ok[OF m(2) held1, of e ?o]
    let ?X2 = "X\<lparr>tx_canonical := ?T2\<rparr>"
    have rows2: "ct_rows ?T2 = fmupd k e (ct_rows ?T)" "ct_next_event_key ?T2 = ct_next_event_key ?T" "ct_next_relay_key ?T2 = ct_next_relay_key T1"
      by (simp_all add: replace_local_def replace_event_def same_rowsD[OF m(3)])
    have ok2: "tables_ok env indexed ?X2"
      using rep(1) held(2) d indexes_replace[OF held(1) body] by (simp add: tables_ok_def rows2)
    have j2: "journal_ok ?X2" using assms(2) journal_ok_cong[of ?X2 X] by simp
    have abs2: "store_abs ?X2 = put_spec_row (ev_id e) (e, ?seen, ?o) (store_abs X)"
      by (rule put_spec_row_abs) (simp_all add: rep(2) held(2) view1 m(4))
    from fan_out_signed_in_txn_ok[OF ok2 j2, of "lo_owners origin" e] obtain X3 where f:
      "fan_out_signed_in_txn env (lo_owners origin) e ?X2 = Some (filter (unsigned_work ?X2) (sorted_list_of_fset (lo_owners origin)), X3)"
      "tables_ok env indexed X3" "journal_ok X3" "same_keys ?X2 X3"
      "store_abs X3 = (if ev_kind e = KIND_EVENT_DELETION then spec_delete env e (store_abs ?X2) else store_abs ?X2)" by blast
    have "merge_delivered env k e from X =
        Some (Duplicate (seen_of ?T k ?url \<noteq> Some ?at) (filter (unsigned_work ?X2) (sorted_list_of_fset (lo_owners origin))) True, X3)"
      using m(1) o f(1) by (simp add: merge_delivered_def load_local_def)
    moreover have "one_key_each X X3" using m(5) f(4) by (simp add: keys_within_def same_keys_def rows2)
    ultimately show ?thesis using row f(2,3,5) True o by (simp add: spec_merge_def Let_def abs2)
  qed
qed

section \<open>A delivery\<close>

lemma deletion_has_no_address: "ev_kind e = KIND_EVENT_DELETION \<Longrightarrow> addr_of env e = None"
  by (simp add: addr_of_def address_key_for_def is_replaceable_kind_def is_addressable_kind_def)

lemma rival_free:
  assumes "addr_of env e = None"
  shows "rows_where (rival env e) S = {}" "drop_rows (rival env e) S = S"
  using assms by (auto simp: rows_where_def rival_def drop_rows_def fun_eq_iff split: option.split)

definition delivered_seen :: "relay_observed \<Rightarrow> provenance" where
  "delivered_seen from = \<lparr>pv_seen = fmupd (ro_relay from) (ro_at from) fmempty, pv_local = None\<rparr>"

lemma store_delivered_row_ok:
  assumes "tables_ok env indexed X" "sp_rows (store_abs X) (ev_id e) = None" "rows_where (rival env e) (store_abs X) = {}"
    "se_parse_relay env (ro_relay from) = Some (ro_relay from)" "room 1 X"
  shows "\<exists>X'. store_row env e (delivered_seen from) (addr_of env e) X = Some X' \<and> tables_ok env indexed X' \<and>
    store_abs X' = put_spec_row (ev_id e) (e, [ro_relay from \<mapsto> ro_at from], None) (store_abs X) \<and> same_queue X X' \<and> one_key_each X X'"
proof -
  have "fmlookup (tx_addr_index X) a = None" if "addr_of env e = Some a" for a
    using assms(3) that by (intro address_free[OF assms(1)]) (auto simp: rows_where_def rival_def)
  moreover have "\<forall>url. fmlookup (pv_seen (delivered_seen from)) url \<noteq> None \<longrightarrow> se_parse_relay env url = Some url"
    using assms(4) by (simp add: delivered_seen_def)
  moreover have "fcard (fmdom (pv_seen (delivered_seen from))) \<le> 1" by (simp add: delivered_seen_def fcard_finsert_if)
  moreover have "fmlookup (pv_seen (delivered_seen from)) = [ro_relay from \<mapsto> ro_at from]" "pv_local (delivered_seen from) = None"
    by (auto simp: delivered_seen_def fun_eq_iff)
  ultimately show ?thesis using store_row_ok[OF assms(1,2), of "delivered_seen from"] assms(5) by simp
qed

lemma store_delivered_ok:
  assumes "tables_ok env indexed X" "sp_rows (store_abs X) (ev_id e) = None"
    "se_parse_relay env (ro_relay from) = Some (ro_relay from)" "room 1 X"
  defines "rivals \<equiv> rows_where (rival env e) (store_abs X)"
  shows "\<exists>out X'. store_delivered env e from X = Some (out, X') \<and> tables_ok env indexed X' \<and> same_queue X X' \<and> one_key_each X X' \<and>
    (if \<exists>r \<in> rivals. \<not> candidate_wins e (fst r) then out = Stale \<and> X' = X
     else store_abs X' = put_spec_row (ev_id e) (e, [ro_relay from \<mapsto> ro_at from], None) (drop_rows (rival env e) (store_abs X)) \<and>
       (if rivals = {} then out = Inserted else \<exists>se. out = Superseded se \<and> rivals = {row_of se}))"
proof (cases "rivals = {}")
  case True
  have drop: "drop_rows (rival env e) (store_abs X) = store_abs X"
    using True unfolding rivals_def by (auto simp: rows_where_def drop_rows_def fun_eq_iff store_abs_def split: option.split)
  have "fmlookup (tx_addr_index X) a = None" if "addr_of env e = Some a" for a
    using True that unfolding rivals_def by (intro address_free[OF assms(1)]) (auto simp: rows_where_def rival_def)
  then have "store_delivered env e from X = map_option (Pair Inserted) (store_row env e (delivered_seen from) (addr_of env e) X)"
    by (cases "address_key_for (se_tags env) e") (simp_all add: store_delivered_def addr_of_def delivered_seen_def)
  then show ?thesis using store_delivered_row_ok[OF assms(1,2) _ assms(3,4)] True drop unfolding rivals_def by auto
next
  case False
  note d = tables_okD[OF assms(1)] and keyed = keyed_abs[OF assms(1)]
  from False obtain r eid where r: "sp_rows (store_abs X) eid = Some r" "rival env e (fst r)"
    unfolding rivals_def rows_where_def by blast
  then obtain a where a: "addr_of env e = Some a" "addr_of env (fst r) = Some a" by (auto simp: rival_def)
  then obtain addr_key where key: "address_key_for (se_tags env) e = Some addr_key" "to_redb_key addr_key = a"
    by (auto simp: addr_of_def)
  obtain k where k: "fmlookup (ct_rows (tx_canonical X)) k = Some (fst r)"
    and r': "r = (fst r, seen_of (tx_canonical X) k, fmlookup (ct_local (tx_canonical X)) k)"
    using r(1) by (auto simp: view_Some_iff[OF d(1)])
  then have idx: "fmlookup (tx_addr_index X) a = Some k" using addr_okD[OF d(2), of a k] a by simp
  obtain se where se: "load_by_key env k (tx_canonical X) = Some (Some se)" "row_of se = r"
  proof -
    from load_by_key_result[OF d(1), of k] obtain se where "load_by_key env k (tx_canonical X) = Some (Some se)"
      "row_of se = (fst r, seen_of (tx_canonical X) k, fmlookup (ct_local (tx_canonical X)) k)"
      using k by (auto simp: row_of_def)
    then show thesis using that r' by simp
  qed
  have rivals: "rivals = {r}"
  proof -
    have "r1 = r" if prem: "sp_rows (store_abs X) eid' = Some r1" "rival env e (fst r1)" for eid' r1
    proof -
      obtain k' where k': "fmlookup (ct_rows (tx_canonical X)) k' = Some (fst r1)" using prem(1) by (auto simp: view_Some_iff[OF d(1)])
      then have "k' = k" using prem(2) a idx addr_okD[OF d(2), of a k'] by (simp add: rival_def)
      then have "fst r1 = fst r" using k k' by simp
      then show ?thesis using keyedD[OF keyed prem(1)] keyedD[OF keyed r(1)] prem(1) r(1) by simp
    qed
    then show ?thesis using r unfolding rivals_def rows_where_def by blast
  qed
  have ev: "st_event se = fst r" using se(2) by (auto simp: row_of_def)
  show ?thesis
  proof (cases "candidate_wins e (fst r)")
    case False
    then have "store_delivered env e from X = Some (Stale, X)" using key idx se ev by (simp add: store_delivered_def)
    then show ?thesis using False rivals assms(1) by (auto simp: keys_within_same)
  next
    case True
    from remove_row_in_txn_ok[OF assms(1), of "ev_id (fst r)" "\<lambda>_. True"] obtain removed X1 where
      m: "remove_row_in_txn env (ev_id (fst r)) (\<lambda>_. True) X = Some (removed, X1)" "tables_ok env indexed X1"
        "map_option row_of removed = taken (\<lambda>_. True) (sp_rows (store_abs X) (ev_id (fst r)))"
        "store_abs X1 = drop_rows (\<lambda>e'. ev_id e' = ev_id (fst r) \<and> True) (store_abs X)" "same_queue X X1" "same_keys X X1" by blast
    have removed: "removed \<noteq> None" using m(3) r(1) keyedD[OF keyed r(1)] by (auto simp: taken_def)
    have abs1: "store_abs X1 = drop_rows (rival env e) (store_abs X)"
      unfolding m(4)
    proof (rule drop_rows_cong)
      fix eid' r' assume r': "sp_rows (store_abs X) eid' = Some r'"
      have "rival env e (fst r') \<longleftrightarrow> r' = r" using rivals r' unfolding rivals_def rows_where_def by blast
      moreover have "ev_id (fst r') = ev_id (fst r) \<longleftrightarrow> r' = r" using keyedD[OF keyed r'] keyedD[OF keyed r(1)] r' r(1) by (metis option.inject)
      ultimately show "(ev_id (fst r') = ev_id (fst r) \<and> True) = rival env e (fst r')" by simp
    qed
    have free: "sp_rows (store_abs X1) (ev_id e) = None" "rows_where (rival env e) (store_abs X1) = {}" "room 1 X1"
      using assms(2,4) m(6) unfolding abs1
      by (auto simp: rows_where_def room_def same_keys_def event_room_def relay_room_def split: option.splits if_splits)
    from store_delivered_row_ok[OF m(2) free(1,2) assms(3) free(3)] obtain X2 where
      s: "store_row env e (delivered_seen from) (addr_of env e) X1 = Some X2" "tables_ok env indexed X2"
        "store_abs X2 = put_spec_row (ev_id e) (e, [ro_relay from \<mapsto> ro_at from], None) (store_abs X1)" "same_queue X1 X2" "one_key_each X1 X2"
      by blast
    have "store_delivered env e from X = Some (Superseded se, X2)"
      using key idx se ev True m(1) removed s(1) a by (cases removed) (simp_all add: store_delivered_def delivered_seen_def)
    moreover have "same_queue X X2" "one_key_each X X2" using same_queue_trans[OF m(5) s(4)] keys_within_same_left[OF m(6) s(5)] by blast+
    ultimately show ?thesis using True rivals s(2,3) abs1 se(2) by simp
  qed
qed

definition body_agrees :: "store_env \<Rightarrow> event \<Rightarrow> store_spec \<Rightarrow> bool" where
  "body_agrees env e S \<longleftrightarrow> (\<forall>r. sp_rows S (ev_id e) = Some r \<longrightarrow> same_body env e (fst r))"

lemma insert_with_tables_ok:
  assumes "tables_ok env indexed X" "journal_ok X" "body_agrees env e (store_abs X)"
    "se_parse_relay env (ro_relay from) = Some (ro_relay from)" "room 1 X"
  shows "\<exists>out X'. insert_with_tables env e from X = Some (out, X') \<and> tables_ok env indexed X' \<and> journal_ok X' \<and> one_key_each X X' \<and>
    (abs_outcome out, store_abs X') = spec_insert env e from (store_abs X)"
proof (cases "tr_is_expired_at (se_tags env) e (ro_at from)")
  case True
  then show ?thesis using assms(1,2) by (simp add: insert_with_tables_def spec_insert_def keys_within_same)
next
  case fresh: False
  note d = tables_okD[OF assms(1)]
  show ?thesis
  proof (cases "key_for_id (ev_id e) (tx_canonical X)")
    case (Some k)
    have "same_body env e held" if "fmlookup (ct_rows (tx_canonical X)) k = Some held" for held
      using that Some assms(3) rows_okD(1)[OF canon_coreD(1)[OF d(1)], of "ev_id e" k]
      by (simp add: body_agrees_def view_def key_for_id_def)
    from merge_delivered_ok[OF assms(1,2) Some this assms(4,5)]
    show ?thesis using Some fresh by (auto simp: insert_with_tables_def spec_insert_def)
  next
    case None
    then have absent: "sp_rows (store_abs X) (ev_id e) = None" by (simp add: key_for_id_def view_None_iff[OF d(1)])
    show ?thesis
    proof (cases "spec_refuses env e (store_abs X)")
      case True
      then show ?thesis using None fresh absent assms(1,2)
        by (simp add: insert_with_tables_def spec_insert_def tombstone_refuses_abs keys_within_same)
    next
      case False
      let ?rivals = "rows_where (rival env e) (store_abs X)"
      from store_delivered_ok[OF assms(1) absent assms(4,5)] obtain out X1 where
        s: "store_delivered env e from X = Some (out, X1)" "tables_ok env indexed X1" "same_queue X X1" "one_key_each X X1"
          "if \<exists>r \<in> ?rivals. \<not> candidate_wins e (fst r) then out = Stale \<and> X1 = X
           else store_abs X1 = put_spec_row (ev_id e) (e, [ro_relay from \<mapsto> ro_at from], None) (drop_rows (rival env e) (store_abs X)) \<and>
             (if ?rivals = {} then out = Inserted else \<exists>se. out = Superseded se \<and> ?rivals = {row_of se})" by blast
      have j: "journal_ok X1" using s(3) assms(2) journal_ok_cong[of X1 X] by (simp add: same_queue_def)
      have run: "insert_with_tables env e from X =
          (if ev_kind e = KIND_EVENT_DELETION \<and> out = Inserted
           then do { (deleted, X) \<leftarrow> process_kind5_deletions env e X1; Some (Kind5Processed deleted, X) }
           else Some (out, X1))"
        using None fresh False s(1) by (simp add: insert_with_tables_def tombstone_refuses_abs)
      have spec: "spec_insert env e from (store_abs X) = spec_admit env e from (store_abs X)"
        using fresh absent False by (simp add: spec_insert_def)
      show ?thesis
      proof (cases "ev_kind e = KIND_EVENT_DELETION")
        case True
        then have none: "?rivals = {}" using rival_free(1) deletion_has_no_address by blast
        with s(5) have out: "out = Inserted"
          "store_abs X1 = put_spec_row (ev_id e) (e, [ro_relay from \<mapsto> ro_at from], None) (drop_rows (rival env e) (store_abs X))" by auto
        from process_kind5_deletions_ok[OF s(2), of e] obtain rs X2 where p: "process_kind5_deletions env e X1 = Some (rs, X2)"
          "tables_ok env indexed X2" "store_abs X2 = spec_delete env e (store_abs X1)" "row_of ` set rs = spec_deleted env e (store_abs X1)"
          "same_queue X1 X2" "same_keys X1 X2" by blast
        have "journal_ok X2" using p(5) j journal_ok_cong[of X2 X1] by (simp add: same_queue_def)
        moreover have "one_key_each X X2" by (rule keys_within_same_right[OF s(4) p(6)])
        ultimately show ?thesis unfolding run spec using True out none p by (simp add: spec_admit_def Let_def)
      next
        case other: False
        then show ?thesis unfolding run spec using s(2,4,5) j by (auto simp: spec_admit_def Let_def split: if_splits)
      qed
    qed
  qed
qed

section \<open>The abstract store keeps deletions\<close>

lemma live_okD: "live_ok env S \<Longrightarrow> sp_rows S eid = Some r \<Longrightarrow> \<not> spec_refuses env (fst r) S"
  unfolding live_ok_def by blast

lemma live_ok_drop_rows: "live_ok env S \<Longrightarrow> live_ok env (drop_rows P S)"
  by (auto simp: live_ok_def spec_refuses_def split: option.splits if_splits)

lemma spec_refuses_put [simp]: "spec_refuses env e (put_spec_row eid r S) = spec_refuses env e S"
  "spec_refuses env e (drop_rows P S) = spec_refuses env e S"
  by (simp_all add: spec_refuses_def put_spec_row_def)

lemma live_ok_put: "live_ok env S \<Longrightarrow> \<not> spec_refuses env (fst r) S \<Longrightarrow> live_ok env (put_spec_row eid r S)"
  by (auto simp: live_ok_def spec_refuses_def put_spec_row_def)

lemma same_body_refuses: "same_body env e e' \<Longrightarrow> spec_refuses env e S = spec_refuses env e' S"
  by (simp add: same_body_def spec_refuses_def)

lemma keyed_put: "keyed S \<Longrightarrow> ev_id (fst r) = eid \<Longrightarrow> keyed (put_spec_row eid r S)"
  by (auto simp: keyed_def put_spec_row_def)

lemma live_ok_delete_ids:
  assumes "live_ok env S" "keyed S"
  shows "live_ok env (spec_delete_ids d ids S)"
  unfolding live_ok_def
proof (intro allI impI)
  fix eid r assume r: "sp_rows (spec_delete_ids d ids S) eid = Some r"
  then have "sp_rows S eid = Some r" "\<not> names_id d ids (fst r)"
    by (auto simp: spec_delete_ids_def split: option.splits if_splits)
  then show "\<not> spec_refuses env (fst r) (spec_delete_ids d ids S)"
    using live_okD[OF assms(1), of eid r] by (auto simp: spec_refuses_def spec_delete_ids_def names_id_def)
qed

lemma le_newest: "x \<le> newest c at \<longleftrightarrow> x \<le> at \<or> (\<exists>c'. c = Some c' \<and> x \<le> c')"
  by (auto simp: newest_def le_max_iff_disj split: option.split)

lemma live_ok_delete_coords:
  assumes "live_ok env S"
  shows "live_ok env (spec_delete_coords env d cs S)"
  unfolding live_ok_def
proof (intro allI impI)
  fix eid r assume r: "sp_rows (spec_delete_coords env d cs S) eid = Some r"
  then have "sp_rows S eid = Some r" "\<not> names_address env d cs (fst r)"
    by (auto simp: spec_delete_coords_def split: option.splits if_splits)
  then show "\<not> spec_refuses env (fst r) (spec_delete_coords env d cs S)"
    using live_okD[OF assms, of eid r]
    by (auto simp: spec_refuses_def spec_delete_coords_def names_address_def le_newest split: if_splits)
qed

lemma live_ok_delete:
  assumes "live_ok env S" "keyed S"
  shows "live_ok env (spec_delete env d S)"
  unfolding spec_delete_def by (intro live_ok_delete_coords live_ok_delete_ids assms)

lemma spec_insert_live:
  assumes "live_ok env S" "keyed S" "body_agrees env e S"
  shows "live_ok env (snd (spec_insert env e from S))"
proof (cases "sp_rows S (ev_id e)")
  case (Some r)
  obtain held seen l where r: "r = (held, seen, l)" by (cases r)
  have "\<not> spec_refuses env held S" using live_okD[OF assms(1) Some] r by simp
  moreover have "\<not> spec_refuses env e S"
    using live_okD[OF assms(1) Some] assms(3) Some same_body_refuses unfolding body_agrees_def by blast
  moreover have "ev_id held = ev_id e" using keyedD[OF assms(2) Some] r by simp
  ultimately show ?thesis using Some r assms(1,2)
    by (auto simp: spec_insert_def spec_merge_def Let_def intro!: live_ok_put live_ok_delete keyed_put)
next
  case None
  then show ?thesis using assms(1,2)
    by (auto simp: spec_insert_def spec_admit_def Let_def intro!: live_ok_put live_ok_delete keyed_put live_ok_drop_rows keyed_drop_rows)
qed

section \<open>Governed writes\<close>

definition held_keys :: "'op ingest_txn \<Rightarrow> event_key set" where
  "held_keys D = {k. fmlookup (ct_rows (tx_canonical D)) k \<noteq> None}"

text \<open>The store between transactions.\<close>

definition durable_ok :: "store_env \<Rightarrow> 'op ingest_txn \<Rightarrow> bool" where
  "durable_ok env D \<longleftrightarrow>
     canon_ok env (tx_canonical D) \<and> settled (tx_canonical D) \<and>
     addr_ok env (ct_rows (tx_canonical D)) (tx_addr_index D) \<and>
     exp_ok env (ct_rows (tx_canonical D)) (tx_expiration_index D) \<and>
     live_ok env (store_abs D) \<and> journal_ok D"

definition begin_txn :: "'op ingest_txn \<Rightarrow> 'op ingest_txn" where
  "begin_txn D = D\<lparr>tx_postings := \<lparr>pb_additions = fmempty, pb_deaths = {||}\<rparr>\<rparr>"

lemma begin_txn_ok:
  assumes "durable_ok env D"
  shows "tables_ok env (held_keys D) (begin_txn D)" "store_abs (begin_txn D) = store_abs D" "journal_ok (begin_txn D)"
    "same_keys D (begin_txn D)" "live_ok env (store_abs D)"
proof -
  have "k < ct_next_event_key (tx_canonical D)" if "fmlookup (ct_rows (tx_canonical D)) k \<noteq> None" for k
    using that assms rows_okD(2)[OF canon_coreD(1)] unfolding durable_ok_def by blast
  then have "postings_ok (held_keys D) (ct_rows (tx_canonical D)) (ct_next_event_key (tx_canonical D)) \<lparr>pb_additions = fmempty, pb_deaths = {||}\<rparr>"
    by (auto simp: postings_ok_def held_keys_def)
  then show "tables_ok env (held_keys D) (begin_txn D)" using assms by (simp add: tables_ok_def begin_txn_def durable_ok_def)
  show "store_abs (begin_txn D) = store_abs D" "same_keys D (begin_txn D)" by (simp_all add: store_abs_def begin_txn_def same_keys_def)
  show "journal_ok (begin_txn D)" using assms journal_ok_cong[of "begin_txn D" D] by (simp add: begin_txn_def durable_ok_def)
  show "live_ok env (store_abs D)" using assms by (simp add: durable_ok_def)
qed

text \<open>A body that keeps the invariants commits, and the posting batch it hands over is the exact
  difference of the rows held before and after.\<close>

lemma governed_write_ok:
  assumes "durable_ok env D" "mutate (begin_txn D) = Some (result, X)" "tables_ok env (held_keys D) X" "journal_ok X" "live_ok env (store_abs X)"
  shows "\<exists>D'. governed_write mutate D = Some (result, D') \<and> durable_ok env D' \<and> store_abs D' = store_abs X \<and> same_keys X D' \<and>
    fset (fmdom (pb_additions (tx_postings D'))) = held_keys D' - held_keys D \<and> fset (pb_deaths (tx_postings D')) = held_keys D - held_keys D'"
proof -
  have D: "canon_ok env (tx_canonical D)" "settled (tx_canonical D)" using assms(1) by (simp_all add: durable_ok_def)
  note d = tables_okD[OF assms(3)]
  from flush_pending_ok[OF d(1)] obtain T where T: "flush_pending (tx_canonical X) = Some T" "canon_ok env T" "settled T"
    "view T = view (tx_canonical X)" "ct_rows T = ct_rows (tx_canonical X)" "ct_next_event_key T = ct_next_event_key (tx_canonical X)"
    "ct_next_relay_key T = ct_next_relay_key (tx_canonical X)" by blast
  let ?D = "X\<lparr>tx_canonical := T\<rparr>"
  have run: "governed_write mutate D = Some (result, ?D)"
    using assms(2) T(1) canonical_open_ok[OF D] by (simp add: governed_write_def begin_txn_def)
  have same: "store_abs ?D = store_abs X" by (rule store_spec.equality) (simp_all add: T(4))
  have "journal_ok ?D" using assms(4) journal_ok_cong[of ?D X] by simp
  moreover have "live_ok env (store_abs ?D)" using assms(5) unfolding same .
  ultimately have ok: "durable_ok env ?D" using T d by (simp add: durable_ok_def)
  have keys: "same_keys X ?D" using T by (simp add: same_keys_def)
  have "k |\<in>| fmdom (pb_additions (tx_postings X)) \<longleftrightarrow> k \<in> held_keys ?D \<and> k \<notin> held_keys D"
    "k |\<in>| pb_deaths (tx_postings X) \<longleftrightarrow> k \<in> held_keys D \<and> k \<notin> held_keys ?D" for k
    using postings_okD(2,3)[OF d(4), of k] by (auto simp: held_keys_def T(5) fmlookup_dom_iff)
  then have "fset (fmdom (pb_additions (tx_postings ?D))) = held_keys ?D - held_keys D" "fset (pb_deaths (tx_postings ?D)) = held_keys D - held_keys ?D" by auto
  then show ?thesis using run ok same keys by blast
qed

lemma store_insert_ok:
  assumes "durable_ok env D" "body_agrees env e (store_abs D)" "se_parse_relay env (ro_relay from) = Some (ro_relay from)" "room 1 D"
  shows "\<exists>out D'. store_insert env e from D = Some (out, D') \<and> durable_ok env D' \<and>
    (abs_outcome out, store_abs D') = spec_insert env e from (store_abs D) \<and> one_key_each D D' \<and>
    fset (fmdom (pb_additions (tx_postings D'))) = held_keys D' - held_keys D \<and> fset (pb_deaths (tx_postings D')) = held_keys D - held_keys D'"
proof -
  note b = begin_txn_ok[OF assms(1)]
  have "room 1 (begin_txn D)" "body_agrees env e (store_abs (begin_txn D))"
    using assms(2,4) b(2,4) by (simp_all add: room_def same_keys_def event_room_def relay_room_def)
  from insert_with_tables_ok[OF b(1,3) this(2) assms(3) this(1)] obtain out X where
    X: "insert_with_tables env e from (begin_txn D) = Some (out, X)" "tables_ok env (held_keys D) X" "journal_ok X"
      "one_key_each (begin_txn D) X" "(abs_outcome out, store_abs X) = spec_insert env e from (store_abs D)" unfolding b(2) by blast
  have "keyed (store_abs D)" using keyed_abs[OF b(1)] b(2) by simp
  from spec_insert_live[OF b(5) this assms(2), of "from"] have "live_ok env (store_abs X)" using X(5)[symmetric] by simp
  from governed_write_ok[where mutate = "insert_with_tables env e from", OF assms(1) X(1-3) this] show ?thesis
    using X(5) keys_within_same_left[OF b(4) X(4)] keys_within_same_right unfolding store_insert_def by fastforce
qed

section \<open>Batches\<close>

fun spec_insert_each :: "store_env \<Rightarrow> (event \<times> relay_observed) list \<Rightarrow> store_spec \<Rightarrow> spec_outcome list \<times> store_spec" where
  "spec_insert_each env [] S = ([], S)"
| "spec_insert_each env ((e, from) # events) S =
     (let (out, S) = spec_insert env e from S; (outs, S) = spec_insert_each env events S in (out # outs, S))"

text \<open>Every id along the batch commits to its body.\<close>

fun bodies_agree :: "store_env \<Rightarrow> (event \<times> relay_observed) list \<Rightarrow> store_spec \<Rightarrow> bool" where
  "bodies_agree env [] S = True"
| "bodies_agree env ((e, from) # events) S \<longleftrightarrow> body_agrees env e S \<and> bodies_agree env events (snd (spec_insert env e from S))"

lemma insert_each_ok:
  assumes "tables_ok env indexed X" "journal_ok X" "live_ok env (store_abs X)" "bodies_agree env events (store_abs X)"
    "\<forall>(e, from) \<in> set events. se_parse_relay env (ro_relay from) = Some (ro_relay from)" "room (length events) X"
  shows "\<exists>outs X'. insert_each env events X = Some (outs, X') \<and> tables_ok env indexed X' \<and> journal_ok X' \<and> live_ok env (store_abs X') \<and>
    keys_within (length events) X X' \<and> (map abs_outcome outs, store_abs X') = spec_insert_each env events (store_abs X)"
  using assms
proof (induction events arbitrary: X)
  case (Cons p events)
  obtain e "from" where p: "p = (e, from)" by force
  have "room 1 X" using Cons.prems(6) by (simp add: room_def event_room_def relay_room_def)
  then obtain out X1 where s: "insert_with_tables env e from X = Some (out, X1)" "tables_ok env indexed X1" "journal_ok X1" "one_key_each X X1"
    "(abs_outcome out, store_abs X1) = spec_insert env e from (store_abs X)"
    using insert_with_tables_ok[OF Cons.prems(1,2), of e "from"] Cons.prems(4,5) p by auto
  have abs1: "snd (spec_insert env e from (store_abs X)) = store_abs X1" by (simp add: s(5)[symmetric])
  have "live_ok env (store_abs X1)"
    using spec_insert_live[OF Cons.prems(3) keyed_abs[OF Cons.prems(1)], of e "from"] Cons.prems(4) p abs1 by simp
  moreover have "room (length events) X1" using room_step[OF _ s(4), of "length events"] Cons.prems(6) by (simp add: add.commute)
  ultimately obtain outs X2 where t: "insert_each env events X1 = Some (outs, X2)" "tables_ok env indexed X2" "journal_ok X2"
    "live_ok env (store_abs X2)" "(map abs_outcome outs, store_abs X2) = spec_insert_each env events (store_abs X1)" "keys_within (length events) X1 X2"
    using Cons.IH[OF s(2,3)] Cons.prems(4,5) p abs1 by auto
  show ?case using p s(1) t(1-4) keys_within_trans[OF s(4) t(6)] by (simp add: s(5)[symmetric] t(5)[symmetric])
qed (simp add: keys_within_def)

lemma insert_batch_ok:
  assumes "durable_ok env D" "bodies_agree env events (store_abs D)"
    "\<forall>(e, from) \<in> set events. se_parse_relay env (ro_relay from) = Some (ro_relay from)" "room (length events) D"
  shows "\<exists>outs D'. insert_batch env events D = Some (outs, D') \<and> durable_ok env D' \<and> keys_within (length events) D D' \<and>
    (map abs_outcome outs, store_abs D') = spec_insert_each env events (store_abs D)"
proof (cases "events = []")
  case False
  note b = begin_txn_ok[OF assms(1)]
  have "room (length events) (begin_txn D)"
    using assms(4) b(4) by (simp add: room_def same_keys_def event_room_def relay_room_def)
  from insert_each_ok[OF b(1,3) _ _ assms(3) this] obtain outs X where
    X: "insert_each env events (begin_txn D) = Some (outs, X)" "tables_ok env (held_keys D) X" "journal_ok X" "live_ok env (store_abs X)"
      "(map abs_outcome outs, store_abs X) = spec_insert_each env events (store_abs D)" "keys_within (length events) (begin_txn D) X"
    using b(2,5) assms(2) by auto
  from governed_write_ok[where mutate = "insert_each env events", OF assms(1) X(1-4)] show ?thesis
    using False X(5) keys_within_same_right[OF keys_within_same_left[OF b(4) X(6)]] unfolding insert_batch_def by auto
qed (use assms(1) in \<open>simp add: insert_batch_def keys_within_def\<close>)

end
