(* ===== verification/Store_Lifecycle.thy ===== *)
theory Store_Lifecycle
  imports Store_Refinement
begin

text \<open>
  The other governed writes of the store refine the abstract store as well: explicit removal, expiry and
  garbage collection. Then the theorems on runs of the store, over any order of these operations.
\<close>

section \<open>Removal and expiry\<close>

lemma remove_governed:
  assumes "durable_ok env D" "mutate (begin_txn D) = Some (result, X)" "tables_ok env (held_keys D) X" "same_queue (begin_txn D) X"
    "store_abs X = drop_rows P (store_abs D)" "same_keys (begin_txn D) X"
  shows "\<exists>D'. governed_write mutate D = Some (result, D') \<and> durable_ok env D' \<and> store_abs D' = drop_rows P (store_abs D) \<and> same_keys D D'"
proof -
  note b = begin_txn_ok[OF assms(1)]
  have "journal_ok X" using b(3) assms(4) journal_ok_cong[of X "begin_txn D"] by (simp add: same_queue_def)
  moreover have "live_ok env (store_abs X)" unfolding assms(5) by (rule live_ok_drop_rows[OF b(5)])
  ultimately show ?thesis
    using governed_write_ok[where mutate = mutate, OF assms(1-3)] same_keys_trans[OF same_keys_trans[OF b(4) assms(6)]]
    unfolding assms(5) by blast
qed

lemma store_remove_ok:
  assumes "durable_ok env D"
  shows "\<exists>r D'. store_remove env eid D = Some (r, D') \<and> durable_ok env D' \<and> map_option row_of r = sp_rows (store_abs D) eid \<and>
    store_abs D' = drop_rows (\<lambda>e. ev_id e = eid) (store_abs D) \<and> same_keys D D'"
proof -
  note b = begin_txn_ok[OF assms]
  from remove_row_in_txn_ok[OF b(1), of eid "\<lambda>_. True"] obtain r X where
    r: "remove_row_in_txn env eid (\<lambda>_. True) (begin_txn D) = Some (r, X)" "tables_ok env (held_keys D) X"
      "map_option row_of r = taken (\<lambda>_. True) (sp_rows (store_abs D) eid)" "store_abs X = drop_rows (\<lambda>e. ev_id e = eid) (store_abs D)"
      "same_queue (begin_txn D) X" "same_keys (begin_txn D) X" unfolding b(2) by auto
  have "taken (\<lambda>_. True) x = x" for x by (simp add: taken_def split: option.split)
  then show ?thesis using remove_governed[where mutate = "remove_row_in_txn env eid (\<lambda>_. True)", OF assms r(1,2,5,4,6)] r(3)
    unfolding store_remove_def by auto
qed

definition at_keys :: "event_key list \<Rightarrow> 'op ingest_txn \<Rightarrow> event \<Rightarrow> bool" where
  "at_keys ks X e \<longleftrightarrow> (\<exists>k \<in> set ks. fmlookup (ct_rows (tx_canonical X)) k = Some e)"

lemma expire_keys_ok:
  assumes "tables_ok env indexed X"
  shows "\<exists>rs X'. expire_keys env ks X = Some (rs, X') \<and> tables_ok env indexed X' \<and> same_queue X X' \<and> same_keys X X' \<and>
    store_abs X' = drop_rows (at_keys ks X) (store_abs X) \<and> row_of ` set rs = rows_where (at_keys ks X) (store_abs X)"
  using assms
proof (induction ks arbitrary: X)
  case Nil
  have "drop_rows (at_keys [] X) (store_abs X) = store_abs X" "rows_where (at_keys [] X) (store_abs X) = {}"
    by (rule store_spec.equality) (auto simp: at_keys_def rows_where_def fun_eq_iff split: option.split)
  then show ?case using Nil by simp
next
  case (Cons k ks)
  note d = tables_okD[OF Cons.prems] and keyed = keyed_abs[OF Cons.prems]
  show ?case
  proof (cases "fmlookup (ct_rows (tx_canonical X)) k")
    case None
    then have "at_keys (k # ks) X = at_keys ks X" by (simp add: at_keys_def fun_eq_iff)
    then show ?thesis using Cons.IH[OF Cons.prems] None by (simp add: load_by_key_def)
  next
    case (Some e)
    obtain se where se: "load_by_key env k (tx_canonical X) = Some (Some se)" "st_event se = e"
      using load_by_key_result[OF d(1), of k] Some by auto
    let ?P = "\<lambda>e'. ev_id e' = ev_id e"
    from remove_row_in_txn_ok[OF Cons.prems, of "ev_id e" "\<lambda>_. True"] obtain r X1 where
      r: "remove_row_in_txn env (ev_id e) (\<lambda>_. True) X = Some (r, X1)" "tables_ok env indexed X1"
        "map_option row_of r = taken (\<lambda>_. True) (sp_rows (store_abs X) (ev_id e))" "store_abs X1 = drop_rows ?P (store_abs X)" "same_queue X X1"
        "\<And>k e'. fmlookup (ct_rows (tx_canonical X1)) k = Some e' \<longleftrightarrow> fmlookup (ct_rows (tx_canonical X)) k = Some e' \<and> ev_id e' \<noteq> ev_id e" "same_keys X X1"
      by auto
    from Cons.IH[OF r(2)] obtain rs X2 where s: "expire_keys env ks X1 = Some (rs, X2)" "tables_ok env indexed X2" "same_queue X1 X2"
      "store_abs X2 = drop_rows (at_keys ks X1) (store_abs X1)" "row_of ` set rs = rows_where (at_keys ks X1) (store_abs X1)" "same_keys X1 X2" by blast
    have only: "fst row = e" if "sp_rows (store_abs X) eid = Some row" "ev_id (fst row) = ev_id e" for eid row
      using row_in_view[OF Cons.prems Some] keyedD[OF keyed that(1)] that by auto
    have same: "?P (fst row) \<or> at_keys ks X1 (fst row) \<longleftrightarrow> at_keys (k # ks) X (fst row)" if "sp_rows (store_abs X) eid = Some row" for eid row
      using only[OF that] Some by (auto simp: at_keys_def r(6))
    have "store_abs X2 = drop_rows (at_keys (k # ks) X) (store_abs X)"
      unfolding s(4) r(4) drop_rows_drop_rows using same by (intro drop_rows_cong) blast
    moreover have "row_of ` set ((case r of None \<Rightarrow> [] | Some row \<Rightarrow> [row]) @ rs) = rows_where (at_keys (k # ks) X) (store_abs X)"
    proof -
      have "row_of ` set (case r of None \<Rightarrow> [] | Some row \<Rightarrow> [row]) = set_option (map_option row_of r)" by (cases r) simp_all
      also have "\<dots> = rows_where ?P (store_abs X)"
        using keyedD[OF keyed, of "ev_id e"] by (intro set_eqI) (auto simp: r(3) taken_Some mem_rows_where[OF keyed])
      finally have "row_of ` set ((case r of None \<Rightarrow> [] | Some row \<Rightarrow> [row]) @ rs) = rows_where (\<lambda>e'. ?P e' \<or> at_keys ks X1 e') (store_abs X)"
        by (simp add: image_Un s(5) r(4) rows_where_split[OF keyed])
      also have "\<dots> = rows_where (at_keys (k # ks) X) (store_abs X)" using same unfolding rows_where_def by blast
      finally show ?thesis .
    qed
    ultimately show ?thesis using se r(1) s(1,2) same_queue_trans[OF r(5) s(3)] same_keys_trans[OF r(7) s(6)] by simp
  qed
qed

definition expires_by :: "store_env \<Rightarrow> u64 \<Rightarrow> event \<Rightarrow> bool" where
  "expires_by env now e \<longleftrightarrow> (\<exists>ts. tr_expiration (se_tags env) e = Some ts \<and> ts \<le> now)"

lemma at_due_keys:
  assumes "tables_ok env indexed X" "fmlookup (ct_rows (tx_canonical X)) k = Some e"
  shows "at_keys (due_event_keys now X) X e \<longleftrightarrow> expires_by env now e"
proof -
  note x = exp_okD[OF tables_okD(3)[OF assms(1)]]
  have due: "k' \<in> set (due_event_keys now X) \<longleftrightarrow> (\<exists>ts eid. fmlookup (tx_expiration_index X) (ts, eid) = Some k' \<and> ts \<le> now)" for k'
    by (force simp: due_event_keys_def set_sorted_list_of_fmap)
  show ?thesis
  proof
    assume "at_keys (due_event_keys now X) X e"
    then obtain k' where k': "k' \<in> set (due_event_keys now X)" "fmlookup (ct_rows (tx_canonical X)) k' = Some e" by (auto simp: at_keys_def)
    then obtain ts eid where "fmlookup (tx_expiration_index X) (ts, eid) = Some k'" "ts \<le> now" using due by blast
    then show "expires_by env now e" using k'(2) x[of ts eid k'] by (auto simp: expires_by_def)
  next
    assume "expires_by env now e"
    then obtain ts where ts: "tr_expiration (se_tags env) e = Some ts" "ts \<le> now" by (auto simp: expires_by_def)
    then have "fmlookup (tx_expiration_index X) (ts, ev_id e) = Some k" using x[of ts "ev_id e" k] assms(2) by simp
    then have "k \<in> set (due_event_keys now X)" using due ts(2) by blast
    then show "at_keys (due_event_keys now X) X e" using assms(2) by (auto simp: at_keys_def)
  qed
qed

lemma expire_due_ok:
  assumes "durable_ok env D"
  shows "\<exists>rs D'. expire_due env now D = Some (rs, D') \<and> durable_ok env D' \<and>
    store_abs D' = drop_rows (expires_by env now) (store_abs D) \<and> row_of ` set rs = rows_where (expires_by env now) (store_abs D) \<and>
    same_keys D D'"
proof -
  note b = begin_txn_ok[OF assms]
  let ?X = "begin_txn D" let ?ks = "due_event_keys now ?X"
  from expire_keys_ok[OF b(1), of ?ks] obtain rs X where
    r: "expire_keys env ?ks ?X = Some (rs, X)" "tables_ok env (held_keys D) X" "same_queue ?X X"
      "store_abs X = drop_rows (at_keys ?ks ?X) (store_abs D)" "row_of ` set rs = rows_where (at_keys ?ks ?X) (store_abs D)" "same_keys ?X X"
    unfolding b(2) by blast
  have same: "at_keys ?ks ?X (fst row) \<longleftrightarrow> expires_by env now (fst row)" if "sp_rows (store_abs D) eid = Some row" for eid row
  proof -
    have "view (tx_canonical ?X) eid = Some row" using that b(2) by (metis store_abs_sel(1))
    then obtain k where "fmlookup (ct_rows (tx_canonical ?X)) k = Some (fst row)"
      by (auto simp: view_Some_iff[OF tables_okD(1)[OF b(1)]])
    from at_due_keys[OF b(1) this] show ?thesis .
  qed
  have "store_abs X = drop_rows (expires_by env now) (store_abs D)" unfolding r(4) using same by (intro drop_rows_cong)
  moreover have "row_of ` set rs = rows_where (expires_by env now) (store_abs D)" unfolding r(5) rows_where_def using same by blast
  moreover have "(\<lambda>X. expire_keys env (due_event_keys now X) X) ?X = Some (rs, X)" using r(1) by simp
  ultimately show ?thesis
    using remove_governed[where mutate = "\<lambda>X. expire_keys env (due_event_keys now X) X", OF assms _ r(2,3) _ r(6)]
    unfolding expire_due_def by blast
qed

section \<open>Garbage collection\<close>

definition collectable :: "store_env \<Rightarrow> (event \<Rightarrow> bool) \<Rightarrow> 'op ingest_txn \<Rightarrow> event \<times> local_origin option \<Rightarrow> bool" where
  "collectable env claimed X r \<longleftrightarrow>
     addr_of env (fst r) = None \<and> \<not> awaits_signature (snd r) \<and> \<not> is_suppressed_in_txn env (fst r) X \<and> \<not> claimed (fst r)"

lemma gc_consider_collectable: "gc_consider env claimed X e l = (if collectable env claimed X (e, l) then [e] else [])"
  by (simp add: gc_consider_def collectable_def addr_of_def awaits_signature_def)

definition flush_pending_row :: "store_env \<Rightarrow> (event \<Rightarrow> bool) \<Rightarrow> 'op ingest_txn \<Rightarrow> (event_key \<times> event) option \<Rightarrow> event list" where
  "flush_pending_row env claimed X p = (case p of None \<Rightarrow> [] | Some (_, e) \<Rightarrow> gc_consider env claimed X e None)"

lemma gc_scan_observations:
  "gc_scan env claimed X (map (\<lambda>(rk, at). (k, ColObservation rk at)) obs @ rows) p =
     (if obs = [] then gc_scan env claimed X rows p
      else map_option ((@) (flush_pending_row env claimed X p)) (gc_scan env claimed X rows None))"
proof (induction obs arbitrary: p)
  case (Cons seen obs)
  then show ?case
    by (cases seen; cases "gc_scan env claimed X rows None") (auto simp: flush_pending_row_def)
qed simp

text \<open>The rows of held keys, one after the other.\<close>

lemma gc_scan_flush:
  assumes "\<forall>k \<in> set ks. fmlookup (ct_rows T) k \<noteq> None"
  shows "gc_scan env claimed X (concat (map (event_columns T) ks)) p =
    map_option ((@) (flush_pending_row env claimed X p)) (gc_scan env claimed X (concat (map (event_columns T) ks)) None)"
proof (cases ks)
  case Nil
  then show ?thesis by (simp add: flush_pending_row_def)
next
  case (Cons k ks')
  then obtain e where e: "fmlookup (ct_rows T) k = Some e" using assms by auto
  obtain rest where "concat (map (event_columns T) ks) = (k, ColRow e) # rest" using Cons e by (simp add: event_columns_def)
  then show ?thesis
    by (cases "gc_scan env claimed X rest (Some (k, e))") (simp_all add: flush_pending_row_def)
qed

definition row_at :: "canonical_tables \<Rightarrow> event_key \<Rightarrow> event \<times> local_origin option" where
  "row_at T k = (the (fmlookup (ct_rows T) k), fmlookup (ct_local T) k)"

lemma gc_scan_rows:
  assumes "\<forall>k \<in> set ks. fmlookup (ct_rows T) k \<noteq> None"
  shows "gc_scan env claimed X (concat (map (event_columns T) ks)) None =
    Some (map fst (filter (collectable env claimed X) (map (row_at T) ks)))"
  using assms
proof (induction ks)
  case (Cons k ks)
  obtain e where e: "fmlookup (ct_rows T) k = Some e" using Cons.prems by auto
  have ks: "\<forall>k \<in> set ks. fmlookup (ct_rows T) k \<noteq> None" using Cons.prems by simp
  note tail = gc_scan_flush[OF ks, of env claimed X] and ih = Cons.IH[OF ks]
  have row: "row_at T k = (e, fmlookup (ct_local T) k)" using e by (simp add: row_at_def)
  have nil: "map_option ((@) []) v = v" for v :: "event list option" by (cases v) simp_all
  show ?case
  proof (cases "fmlookup (ct_local T) k")
    case None
    then have "gc_scan env claimed X (concat (map (event_columns T) (k # ks))) None =
        gc_scan env claimed X (map (\<lambda>(rk, at). (k, ColObservation rk at)) (observation_range k T) @ concat (map (event_columns T) ks)) (Some (k, e))"
      using e by (simp add: event_columns_def nil)
    then show ?thesis using None row ih tail[of "Some (k, e)"] unfolding gc_scan_observations
      by (simp add: flush_pending_row_def gc_consider_collectable)
  next
    case (Some l)
    then have "gc_scan env claimed X (concat (map (event_columns T) (k # ks))) None =
        map_option ((@) (gc_consider env claimed X e (Some l)))
          (gc_scan env claimed X (map (\<lambda>(rk, at). (k, ColObservation rk at)) (observation_range k T) @ concat (map (event_columns T) ks)) None)"
      using e by (simp add: event_columns_def nil)
    then show ?thesis using Some row ih tail[of None] unfolding gc_scan_observations
      by (simp add: flush_pending_row_def gc_consider_collectable)
  qed
qed simp

lemma gc_scan_result:
  assumes "canon_ok env T"
  shows "gc_scan env claimed X (scan T) None =
    Some (map fst (filter (collectable env claimed X) (map (row_at T) (sorted_list_of_fset (fmdom (ct_rows T))))))"
proof -
  note d = canon_coreD[OF assms]
  have "fmdom (ct_local T) |\<subseteq>| fmdom (ct_rows T)" using rows_okD(3)[OF d(1)] by (auto simp: fmlookup_dom_iff)
  moreover have "fst |`| fmdom (ct_observations T) |\<subseteq>| fmdom (ct_rows T)"
  proof
    fix k assume "k |\<in>| fst |`| fmdom (ct_observations T)"
    then obtain rk where "fmlookup (ct_observations T) (k, rk) \<noteq> None" by (auto simp: fmlookup_dom_iff)
    then show "k |\<in>| fmdom (ct_rows T)" using refs_okD(1)[OF d(3)] by (auto simp: fmlookup_dom_iff)
  qed
  ultimately have "scan T = concat (map (event_columns T) (sorted_list_of_fset (fmdom (ct_rows T))))"
    unfolding scan_def by (metis sup.absorb1)
  then show ?thesis by (simp add: gc_scan_rows fmlookup_dom_iff)
qed

lemma evict_victims_ok:
  assumes "tables_ok env indexed X" "distinct (map ev_id vs)" "\<forall>v \<in> set vs. sp_rows (store_abs X) (ev_id v) \<noteq> None"
  shows "\<exists>X'. evict_victims env vs X = Some (length vs, X') \<and> tables_ok env indexed X' \<and> same_queue X X' \<and> same_keys X X' \<and>
    store_abs X' = drop_rows (\<lambda>e. ev_id e \<in> ev_id ` set vs) (store_abs X)"
  using assms
proof (induction vs arbitrary: X)
  case Nil
  have "drop_rows (\<lambda>e. False) (store_abs X) = store_abs X"
    by (rule store_spec.equality) (auto simp: fun_eq_iff split: option.split)
  then show ?case using Nil by simp
next
  case (Cons v vs)
  from remove_row_in_txn_ok[OF Cons.prems(1), of "ev_id v" "\<lambda>_. True"] obtain r X1 where
    r: "remove_row_in_txn env (ev_id v) (\<lambda>_. True) X = Some (r, X1)" "tables_ok env indexed X1"
      "map_option row_of r = taken (\<lambda>_. True) (sp_rows (store_abs X) (ev_id v))"
      "store_abs X1 = drop_rows (\<lambda>e. ev_id e = ev_id v) (store_abs X)" "same_queue X X1" "same_keys X X1" by auto
  have "r \<noteq> None" using r(3) Cons.prems(3) by (auto simp: taken_def)
  moreover have "sp_rows (store_abs X1) (ev_id v') \<noteq> None" if "v' \<in> set vs" for v'
  proof -
    have "sp_rows (store_abs X) (ev_id v') \<noteq> None" "ev_id v \<notin> ev_id ` set vs" using that Cons.prems(2,3) by auto
    then have "sp_rows (store_abs X) (ev_id v') \<noteq> None" "ev_id v' \<noteq> ev_id v" using imageI[OF that, of ev_id] by metis+
    then show ?thesis unfolding r(4) using keyedD[OF keyed_abs[OF Cons.prems(1)], of "ev_id v'"] by auto
  qed
  ultimately obtain X2 where s: "evict_victims env vs X1 = Some (length vs, X2)" "tables_ok env indexed X2" "same_queue X1 X2"
    "store_abs X2 = drop_rows (\<lambda>e. ev_id e \<in> ev_id ` set vs) (store_abs X1)" "same_keys X1 X2" using Cons.IH[OF r(2)] Cons.prems(2) by auto
  have "store_abs X2 = drop_rows (\<lambda>e. ev_id e \<in> ev_id ` set (v # vs)) (store_abs X)"
    unfolding s(4) r(4) drop_rows_drop_rows by simp
  then show ?case using r(1) \<open>r \<noteq> None\<close> s same_queue_trans[OF r(5) s(3)] same_keys_trans[OF r(6) s(5)] by auto
qed

lemma collectable_cong:
  assumes "same_queue X X'"
  shows "collectable env claimed X' r = collectable env claimed X r"
  using assms by (simp add: collectable_def is_suppressed_in_txn_def has_claimants_in_txn_def addr_has_covering_claimant_in_txn_def same_queue_def
      split: option.split)

definition collected :: "store_env \<Rightarrow> (event \<Rightarrow> bool) \<Rightarrow> 'op ingest_txn \<Rightarrow> event \<Rightarrow> bool" where
  "collected env claimed D e \<longleftrightarrow>
     (\<exists>seen l. sp_rows (store_abs D) (ev_id e) = Some (e, seen, l) \<and> collectable env claimed D (e, l))"

lemma gc_victims:
  assumes "tables_ok env indexed X"
  shows "\<exists>vs. gc_scan env claimed X (scan (tx_canonical X)) None = Some vs \<and> distinct (map ev_id vs) \<and> set vs = {e. collected env claimed X e}"
proof -
  note d = tables_okD[OF assms]
  let ?T = "tx_canonical X" let ?ks = "sorted_list_of_fset (fmdom (ct_rows ?T))"
  let ?vs = "map fst (filter (collectable env claimed X) (map (row_at ?T) ?ks))"
  have rows: "\<exists>e. fmlookup (ct_rows ?T) k = Some e" if "k \<in> set ?ks" for k using that by (auto simp: fmlookup_dom_iff)
  have "inj_on (\<lambda>k. ev_id (fst (row_at ?T k))) (set ?ks)"
  proof (rule inj_onI)
    fix k k' assume k: "k \<in> set ?ks" "k' \<in> set ?ks" "ev_id (fst (row_at ?T k)) = ev_id (fst (row_at ?T k'))"
    then obtain e e' where e: "fmlookup (ct_rows ?T) k = Some e" "fmlookup (ct_rows ?T) k' = Some e'" using rows by blast
    then have "ev_id e' = ev_id e" using k(3) by (simp add: row_at_def)
    then show "k = k'"
      using e rows_okD(1)[OF canon_coreD(1)[OF d(1)], of "ev_id e" k] rows_okD(1)[OF canon_coreD(1)[OF d(1)], of "ev_id e" k'] by simp
  qed
  then have "distinct (map (\<lambda>k. ev_id (fst (row_at ?T k))) ?ks)" by (simp add: distinct_map)
  then have "distinct (map ev_id ?vs)" by (simp add: comp_def filter_map distinct_map_filter)
  moreover have "set ?vs = {e. collected env claimed X e}"
  proof (intro set_eqI iffI)
    fix e assume "e \<in> set ?vs"
    then obtain k where k: "k \<in> set ?ks" "e = fst (row_at ?T k)" "collectable env claimed X (row_at ?T k)" by auto
    then have "fmlookup (ct_rows ?T) k = Some e" using rows[OF k(1)] by (auto simp: row_at_def)
    then have "view ?T (ev_id e) = Some (e, seen_of ?T k, fmlookup (ct_local ?T) k)" using view_Some_iff[OF d(1)] by blast
    then show "e \<in> {e. collected env claimed X e}" using k by (auto simp: collected_def row_at_def)
  next
    fix e assume "e \<in> {e. collected env claimed X e}"
    then obtain seen l where v: "view ?T (ev_id e) = Some (e, seen, l)" "collectable env claimed X (e, l)" by (auto simp: collected_def)
    then obtain k where k: "fmlookup (ct_rows ?T) k = Some e" "l = fmlookup (ct_local ?T) k" using view_Some_iff[OF d(1)] by auto
    then have "row_at ?T k = (e, l)" "k \<in> set ?ks" by (auto simp: row_at_def fmlookup_dom_iff)
    then show "e \<in> set ?vs" using v(2) by force
  qed
  ultimately show ?thesis using gc_scan_result[OF d(1), of claimed X] by blast
qed

text \<open>A pass up to its coverage part never fails; the whole pass fails with the coverage part.\<close>

lemma gc_run:
  assumes "durable_ok env D"
  obtains vs where "distinct (map ev_id vs)" "set vs = {e. collected env claimed D e}"
    "shrink_coverage_rows vs coverage = None \<Longrightarrow> gc env claimed coverage D = None"
    "\<And>coverage' shrunk deleted. shrink_coverage_rows vs coverage = Some (coverage', shrunk, deleted) \<Longrightarrow>
       \<exists>D'. gc env claimed coverage D =
           Some ((\<lparr>gr_events_evicted = length vs, gr_coverage_rows_shrunk = shrunk, gr_coverage_rows_deleted = deleted\<rparr>, coverage'), D') \<and>
         durable_ok env D' \<and> store_abs D' = drop_rows (collected env claimed D) (store_abs D) \<and> same_keys D D'"
proof -
  note b = begin_txn_ok[OF assms]
  have same: "collected env claimed (begin_txn D) = collected env claimed D"
  proof -
    have "same_queue D (begin_txn D)" by (simp add: same_queue_def begin_txn_def)
    note cong = collectable_cong[OF this, of env claimed]
    show ?thesis by (rule ext) (simp only: collected_def cong b(2))
  qed
  from gc_victims[OF b(1), of claimed] obtain vs where vs: "gc_scan env claimed (begin_txn D) (scan (tx_canonical (begin_txn D))) None = Some vs"
    "distinct (map ev_id vs)" "set vs = {e. collected env claimed D e}" unfolding same by blast
  have "\<forall>v \<in> set vs. sp_rows (store_abs (begin_txn D)) (ev_id v) \<noteq> None" unfolding vs(3) b(2) by (auto simp: collected_def)
  from evict_victims_ok[OF b(1) vs(2) this] obtain X where X: "evict_victims env vs (begin_txn D) = Some (length vs, X)"
    "tables_ok env (held_keys D) X" "same_queue (begin_txn D) X" "store_abs X = drop_rows (\<lambda>e. ev_id e \<in> ev_id ` set vs) (store_abs D)" "same_keys (begin_txn D) X"
    unfolding b(2) by blast
  have keyed: "keyed (store_abs D)" using keyed_abs[OF b(1)] b(2) by simp
  have drop: "store_abs X = drop_rows (collected env claimed D) (store_abs D)"
    unfolding X(4) vs(3)
  proof (rule drop_rows_cong)
    fix eid r assume r: "sp_rows (store_abs D) eid = Some r"
    have "fst r = e" if "collected env claimed D e" "ev_id (fst r) = ev_id e" for e
      using that keyedD[OF keyed r] r by (auto simp: collected_def)
    then show "ev_id (fst r) \<in> ev_id ` {e. collected env claimed D e} \<longleftrightarrow> collected env claimed D (fst r)" by auto
  qed
  have D: "canon_ok env (tx_canonical D)" "settled (tx_canonical D)" using assms by (simp_all add: durable_ok_def)
  show thesis
  proof (rule that[OF vs(2,3)])
    assume "shrink_coverage_rows vs coverage = None"
    then show "gc env claimed coverage D = None"
      using vs(1) X(1) canonical_open_ok[OF D] by (simp add: gc_def governed_write_def begin_txn_def)
  next
    fix coverage' shrunk deleted assume "shrink_coverage_rows vs coverage = Some (coverage', shrunk, deleted)"
    then show "\<exists>D'. gc env claimed coverage D =
           Some ((\<lparr>gr_events_evicted = length vs, gr_coverage_rows_shrunk = shrunk, gr_coverage_rows_deleted = deleted\<rparr>, coverage'), D') \<and>
         durable_ok env D' \<and> store_abs D' = drop_rows (collected env claimed D) (store_abs D) \<and> same_keys D D'"
      unfolding gc_def using vs(1) X(1) by (intro remove_governed[OF assms _ X(2,3) drop X(5)]) simp
  qed
qed

lemma gc_ok:
  assumes "durable_ok env D" "\<forall>k iv. fmlookup coverage k = Some iv \<longrightarrow> iv_from iv \<le> iv_through iv"
  shows "\<exists>report coverage' D'. gc env claimed coverage D = Some ((report, coverage'), D') \<and> durable_ok env D' \<and>
    store_abs D' = drop_rows (collected env claimed D) (store_abs D) \<and>
    same_keys D D' \<and> gr_events_evicted report = card {e. collected env claimed D e} \<and>
    (\<forall>k iv e. fmlookup coverage' k = Some iv \<longrightarrow> collected env claimed D e \<longrightarrow> ev_created_at e \<notin> interval_times iv)"
proof (rule gc_run[OF assms(1), of claimed coverage])
  fix vs assume vs: "distinct (map ev_id vs)" "set vs = {e. collected env claimed D e}"
    and run: "\<And>coverage' shrunk deleted. shrink_coverage_rows vs coverage = Some (coverage', shrunk, deleted) \<Longrightarrow>
       \<exists>D'. gc env claimed coverage D =
           Some ((\<lparr>gr_events_evicted = length vs, gr_coverage_rows_shrunk = shrunk, gr_coverage_rows_deleted = deleted\<rparr>, coverage'), D') \<and>
         durable_ok env D' \<and> store_abs D' = drop_rows (collected env claimed D) (store_abs D) \<and> same_keys D D'"
  from shrink_coverage_rows_result[OF assms(2), of vs] obtain coverage' shrunk deleted where
    c: "shrink_coverage_rows vs coverage = Some (coverage', shrunk, deleted)"
      "\<forall>k iv v. fmlookup coverage' k = Some iv \<longrightarrow> v \<in> set vs \<longrightarrow> ev_created_at v \<notin> interval_times iv" by blast
  have "length vs = card {e. collected env claimed D e}" using vs distinct_card[of vs] by (metis distinct_map)
  then show ?thesis using run[OF c(1)] c(2) vs(2) by auto
qed

lemma gc_None_iff:
  assumes "durable_ok env D"
  shows "gc env claimed coverage D = None \<longleftrightarrow>
    (\<exists>k iv e. fmlookup coverage k = Some iv \<and> collected env claimed D e \<and> iv_through iv < ev_created_at e \<and> ev_created_at e < iv_from iv)"
proof (rule gc_run[OF assms, of claimed coverage])
  fix vs assume vs: "set vs = {e. collected env claimed D e}" and fails: "shrink_coverage_rows vs coverage = None \<Longrightarrow> gc env claimed coverage D = None"
    and run: "\<And>coverage' shrunk deleted. shrink_coverage_rows vs coverage = Some (coverage', shrunk, deleted) \<Longrightarrow>
       \<exists>D'. gc env claimed coverage D =
           Some ((\<lparr>gr_events_evicted = length vs, gr_coverage_rows_shrunk = shrunk, gr_coverage_rows_deleted = deleted\<rparr>, coverage'), D') \<and>
         durable_ok env D' \<and> store_abs D' = drop_rows (collected env claimed D) (store_abs D) \<and> same_keys D D'"
  have "gc env claimed coverage D = None \<longleftrightarrow> shrink_coverage_rows vs coverage = None"
    using fails run by (cases "shrink_coverage_rows vs coverage") auto
  then show ?thesis using vs by (auto simp: shrink_coverage_rows_None)
qed

end
