(* ===== verification/Store_Runs.thy ===== *)
theory Store_Runs
  imports Store_Lifecycle
begin

text \<open>
  Runs of the store: any sequence of deliveries, batches, removals, expiry and collection passes, and
  the theorems on the event store.

  An event id is a hash of everything but the signature. For the events \<open>U\<close> that are ever delivered
  this is the assumption \<open>collision_free env U\<close>. A relay URL is the text \<open>RelayUrl::parse\<close> gives
  back, and the surrogate key spaces have room for the deliveries of the run.
\<close>

section \<open>Runs\<close>

datatype store_op =
    OpInsert event relay_observed
  | OpBatch "(event \<times> relay_observed) list"
  | OpRemove string
  | OpExpire u64
  | OpCollect "event \<Rightarrow> bool" coverage_table

fun exec_op :: "store_env \<Rightarrow> store_op \<Rightarrow> 'op ingest_txn \<Rightarrow> 'op ingest_txn option" where
  "exec_op env (OpInsert e from) D = map_option snd (store_insert env e from D)"
| "exec_op env (OpBatch events) D = map_option snd (insert_batch env events D)"
| "exec_op env (OpRemove eid) D = map_option snd (store_remove env eid D)"
| "exec_op env (OpExpire now) D = map_option snd (expire_due env now D)"
| "exec_op env (OpCollect claimed coverage) D = map_option snd (gc env claimed coverage D)"

fun exec_ops :: "store_env \<Rightarrow> store_op list \<Rightarrow> 'op ingest_txn \<Rightarrow> 'op ingest_txn option" where
  "exec_ops env [] D = Some D"
| "exec_ops env (op # ops) D = do { D \<leftarrow> exec_op env op D; exec_ops env ops D }"

fun deliveries :: "store_op \<Rightarrow> (event \<times> relay_observed) list" where
  "deliveries (OpInsert e from) = [(e, from)]"
| "deliveries (OpBatch events) = events"
| "deliveries (OpRemove _) = []"
| "deliveries (OpExpire _) = []"
| "deliveries (OpCollect _ _) = []"

fun coverage_wf :: "store_op \<Rightarrow> bool" where
  "coverage_wf (OpCollect _ coverage) = (\<forall>k iv. fmlookup coverage k = Some iv \<longrightarrow> iv_from iv \<le> iv_through iv)"
| "coverage_wf _ = True"

definition op_ok :: "store_env \<Rightarrow> event set \<Rightarrow> store_op \<Rightarrow> bool" where
  "op_ok env U op \<longleftrightarrow>
     coverage_wf op \<and> (\<forall>(e, from) \<in> set (deliveries op). e \<in> U \<and> se_parse_relay env (ro_relay from) = Some (ro_relay from))"

definition collision_free :: "store_env \<Rightarrow> event set \<Rightarrow> bool" where
  "collision_free env U \<longleftrightarrow> (\<forall>e \<in> U. \<forall>e' \<in> U. ev_id e = ev_id e' \<longrightarrow> same_body env e e')"

definition held_in :: "event set \<Rightarrow> store_spec \<Rightarrow> bool" where
  "held_in U S \<longleftrightarrow> (\<forall>eid r. sp_rows S eid = Some r \<longrightarrow> fst r \<in> U)"

text \<open>Deletion facts are never forgotten.\<close>

definition facts_kept :: "store_spec \<Rightarrow> store_spec \<Rightarrow> bool" where
  "facts_kept S S' \<longleftrightarrow>
     sp_ids S \<subseteq> sp_ids S' \<and> (\<forall>a c. sp_ceilings S a = Some c \<longrightarrow> (\<exists>c'. sp_ceilings S' a = Some c' \<and> c \<le> c'))"

lemma facts_kept_refl [simp]: "facts_kept S S"
  by (simp add: facts_kept_def)

lemma facts_kept_trans: "facts_kept S S' \<Longrightarrow> facts_kept S' S'' \<Longrightarrow> facts_kept S S''"
  unfolding facts_kept_def by (meson order.trans subset_trans)

lemma facts_kept_refuses: "facts_kept S S' \<Longrightarrow> spec_refuses env e S \<Longrightarrow> spec_refuses env e S'"
  unfolding facts_kept_def spec_refuses_def by (meson order.trans subsetD)

lemma facts_kept_drop_rows [simp]: "facts_kept S (drop_rows P S')  = facts_kept S S'"
  and facts_kept_put [simp]: "facts_kept S (put_spec_row eid r S') = facts_kept S S'"
  by (simp_all add: facts_kept_def put_spec_row_def)

lemma facts_kept_delete: "facts_kept S (spec_delete env d S)"
proof -
  have "facts_kept S (spec_delete_ids d ids S)" for ids by (auto simp: facts_kept_def spec_delete_ids_def)
  moreover have "facts_kept S' (spec_delete_coords env d cs S')" for cs S'
    by (auto simp: facts_kept_def spec_delete_coords_def le_newest)
  ultimately show ?thesis unfolding spec_delete_def by (blast intro: facts_kept_trans)
qed

lemma facts_kept_insert: "facts_kept S (snd (spec_insert env e from S))"
proof -
  have "facts_kept S (spec_delete env e (put_spec_row eid r S'))" if "facts_kept S S'" for eid r S'
    using facts_kept_trans[OF _ facts_kept_delete, of S "put_spec_row eid r S'"] that by simp
  then show ?thesis
    by (auto simp: spec_insert_def spec_merge_def spec_admit_def Let_def split: option.split)
qed

lemma held_in_drop_rows: "held_in U S \<Longrightarrow> held_in U (drop_rows P S)"
  by (auto simp: held_in_def split: option.splits if_splits)

lemma held_in_put: "held_in U S \<Longrightarrow> fst r \<in> U \<Longrightarrow> held_in U (put_spec_row eid r S)"
  by (auto simp: held_in_def put_spec_row_def)

lemma held_in_delete: "held_in U S \<Longrightarrow> held_in U (spec_delete env d S)"
  by (auto simp: held_in_def spec_delete_def spec_delete_coords_def spec_delete_ids_def split: option.splits if_splits)

lemma held_in_insert:
  assumes "held_in U S" "e \<in> U"
  shows "held_in U (snd (spec_insert env e from S))"
proof -
  have "fst r \<in> U" if "sp_rows S (ev_id e) = Some r" for r using assms(1) that unfolding held_in_def by blast
  then show ?thesis using assms
    by (auto simp: spec_insert_def spec_merge_def spec_admit_def Let_def split: option.split
        intro!: held_in_put held_in_delete held_in_drop_rows)
qed

lemma body_agrees_held: "collision_free env U \<Longrightarrow> held_in U S \<Longrightarrow> keyed S \<Longrightarrow> e \<in> U \<Longrightarrow> body_agrees env e S"
  unfolding collision_free_def held_in_def body_agrees_def keyed_def by metis

lemma keyed_delete: "keyed S \<Longrightarrow> keyed (spec_delete env d S)"
  by (auto simp: keyed_def spec_delete_def spec_delete_coords_def spec_delete_ids_def split: option.splits if_splits)

lemma spec_insert_keyed:
  assumes "keyed S"
  shows "keyed (snd (spec_insert env e from S))"
proof (cases "sp_rows S (ev_id e)")
  case (Some r)
  then have "ev_id (fst r) = ev_id e" by (rule keyedD[OF assms])
  then show ?thesis using assms Some
    by (auto simp: spec_insert_def spec_merge_def Let_def split: prod.split intro!: keyed_put keyed_delete)
next
  case None
  then show ?thesis using assms
    by (auto simp: spec_insert_def spec_admit_def Let_def intro!: keyed_put keyed_drop_rows keyed_delete)
qed

lemma spec_insert_each_facts:
  assumes "collision_free env U" "held_in U S" "keyed S" "\<forall>(e, from) \<in> set events. e \<in> U"
  shows "bodies_agree env events S \<and> held_in U (snd (spec_insert_each env events S)) \<and> facts_kept S (snd (spec_insert_each env events S))"
  using assms
proof (induction events arbitrary: S)
  case (Cons p events)
  obtain e "from" where p: "p = (e, from)" by force
  let ?S = "snd (spec_insert env e from S)"
  have e: "e \<in> U" using Cons.prems(4) p by simp
  from Cons.IH[OF Cons.prems(1) held_in_insert[OF Cons.prems(2) e] spec_insert_keyed[OF Cons.prems(3)], where env1 = env and from1 = "from"] Cons.prems(4)
  have ih: "bodies_agree env events ?S" "held_in U (snd (spec_insert_each env events ?S))" "facts_kept ?S (snd (spec_insert_each env events ?S))"
    by auto
  then show ?case using p body_agrees_held[OF Cons.prems(1-3) e] facts_kept_trans[OF facts_kept_insert ih(3)]
    by (simp add: case_prod_beta Let_def)
qed simp

lemma exec_op_ok:
  assumes "durable_ok env D" "collision_free env U" "held_in U (store_abs D)" "op_ok env U op" "room (length (deliveries op)) D"
  shows "\<exists>D'. exec_op env op D = Some D' \<and> durable_ok env D' \<and> held_in U (store_abs D') \<and> facts_kept (store_abs D) (store_abs D') \<and>
    keys_within (length (deliveries op)) D D'"
proof -
  have keyed: "keyed (store_abs D)" using keyed_abs[OF begin_txn_ok(1)[OF assms(1)]] begin_txn_ok(2)[OF assms(1)] by simp
  show ?thesis
  proof (cases op)
    case (OpInsert e "from")
    have e: "e \<in> U" "se_parse_relay env (ro_relay from) = Some (ro_relay from)" "room 1 D"
      using assms(4,5) OpInsert by (simp_all add: op_ok_def)
    from store_insert_ok[OF assms(1) body_agrees_held[OF assms(2,3) keyed e(1)] e(2,3)] obtain out D' where
      r: "store_insert env e from D = Some (out, D')" "durable_ok env D'" "(abs_outcome out, store_abs D') = spec_insert env e from (store_abs D)"
        "one_key_each D D'" by blast
    have "store_abs D' = snd (spec_insert env e from (store_abs D))" by (simp add: r(3)[symmetric])
    then show ?thesis using OpInsert r held_in_insert[OF assms(3) e(1)] facts_kept_insert by simp
  next
    case (OpBatch events)
    have e: "\<forall>(e, from) \<in> set events. e \<in> U" "\<forall>(e, from) \<in> set events. se_parse_relay env (ro_relay from) = Some (ro_relay from)"
      "room (length events) D" using assms(4,5) OpBatch by (auto simp: op_ok_def)
    note f = spec_insert_each_facts[OF assms(2,3) keyed e(1)]
    from insert_batch_ok[OF assms(1) conjunct1[OF f] e(2,3)] obtain outs D' where
      r: "insert_batch env events D = Some (outs, D')" "durable_ok env D'" "keys_within (length events) D D'"
        "(map abs_outcome outs, store_abs D') = spec_insert_each env events (store_abs D)" by blast
    have "store_abs D' = snd (spec_insert_each env events (store_abs D))" by (simp add: r(4)[symmetric])
    then show ?thesis using OpBatch r f by simp
  next
    case (OpRemove eid)
    then show ?thesis using store_remove_ok[OF assms(1), of eid] assms(3) by (auto simp: held_in_drop_rows keys_within_same)
  next
    case (OpExpire now)
    then show ?thesis using expire_due_ok[OF assms(1), of now] assms(3) by (auto simp: held_in_drop_rows keys_within_same)
  next
    case (OpCollect claimed coverage)
    then show ?thesis using gc_ok[OF assms(1), of coverage claimed] assms(3,4) by (auto simp: op_ok_def held_in_drop_rows keys_within_same)
  qed
qed

lemma exec_ops_ok:
  assumes "durable_ok env D" "collision_free env U" "held_in U (store_abs D)" "\<forall>op \<in> set ops. op_ok env U op"
    "room (length (concat (map deliveries ops))) D"
  shows "\<exists>D'. exec_ops env ops D = Some D' \<and> durable_ok env D' \<and> held_in U (store_abs D') \<and> facts_kept (store_abs D) (store_abs D')"
  using assms
proof (induction ops arbitrary: D)
  case (Cons op ops)
  have "room (length (deliveries op)) D" using Cons.prems(5) by (simp add: room_def event_room_def relay_room_def)
  then obtain D1 where r: "exec_op env op D = Some D1" "durable_ok env D1" "held_in U (store_abs D1)" "facts_kept (store_abs D) (store_abs D1)"
    "keys_within (length (deliveries op)) D D1" using exec_op_ok[OF Cons.prems(1-3), of op] Cons.prems(4) by auto
  have "room (length (concat (map deliveries ops))) D1" using room_step[OF _ r(5)] Cons.prems(5) by simp
  with Cons.IH[OF r(2) Cons.prems(2) r(3)] Cons.prems(4) obtain D2 where s: "exec_ops env ops D1 = Some D2" "durable_ok env D2"
    "held_in U (store_abs D2)" "facts_kept (store_abs D1) (store_abs D2)" by auto
  then show ?case using r(1) facts_kept_trans[OF r(4) s(4)] by auto
qed simp

declare store_abs_sel [simp del]

section \<open>A small store\<close>

text \<open>Two concrete states on which the theorems are exercised: the tables of a new database, and the
  tables after one event of relay \<open>r\<close>. The tag reader knows one expiring content.\<close>

definition sample_env :: store_env where
  "sample_env =
     \<lparr>se_tags = \<lparr>tr_identifier = (\<lambda>_. None), tr_expiration = (\<lambda>e. if ev_content e = ''brief'' then Some 50 else None),
                tr_is_expired_at = (\<lambda>e now. ev_content e = ''brief'' \<and> 50 \<le> now), tr_event_ids = (\<lambda>_. []), tr_coordinates = (\<lambda>_. [])\<rparr>,
      se_parse_relay = Some, se_index_tags = (\<lambda>_. [])\<rparr>"

definition sample_event :: "string \<Rightarrow> u64 \<Rightarrow> u16 \<Rightarrow> string \<Rightarrow> event" where
  "sample_event eid at kind content =
     \<lparr>ev_id = eid, ev_pubkey = ''alice'', ev_created_at = at, ev_kind = kind, ev_tags = [], ev_content = content, ev_sig = ''s''\<rparr>"

definition seen_at :: "relay_url \<Rightarrow> u64 \<Rightarrow> relay_observed" where
  "seen_at url at = \<lparr>ro_relay = url, ro_at = at\<rparr>"

definition empty_store :: "unit ingest_txn" where
  "empty_store =
     \<lparr>tx_canonical = \<lparr>ct_rows = fmempty, ct_local = fmempty, ct_observations = fmempty, ct_event_ids = fmempty,
        ct_meta_next_event_key = None, ct_meta_next_relay_key = None, ct_relays = fmempty, ct_relay_ids = fmempty,
        ct_next_event_key = 1, ct_next_relay_key = 1, ct_event_allocator_dirty = False, ct_relay_allocator_dirty = False,
        ct_relay_ref_counts = fmempty\<rparr>,
      tx_addr_index = fmempty, tx_id_tombstones = fmempty, tx_addr_tombstones = fmempty, tx_expiration_index = fmempty,
      tx_intents = fmempty, tx_receipts = fmempty, tx_displaced = fmempty, tx_kind5_claims = fmempty, tx_id_suppress = fmempty,
      tx_addr_suppress = fmempty, tx_postings = \<lparr>pb_additions = fmempty, pb_deaths = {||}\<rparr>\<rparr>"

definition one_row_store :: "event \<Rightarrow> unit ingest_txn" where
  "one_row_store e =
     empty_store
       \<lparr>tx_canonical := \<lparr>ct_rows = fmupd 1 e fmempty, ct_local = fmempty, ct_observations = fmupd (1, 1) 100 fmempty,
          ct_event_ids = fmupd (ev_id e) 1 fmempty, ct_meta_next_event_key = Some 2, ct_meta_next_relay_key = Some 2,
          ct_relays = fmupd 1 (1, ''r'') fmempty, ct_relay_ids = fmupd ''r'' 1 fmempty, ct_next_event_key = 2, ct_next_relay_key = 2,
          ct_event_allocator_dirty = False, ct_relay_allocator_dirty = False, ct_relay_ref_counts = fmempty\<rparr>,
        tx_addr_index := (case addr_of sample_env e of None \<Rightarrow> fmempty | Some a \<Rightarrow> fmupd a 1 fmempty),
        tx_expiration_index := (case tr_expiration (se_tags sample_env) e of None \<Rightarrow> fmempty | Some ts \<Rightarrow> fmupd (ts, ev_id e) 1 fmempty)\<rparr>"

lemmas sample_defs = sample_env_def sample_event_def seen_at_def

lemma empty_store_ok: "durable_ok sample_env empty_store" "room n empty_store \<longleftrightarrow> n < 2 ^ 32 - 1"
  "durable_ok sample_env (empty_store\<lparr>tx_id_tombstones := T\<rparr>)"
  by (auto simp: durable_ok_def canon_core_def rows_ok_def relays_ok_def refs_ok_def allocator_ok_def settled_def addr_ok_def exp_ok_def
      live_ok_def journal_ok_def empty_store_def store_abs_def view_def room_def event_room_def relay_room_def)

lemma empty_store_abs: "store_abs empty_store = \<lparr>sp_rows = Map.empty, sp_ids = {}, sp_ceilings = Map.empty\<rparr>"
  by (auto simp: empty_store_def store_abs_def view_def)

lemma one_row_store_view: "sp_rows (store_abs (one_row_store e)) = [ev_id e \<mapsto> (e, [''r'' \<mapsto> 100], None)]"
  by (auto simp: one_row_store_def empty_store_def store_abs_def view_def seen_of_def fun_eq_iff split: option.splits)

lemma one_row_store_ok: "durable_ok sample_env (one_row_store e)" "room n (one_row_store e) \<longleftrightarrow> n < 2 ^ 32 - 2"
proof -
  have o: "observers (fmupd (1, 1) 100 fmempty) 1 = {1}" by (auto simp: observers_def)
  have l: "live_ok sample_env (store_abs (one_row_store e))"
    by (simp add: live_ok_def one_row_store_view spec_refuses_def) (simp add: store_abs_def one_row_store_def empty_store_def)
  show "durable_ok sample_env (one_row_store e)"
    unfolding durable_ok_def
    by (intro conjI l; simp add: one_row_store_def empty_store_def canon_core_def rows_ok_def relays_ok_def refs_ok_def allocator_ok_def
        settled_def addr_ok_def exp_ok_def journal_ok_def effective_ref_def o sample_env_def split: option.split)
  show "room n (one_row_store e) \<longleftrightarrow> n < 2 ^ 32 - 2" by (auto simp: one_row_store_def room_def event_room_def relay_room_def)
qed

section \<open>Theorems\<close>

text \<open>C3: A relay delivery does to the tables what the abstract store says, on every branch (refusal,
  merge of a held id, adoption of the signature of a pending local row, supersession, stale, deletion
  request) and keeps every invariant of the tables. The posting runs get exactly the keys of the rows that
  are new as additions and exactly the keys of the rows that are gone as deaths, so a row that was
  indexed and stays is never posted again. The delivery fails only when a surrogate key space is used up.
  The intents a signature satisfies are not part of the abstract outcome.\<close>

theorem store_insert_refines:
  assumes "durable_ok env D" "body_agrees env e (store_abs D)" "se_parse_relay env (ro_relay from) = Some (ro_relay from)" "room 1 D"
  shows "\<exists>out D'. store_insert env e from D = Some (out, D') \<and> durable_ok env D' \<and>
    spec_insert env e from (store_abs D) = (abs_outcome out, store_abs D') \<and>
    fset (fmdom (pb_additions (tx_postings D'))) = held_keys D' - held_keys D \<and> fset (pb_deaths (tx_postings D')) = held_keys D - held_keys D'"
  using store_insert_ok[OF assms] by metis

theorem store_insert_refines_witness:
  "\<exists>out D'. store_insert sample_env (sample_event ''a'' 10 1 '''') (seen_at ''r'' 20) empty_store = Some (out, D') \<and>
     abs_outcome out = SpInserted \<and> sp_rows (store_abs D') ''a'' = Some (sample_event ''a'' 10 1 '''', [''r'' \<mapsto> 20], None)"
proof -
  let ?e = "sample_event ''a'' 10 1 ''''" and ?from = "seen_at ''r'' 20"
  have "body_agrees sample_env ?e (store_abs empty_store)" "room 1 empty_store" "se_parse_relay sample_env (ro_relay ?from) = Some (ro_relay ?from)"
    by (simp_all add: body_agrees_def store_abs_def empty_store_def view_def sample_defs room_def event_room_def relay_room_def)
  then obtain out D' where r: "store_insert sample_env ?e ?from empty_store = Some (out, D')"
    "spec_insert sample_env ?e ?from (store_abs empty_store) = (abs_outcome out, store_abs D')"
    using store_insert_refines[OF empty_store_ok(1)] by blast
  note r(2)
  moreover have "spec_insert sample_env ?e ?from (store_abs empty_store) =
      (SpInserted, put_spec_row ''a'' (?e, [''r'' \<mapsto> 20], None) (store_abs empty_store))"
    by (simp add: spec_insert_def spec_admit_def spec_refuses_def rows_where_def drop_rows_def empty_store_abs
        addr_of_def address_key_for_def is_replaceable_kind_def is_addressable_kind_def put_spec_row_def sample_defs)
  ultimately have out: "abs_outcome out = SpInserted" and row: "store_abs D' = put_spec_row ''a'' (?e, [''r'' \<mapsto> 20], None) (store_abs empty_store)"
    by simp_all
  have "sp_rows (store_abs D') ''a'' = Some (?e, [''r'' \<mapsto> 20], None)" unfolding row by (simp add: put_spec_row_def)
  then show ?thesis using r(1) out by blast
qed

text \<open>C6: A batch in one transaction gives the outcomes and the store of its deliveries one after
  the other, both read through the abstraction (which leaves out the intents a signature satisfies).\<close>

theorem insert_batch_sequential:
  assumes "durable_ok env D" "bodies_agree env events (store_abs D)"
    "\<forall>(e, from) \<in> set events. se_parse_relay env (ro_relay from) = Some (ro_relay from)" "room (length events) D"
  shows "\<exists>outs D'. insert_batch env events D = Some (outs, D') \<and> durable_ok env D' \<and>
    spec_insert_each env events (store_abs D) = (map abs_outcome outs, store_abs D')"
  using insert_batch_ok[OF assms] by metis

theorem insert_batch_sequential_witness:
  "\<exists>outs D'. insert_batch sample_env [(sample_event ''a'' 10 1 '''', seen_at ''r'' 20), (sample_event ''a'' 10 1 '''', seen_at ''q'' 21)]
      (one_row_store (sample_event ''a'' 10 1 '''')) = Some (outs, D') \<and>
     map abs_outcome outs = [SpDuplicate False False, SpDuplicate True False] \<and>
     sp_rows (store_abs D') ''a'' = Some (sample_event ''a'' 10 1 '''', [''r'' \<mapsto> 100, ''q'' \<mapsto> 21], None)"
proof -
  let ?e = "sample_event ''a'' 10 1 ''''"
  let ?events = "[(?e, seen_at ''r'' 20), (?e, seen_at ''q'' 21)]"
  have id: "ev_id ?e = ''a''" by (simp add: sample_defs)
  have merge: "spec_insert sample_env ?e (seen_at url at) S =
      (SpDuplicate (seen url \<noteq> Some (newest (seen url) at)) False, put_spec_row ''a'' (?e, seen(url \<mapsto> newest (seen url) at), None) S)"
    if "sp_rows S ''a'' = Some (?e, seen, None)" for S seen url at
    using that by (simp add: spec_insert_def spec_merge_def awaits_signature_def Let_def sample_defs)
  have row: "sp_rows (store_abs (one_row_store ?e)) ''a'' = Some (?e, [''r'' \<mapsto> 100], None)" by (simp add: one_row_store_view id)
  have "bodies_agree sample_env ?events (store_abs (one_row_store ?e))" "room (length ?events) (one_row_store ?e)"
    by (simp_all add: body_agrees_def id row merge put_spec_row_def same_body_def one_row_store_ok(2))
  moreover have "\<forall>(e, from) \<in> set ?events. se_parse_relay sample_env (ro_relay from) = Some (ro_relay from)" by (simp add: sample_env_def)
  ultimately obtain outs D' where r: "insert_batch sample_env ?events (one_row_store ?e) = Some (outs, D')"
    "spec_insert_each sample_env ?events (store_abs (one_row_store ?e)) = (map abs_outcome outs, store_abs D')"
    using insert_batch_sequential[OF one_row_store_ok(1)] by blast
  have "sp_rows (snd (map abs_outcome outs, store_abs D')) ''a'' = Some (?e, [''r'' \<mapsto> 100, ''q'' \<mapsto> 21], None)"
    "fst (map abs_outcome outs, store_abs D') = [SpDuplicate False False, SpDuplicate True False]"
    unfolding r(2)[symmetric] by (simp_all add: merge row put_spec_row_def newest_def)
  then have "map abs_outcome outs = [SpDuplicate False False, SpDuplicate True False]"
    "sp_rows (store_abs D') ''a'' = Some (?e, [''r'' \<mapsto> 100, ''q'' \<mapsto> 21], None)" by (simp_all)
  with r(1) show ?thesis by (intro exI conjI)
qed

text \<open>C4: Deletion is permanent. Over any run of deliveries, batches, removals, expiry and collection
  passes with room in the key spaces and no inverted coverage row, every operation succeeds, the invariants hold at the end, and no
  event held at the end falls under a deletion fact known at the start, however often it is delivered.\<close>

theorem deleted_events_stay_deleted:
  assumes "durable_ok env D" "collision_free env U" "held_in U (store_abs D)" "\<forall>op \<in> set ops. op_ok env U op"
    "room (length (concat (map deliveries ops))) D"
  shows "\<exists>D'. exec_ops env ops D = Some D' \<and> durable_ok env D' \<and>
    (\<forall>eid r. sp_rows (store_abs D') eid = Some r \<longrightarrow> fst r \<in> U \<and> \<not> spec_refuses env (fst r) (store_abs D))"
proof -
  from exec_ops_ok[OF assms] obtain D' where D': "exec_ops env ops D = Some D'" "durable_ok env D'" "held_in U (store_abs D')"
    "facts_kept (store_abs D) (store_abs D')" by blast
  have "live_ok env (store_abs D')" using D'(2) by (simp add: durable_ok_def)
  then have "fst r \<in> U \<and> \<not> spec_refuses env (fst r) (store_abs D)" if "sp_rows (store_abs D') eid = Some r" for eid r
    using that D'(3) facts_kept_refuses[OF D'(4)] unfolding live_ok_def held_in_def by blast
  then show ?thesis using D'(1,2) by blast
qed

theorem deleted_events_stay_deleted_witness:
  "\<exists>D'. exec_ops sample_env [OpInsert (sample_event ''t'' 10 1 '''') (seen_at ''r'' 20), OpExpire 30, OpInsert (sample_event ''t'' 10 1 '''') (seen_at ''q'' 40)]
      (empty_store\<lparr>tx_id_tombstones := fmupd (''t'', ''alice'') ''d'' fmempty\<rparr>) = Some D' \<and> sp_rows (store_abs D') ''t'' = None"
proof -
  let ?e = "sample_event ''t'' 10 1 ''''" and ?D = "empty_store\<lparr>tx_id_tombstones := fmupd (''t'', ''alice'') ''d'' fmempty\<rparr>"
  let ?ops = "[OpInsert ?e (seen_at ''r'' 20), OpExpire 30, OpInsert ?e (seen_at ''q'' 40)]"
  have "collision_free sample_env {?e}" "held_in {?e} (store_abs ?D)" "\<forall>op \<in> set ?ops. op_ok sample_env {?e} op"
    "room (length (concat (map deliveries ?ops))) ?D"
    by (simp_all add: collision_free_def same_body_def held_in_def store_abs_def empty_store_def view_def op_ok_def sample_env_def
        room_def event_room_def relay_room_def)
  then obtain D' where D': "exec_ops sample_env ?ops ?D = Some D'"
    "\<forall>eid r. sp_rows (store_abs D') eid = Some r \<longrightarrow> fst r \<in> {?e} \<and> \<not> spec_refuses sample_env (fst r) (store_abs ?D)"
    using deleted_events_stay_deleted[OF empty_store_ok(3)] by blast
  have "spec_refuses sample_env ?e (store_abs ?D)" by (simp add: spec_refuses_def store_abs_def empty_store_def sample_event_def)
  then have "sp_rows (store_abs D') ''t'' = None" using D'(2) by (metis option.exhaust singletonD)
  then show ?thesis using D'(1) by blast
qed

lemma spec_insert_removes:
  assumes "body_agrees env e S" "sp_rows S eid = Some r" "sp_rows (snd (spec_insert env e from S)) eid = None"
  shows "ev_pubkey (fst r) = ev_pubkey e \<or> rival env e (fst r) \<or> names_address env e (tr_coordinates (se_tags env) e) (fst r)"
proof (cases "eid = ev_id e")
  case True
  then have "same_body env e (fst r)" using assms(1,2) unfolding body_agrees_def by blast
  then show ?thesis by (simp add: same_body_def)
next
  case False
  have gone: "ev_pubkey (fst r) = ev_pubkey e \<or> names_address env e (tr_coordinates (se_tags env) e) (fst r)"
    if "sp_rows (spec_delete env e S') eid = None" "sp_rows S' eid = Some r" for S'
    using that by (auto simp: spec_delete_def spec_delete_coords_def spec_delete_ids_def names_id_def split: option.splits if_splits)
  have put: "sp_rows (put_spec_row (ev_id e) r' S') eid = sp_rows S' eid" for r' S' using False by (simp add: put_spec_row_def)
  show ?thesis
  proof (cases "rival env e (fst r)")
    case other: False
    then have "sp_rows (drop_rows (rival env e) S) eid = Some r" using assms(2) by simp
    then show ?thesis using assms(2,3) gone put
      by (auto simp: spec_insert_def spec_merge_def spec_admit_def Let_def split: option.splits if_splits prod.splits)
  qed simp
qed

lemma key_author_address_key_for: "address_key_for rd e = Some key \<Longrightarrow> key_author key = ev_pubkey e"
  by (auto simp: address_key_for_def split: if_splits)

lemma key_author_address_key_for_coordinate: "address_key_for_coordinate c = Some key \<Longrightarrow> key_author key = co_public_key c"
  by (auto simp: address_key_for_coordinate_def split: if_splits)

text \<open>C5: A delivery removes only rows of its own author, by supersession or by deletion request,
  whatever ids and addresses its tags name. Author keys are hexadecimal, so they hold no NUL.\<close>

theorem delivery_removes_own_rows:
  assumes "durable_ok env D" "body_agrees env e (store_abs D)" "se_parse_relay env (ro_relay from) = Some (ro_relay from)" "room 1 D"
    "store_insert env e from D = Some (out, D')" "sp_rows (store_abs D) eid = Some r" "sp_rows (store_abs D') eid = None"
    "NUL \<notin> set (ev_pubkey e)" "NUL \<notin> set (ev_pubkey (fst r))"
  shows "ev_pubkey (fst r) = ev_pubkey e"
proof -
  have "store_abs D' = snd (spec_insert env e from (store_abs D))" using store_insert_ok[OF assms(1-4)] assms(5) by (metis option.inject prod.inject snd_conv)
  with spec_insert_removes[OF assms(2,6), of "from"] assms(7)
  consider "ev_pubkey (fst r) = ev_pubkey e" | "rival env e (fst r)" | "names_address env e (tr_coordinates (se_tags env) e) (fst r)" by auto
  then show ?thesis
  proof cases
    case 2
    then obtain k k' where k: "address_key_for (se_tags env) e = Some k" "address_key_for (se_tags env) (fst r) = Some k'" "to_redb_key k = to_redb_key k'"
      by (auto simp: rival_def addr_of_def)
    then have "k = k'" using to_redb_key_inject[of k k'] assms(8,9) key_author_address_key_for by auto
    then show ?thesis using k key_author_address_key_for by metis
  next
    case 3
    then obtain c k k' where k: "co_public_key c = ev_pubkey e" "address_key_for_coordinate c = Some k"
        "address_key_for (se_tags env) (fst r) = Some k'" "to_redb_key k = to_redb_key k'"
      by (auto simp: names_address_def named_addresses_def coord_of_def addr_of_def)
    then have "k = k'"
      using to_redb_key_inject[of k k'] assms(8,9) key_author_address_key_for key_author_address_key_for_coordinate by auto
    then show ?thesis using k key_author_address_key_for key_author_address_key_for_coordinate by metis
  qed
qed

theorem delivery_removes_own_rows_witness:
  "\<exists>out D' r. store_insert sample_env (sample_event ''b'' 11 0 '''') (seen_at ''r'' 20) (one_row_store (sample_event ''a'' 10 0 '''')) = Some (out, D') \<and>
     sp_rows (store_abs (one_row_store (sample_event ''a'' 10 0 ''''))) ''a'' = Some r \<and> sp_rows (store_abs D') ''a'' = None \<and>
     ev_pubkey (fst r) = ev_pubkey (sample_event ''b'' 11 0 '''')"
proof -
  let ?a = "sample_event ''a'' 10 0 ''''" and ?b = "sample_event ''b'' 11 0 ''''" and ?from = "seen_at ''r'' 20"
  let ?D = "one_row_store ?a"
  have ids: "ev_id ?a = ''a''" "ev_id ?b = ''b''" by (simp_all add: sample_defs)
  have row: "sp_rows (store_abs ?D) = [''a'' \<mapsto> (?a, [''r'' \<mapsto> 100], None)]" using one_row_store_view[of ?a] by (simp add: ids)
  have same: "addr_of sample_env ?a = addr_of sample_env ?b" "addr_of sample_env ?b \<noteq> None"
    by (simp_all add: addr_of_def address_key_for_def is_replaceable_kind_def is_addressable_kind_def sample_defs)
  have "rival sample_env ?b ?a" "candidate_wins ?b ?a" "ev_kind ?b \<noteq> KIND_EVENT_DELETION" "\<not> tr_is_expired_at (se_tags sample_env) ?b 20"
    using same by (simp_all add: rival_def candidate_wins_def sample_defs)
  moreover have "\<not> spec_refuses sample_env ?b (store_abs ?D)" by (simp add: spec_refuses_def store_abs_def one_row_store_def empty_store_def)
  ultimately have gone: "sp_rows (snd (spec_insert sample_env ?b ?from (store_abs ?D))) ''a'' = None"
    by (auto simp: spec_insert_def row ids spec_admit_def Let_def rows_where_def put_spec_row_def seen_at_def split: if_splits)
  have h: "body_agrees sample_env ?b (store_abs ?D)" "se_parse_relay sample_env (ro_relay ?from) = Some (ro_relay ?from)" "room 1 ?D"
    by (simp_all add: body_agrees_def row ids sample_env_def one_row_store_ok(2))
  obtain out D' where r: "store_insert sample_env ?b ?from ?D = Some (out, D')"
    "(abs_outcome out, store_abs D') = spec_insert sample_env ?b ?from (store_abs ?D)"
    using store_insert_ok[OF one_row_store_ok(1) h] by blast
  have "sp_rows (store_abs D') ''a'' = None" using gone by (simp add: r(2)[symmetric])
  moreover from delivery_removes_own_rows[OF one_row_store_ok(1) h r(1) _ this, of "(?a, [''r'' \<mapsto> 100], None)"]
  have "ev_pubkey ?a = ev_pubkey ?b" by (simp add: row) (simp add: sample_defs)
  ultimately show ?thesis using r(1) row by simp
qed

lemma next_expiration_held:
  assumes "durable_ok env D" "next_expiration D = Some ts"
  shows "\<exists>eid r. sp_rows (store_abs D) eid = Some r \<and> tr_expiration (se_tags env) (fst r) = Some ts"
proof -
  obtain eid k where "((ts, eid), k) \<in> set (sorted_list_of_fmap (tx_expiration_index D))"
    using assms(2) by (auto simp: next_expiration_def split: list.splits)
  then have "fmlookup (tx_expiration_index D) (ts, eid) = Some k" by (simp add: set_sorted_list_of_fmap)
  moreover have "exp_ok env (ct_rows (tx_canonical D)) (tx_expiration_index D)" using assms(1) by (simp add: durable_ok_def)
  ultimately obtain e where e: "fmlookup (ct_rows (tx_canonical D)) k = Some e" "tr_expiration (se_tags env) e = Some ts"
    using exp_okD by fastforce
  have "canon_ok env (tx_canonical D)" using assms(1) by (simp add: durable_ok_def)
  then have "sp_rows (store_abs D) (ev_id e) = Some (e, seen_of (tx_canonical D) k, fmlookup (ct_local (tx_canonical D)) k)"
    using view_Some_iff e(1) by (auto simp: store_abs_sel)
  then show ?thesis using e(2) by fastforce
qed

text \<open>C7: An expiry pass removes and reports exactly the rows whose expiration has come, and the next
  deadline it leaves lies in the future.\<close>

theorem expire_due_exact:
  assumes "durable_ok env D"
  shows "\<exists>rs D'. expire_due env now D = Some (rs, D') \<and> durable_ok env D' \<and>
    store_abs D' = drop_rows (expires_by env now) (store_abs D) \<and>
    row_of ` set rs = rows_where (expires_by env now) (store_abs D) \<and>
    (\<forall>ts. next_expiration D' = Some ts \<longrightarrow> now < ts)"
proof -
  from expire_due_ok[OF assms, of now] obtain rs D' where r: "expire_due env now D = Some (rs, D')" "durable_ok env D'"
    "store_abs D' = drop_rows (expires_by env now) (store_abs D)" "row_of ` set rs = rows_where (expires_by env now) (store_abs D)" by blast
  have "now < ts" if "next_expiration D' = Some ts" for ts
  proof -
    from next_expiration_held[OF r(2) that] obtain eid row where "sp_rows (store_abs D') eid = Some row"
      "tr_expiration (se_tags env) (fst row) = Some ts" by blast
    then show ?thesis unfolding r(3) by (auto simp: expires_by_def not_le split: option.splits if_splits)
  qed
  then show ?thesis using r by blast
qed

theorem expire_due_exact_witness:
  "\<exists>rs D'. expire_due sample_env 60 (one_row_store (sample_event ''a'' 10 1 ''brief'')) = Some (rs, D') \<and>
     row_of ` set rs = {(sample_event ''a'' 10 1 ''brief'', [''r'' \<mapsto> 100], None)} \<and> sp_rows (store_abs D') ''a'' = None"
proof -
  let ?e = "sample_event ''a'' 10 1 ''brief''"
  have row: "sp_rows (store_abs (one_row_store ?e)) = [''a'' \<mapsto> (?e, [''r'' \<mapsto> 100], None)]" using one_row_store_view[of ?e] by (simp add: sample_defs)
  have "expires_by sample_env 60 ?e" by (simp add: expires_by_def sample_defs)
  then have "rows_where (expires_by sample_env 60) (store_abs (one_row_store ?e)) = {(?e, [''r'' \<mapsto> 100], None)}"
    "sp_rows (drop_rows (expires_by sample_env 60) (store_abs (one_row_store ?e))) ''a'' = None"
    by (auto simp: rows_where_def row split: if_splits)
  then show ?thesis using expire_due_exact[OF one_row_store_ok(1), of 60 ?e] by metis
qed

text \<open>C8: Over coverage rows that do not start after they end, a collection pass evicts exactly the rows that hold no address, await no signature, are not
  hidden by an open deletion and are not claimed; it counts them, and afterwards no coverage row claims
  the time of an evicted event.\<close>

theorem gc_evicts_exactly:
  assumes "durable_ok env D" "\<forall>k iv. fmlookup coverage k = Some iv \<longrightarrow> iv_from iv \<le> iv_through iv"
  shows "\<exists>report coverage' D'. gc env claimed coverage D = Some ((report, coverage'), D') \<and> durable_ok env D' \<and>
    store_abs D' = drop_rows (collected env claimed D) (store_abs D) \<and>
    gr_events_evicted report = card {e. collected env claimed D e} \<and>
    (\<forall>k iv e. fmlookup coverage' k = Some iv \<longrightarrow> collected env claimed D e \<longrightarrow> ev_created_at e \<notin> interval_times iv)"
  using gc_ok[OF assms, of claimed] by blast

lemma sample_collected:
  "collected sample_env (\<lambda>_. False) (one_row_store (sample_event ''a'' 10 1 '''')) = (\<lambda>e. e = sample_event ''a'' 10 1 '''')"
proof -
  let ?e = "sample_event ''a'' 10 1 ''''"
  have row: "sp_rows (store_abs (one_row_store ?e)) = [''a'' \<mapsto> (?e, [''r'' \<mapsto> 100], None)]" using one_row_store_view[of ?e] by (simp add: sample_defs)
  have id: "ev_id ?e = ''a''" by (simp add: sample_event_def)
  have "collectable sample_env (\<lambda>_. False) (one_row_store ?e) (?e, None)"
    by (simp add: collectable_def is_suppressed_in_txn_def has_claimants_in_txn_def addr_has_covering_claimant_in_txn_def one_row_store_def
        empty_store_def word_le_nat_alt addr_of_def awaits_signature_def address_key_for_def is_replaceable_kind_def is_addressable_kind_def sample_defs)
  then show ?thesis using id by (intro ext) (auto simp: collected_def row split: if_splits)
qed

theorem gc_evicts_exactly_witness:
  "\<exists>report coverage' D'. gc sample_env (\<lambda>_. False) (fmupd ''c'' \<lparr>iv_from = 5, iv_through = 15\<rparr> fmempty) (one_row_store (sample_event ''a'' 10 1 '''')) =
      Some ((report, coverage'), D') \<and> gr_events_evicted report = 1 \<and> sp_rows (store_abs D') ''a'' = None \<and>
     (10::u64) \<notin> (\<Union>iv \<in> fset (fmran coverage'). interval_times iv)"
proof -
  let ?e = "sample_event ''a'' 10 1 ''''" and ?c = "fmupd ''c'' \<lparr>iv_from = 5, iv_through = 15\<rparr> fmempty"
  have row: "sp_rows (store_abs (one_row_store ?e)) = [''a'' \<mapsto> (?e, [''r'' \<mapsto> 100], None)]" using one_row_store_view[of ?e] by (simp add: sample_defs)
  have "\<forall>k iv. fmlookup ?c k = Some iv \<longrightarrow> iv_from iv \<le> iv_through iv" by simp
  from gc_evicts_exactly[OF one_row_store_ok(1) this, of "\<lambda>_. False" ?e] obtain report coverage' D' where
    g: "gc sample_env (\<lambda>_. False) ?c (one_row_store ?e) = Some ((report, coverage'), D')"
    "store_abs D' = drop_rows (\<lambda>e. e = ?e) (store_abs (one_row_store ?e))" "gr_events_evicted report = card {e. e = ?e}"
    "\<forall>k iv e. fmlookup coverage' k = Some iv \<longrightarrow> e = ?e \<longrightarrow> ev_created_at e \<notin> interval_times iv" unfolding sample_collected by blast
  have "sp_rows (store_abs D') ''a'' = None" by (simp add: g(2) row)
  moreover have "10 \<notin> (\<Union>iv \<in> fset (fmran coverage'). interval_times iv)"
    using g(4) by (auto simp: sample_event_def fmran'_alt_def[symmetric] fmlookup_ran'_iff)
  ultimately show ?thesis using g(1,3) by auto
qed

text \<open>C39: A collection pass over a consistent store fails in exactly one situation: some coverage row
  starts after it ends (a completed request whose \<open>since\<close> is later than the completion time records one)
  and an event the pass evicts was created strictly between the two. The victim index then slices a
  range whose start passes its end, which is a panic.\<close>

theorem gc_panics_on_inverted_row:
  assumes "durable_ok env D"
  shows "gc env claimed coverage D = None \<longleftrightarrow>
    (\<exists>k iv e. fmlookup coverage k = Some iv \<and> collected env claimed D e \<and> iv_through iv < ev_created_at e \<and> ev_created_at e < iv_from iv)"
  by (rule gc_None_iff[OF assms])

theorem gc_panics_on_inverted_row_witness:
  "gc sample_env (\<lambda>_. False) (fmupd ''c'' \<lparr>iv_from = 15, iv_through = 5\<rparr> fmempty) (one_row_store (sample_event ''a'' 10 1 '''')) = None"
  unfolding gc_panics_on_inverted_row[OF one_row_store_ok(1)] sample_collected
  by (rule exI[of _ "''c''"], rule exI[of _ "\<lparr>iv_from = 15, iv_through = 5\<rparr>"], rule exI[of _ "sample_event ''a'' 10 1 ''''"])
    (simp add: sample_event_def)

end
