(* ===== verification/Byte_Codec.thy ===== *)
theory Byte_Codec
  imports Nmp_Prelude
begin

text \<open>
  Byte-level vocabulary of the persisted formats: outcomes with typed errors and panics, checked
  slices, big-endian integers, UTF-8 and base-128 lengths.

  A Rust \<open>str\<close> is a list of characters whose codes are its bytes; \<open>from_utf8\<close> is the validity table of
  the Unicode standard, which \<open>std::str::from_utf8\<close> implements. \<open>usize\<close> has 64 bits and positions in a
  buffer are natural numbers.
\<close>

unbundle bit_operations_syntax

section \<open>Outcomes\<close>

datatype ('e, 'a) outcome = Done 'a | Failed 'e | Panicked

fun and_then :: "('e, 'a) outcome \<Rightarrow> ('a \<Rightarrow> ('e, 'b) outcome) \<Rightarrow> ('e, 'b) outcome" where
  "and_then (Done x) f = f x"
| "and_then (Failed e) f = Failed e"
| "and_then Panicked f = Panicked"

definition ok_or :: "'e \<Rightarrow> 'a option \<Rightarrow> ('e, 'a) outcome" where
  "ok_or e x = (case x of None \<Rightarrow> Failed e | Some v \<Rightarrow> Done v)"

definition ensure :: "bool \<Rightarrow> 'e \<Rightarrow> ('e, unit) outcome" where
  "ensure b e = (if b then Done () else Failed e)"

lemma ok_or_simps [simp]: "ok_or e (Some v) = Done v" "ok_or e None = Failed e"
  by (simp_all add: ok_or_def)

lemma ensure_simps [simp]: "ensure True e = Done ()" "ensure False e = Failed e"
  by (simp_all add: ensure_def)

lemma and_then_Done_iff: "and_then x f = Done y \<longleftrightarrow> (\<exists>v. x = Done v \<and> f v = Done y)"
  by (cases x) auto

lemma and_then_Panicked_iff: "and_then x f = Panicked \<longleftrightarrow> x = Panicked \<or> (\<exists>v. x = Done v \<and> f v = Panicked)"
  by (cases x) auto

lemma ok_or_iff [simp]: "ok_or e x = Done v \<longleftrightarrow> x = Some v" "ok_or e x \<noteq> Panicked"
  by (auto simp: ok_or_def split: option.split)

lemma ensure_iff [simp]: "ensure b e = Done u \<longleftrightarrow> b" "ensure b e \<noteq> Panicked"
  by (auto simp: ensure_def)

section \<open>Slices\<close>

definition get_range :: "'a list \<Rightarrow> nat \<Rightarrow> nat \<Rightarrow> 'a list option" where
  "get_range bytes a b = (if a \<le> b \<and> b \<le> length bytes then Some (take (b - a) (drop a bytes)) else None)"

text \<open>Indexing a slice out of range panics.\<close>

definition index_range :: "'a list \<Rightarrow> nat \<Rightarrow> nat \<Rightarrow> ('e, 'a list) outcome" where
  "index_range bytes a b = (case get_range bytes a b of None \<Rightarrow> Panicked | Some v \<Rightarrow> Done v)"

definition index_at :: "'a list \<Rightarrow> nat \<Rightarrow> ('e, 'a) outcome" where
  "index_at bytes i = (if i < length bytes then Done (bytes ! i) else Panicked)"

definition usize_add :: "nat \<Rightarrow> nat \<Rightarrow> nat option" where
  "usize_add a b = (if a + b < 2 ^ 64 then Some (a + b) else None)"

definition usize_mul :: "nat \<Rightarrow> nat \<Rightarrow> nat option" where
  "usize_mul a b = (if a * b < 2 ^ 64 then Some (a * b) else None)"

definition u32_try_from :: "nat \<Rightarrow> u32 option" where
  "u32_try_from n = (if n < 2 ^ 32 then Some (word_of_nat n) else None)"

lemma get_range_Some_iff:
  "get_range bytes a b = Some v \<longleftrightarrow> a \<le> b \<and> b \<le> length bytes \<and> v = take (b - a) (drop a bytes)"
  by (auto simp: get_range_def)

lemma get_range_None_iff: "get_range bytes a b = None \<longleftrightarrow> \<not> (a \<le> b \<and> b \<le> length bytes)"
  by (simp add: get_range_def)

lemma length_get_range: "get_range bytes a b = Some v \<Longrightarrow> length v = b - a"
  by (auto simp: get_range_def split: if_splits)

lemma get_range_append_mid [simp]: "get_range (pre @ v @ rest) (length pre) (length pre + length v) = Some v"
  by (simp add: get_range_def)

lemma usize_add_iff [simp]: "usize_add a b = Some c \<longleftrightarrow> c = a + b \<and> a + b < 2 ^ 64"
  by (auto simp: usize_add_def)

lemma usize_mul_iff [simp]: "usize_mul a b = Some c \<longleftrightarrow> c = a * b \<and> a * b < 2 ^ 64"
  by (auto simp: usize_mul_def)

lemma u32_try_from_iff [simp]: "u32_try_from n = Some w \<longleftrightarrow> n = unat w"
proof
  assume "n = unat w"
  then show "u32_try_from n = Some w" using unsigned_less[of w] by (simp add: u32_try_from_def)
qed (auto simp: u32_try_from_def unat_of_nat split: if_splits)

section \<open>Big-endian integers\<close>

fun be_bytes :: "nat \<Rightarrow> nat \<Rightarrow> u8 list" where
  "be_bytes 0 v = []"
| "be_bytes (Suc n) v = be_bytes n (v div 256) @ [word_of_nat v]"

definition be_nat :: "u8 list \<Rightarrow> nat" where
  "be_nat bytes = foldl (\<lambda>acc b. acc * 256 + unat b) 0 bytes"

definition to_be_bytes :: "'a::len word \<Rightarrow> u8 list" where
  "to_be_bytes w = be_bytes (LENGTH('a) div 8) (unat w)"

definition from_be_bytes :: "u8 list \<Rightarrow> 'a::len word" where
  "from_be_bytes bytes = word_of_nat (be_nat bytes)"

lemma length_be_bytes [simp]: "length (be_bytes n v) = n"
  by (induction n arbitrary: v) simp_all

lemma be_nat_simps [simp]: "be_nat [] = 0" "be_nat (bs @ [b]) = be_nat bs * 256 + unat b"
  by (simp_all add: be_nat_def)

lemma be_nat_be_bytes: "be_nat (be_bytes n v) = v mod 256 ^ n"
proof (induction n arbitrary: v)
  case (Suc n)
  have "v mod 256 ^ Suc n = v div 256 mod 256 ^ n * 256 + v mod 256" by (simp add: mod_mult2_eq)
  then show ?case by (simp add: Suc unat_of_nat)
qed simp

lemma unat_u8_less: "unat (b :: u8) < 256"
  using unsigned_less[of b] by simp

lemma be_nat_less: "be_nat bs < 256 ^ length bs"
proof (induction bs rule: rev_induct)
  case (snoc b bs)
  then have "be_nat bs * 256 + 256 \<le> 256 ^ length bs * 256" by simp
  then show ?case using unat_u8_less[of b] by simp
qed simp

lemma be_bytes_be_nat: "be_bytes (length bs) (be_nat bs) = bs"
proof (induction bs rule: rev_induct)
  case (snoc b bs)
  have "(be_nat bs * 256 + unat b) div 256 = be_nat bs" using unat_u8_less[of b] by simp
  moreover have "word_of_nat (be_nat bs * 256 + unat b) = b"
    using unat_u8_less[of b] by (intro unsigned_word_eqI[where ?'a = nat]) (simp add: unat_of_nat del: of_nat_add of_nat_mult)
  ultimately show ?case using snoc by simp
qed simp

lemma be_nat_inject: "length xs = length ys \<Longrightarrow> be_nat xs = be_nat ys \<longleftrightarrow> xs = ys"
  by (metis be_bytes_be_nat)

lemma be_nat_append: "be_nat (xs @ ys) = be_nat xs * 256 ^ length ys + be_nat ys"
  by (induction ys rule: rev_induct) (simp_all add: append.assoc[symmetric] del: append_assoc)

text \<open>Byte order is numeric order.\<close>

lemma be_nat_less_iff: "length xs = length ys \<Longrightarrow> be_nat xs < be_nat ys \<longleftrightarrow> xs < ys"
proof (induction xs ys rule: list_induct2)
  case (Cons x xs y ys)
  have c: "be_nat (b # bs) = unat b * 256 ^ length bs + be_nat bs" for b bs using be_nat_append[of "[b]" bs] by (simp add: be_nat_def)
  show ?case
  proof (cases x y rule: linorder_cases)
    case less
    then have "unat x * 256 ^ length xs + 256 ^ length xs \<le> unat y * 256 ^ length ys"
      using Cons.hyps by (metis Suc_leI add.commute mult_Suc mult_le_mono1 word_less_nat_alt)
    then show ?thesis using less be_nat_less[of xs] by (simp add: c)
  next
    case equal
    then show ?thesis using Cons by (simp add: c)
  next
    case greater
    then have "unat y * 256 ^ length xs + 256 ^ length xs \<le> unat x * 256 ^ length xs"
      by (metis Suc_leI add.commute mult_Suc mult_le_mono1 word_less_nat_alt)
    then show ?thesis using greater Cons.hyps be_nat_less[of ys] by (auto simp: c)
  qed
qed simp

lemma length_to_be_bytes [simp]: "length (to_be_bytes (w :: 'a::len word)) = LENGTH('a) div 8"
  by (simp add: to_be_bytes_def)

text \<open>The widths in use are whole numbers of bytes.\<close>

lemma be_nat_to_be_bytes:
  assumes "8 dvd LENGTH('a)"
  shows "be_nat (to_be_bytes w) = unat (w :: 'a::len word)"
proof -
  have "(256 :: nat) ^ (LENGTH('a) div 8) = 2 ^ LENGTH('a)" using assms power_mult[of "2 :: nat" 8 "LENGTH('a) div 8"] by simp
  then show ?thesis by (simp add: to_be_bytes_def be_nat_be_bytes)
qed

lemma from_to_be_bytes: "8 dvd LENGTH('a) \<Longrightarrow> from_be_bytes (to_be_bytes w) = (w :: 'a::len word)"
  by (simp add: from_be_bytes_def be_nat_to_be_bytes)

lemma to_from_be_bytes:
  assumes "8 dvd LENGTH('a)" "length bs = LENGTH('a) div 8"
  shows "to_be_bytes (from_be_bytes bs :: 'a::len word) = bs"
proof -
  have "(256 :: nat) ^ length bs = 2 ^ LENGTH('a)" using assms power_mult[of "2 :: nat" 8 "LENGTH('a) div 8"] by simp
  then have "unat (from_be_bytes bs :: 'a word) = be_nat bs" using be_nat_less[of bs] by (simp add: from_be_bytes_def unat_of_nat)
  then show ?thesis using assms(2) be_bytes_be_nat[of bs] by (simp add: to_be_bytes_def)
qed

lemma from_to_be_bytes_widths [simp]:
  "from_be_bytes (to_be_bytes a) = (a :: u16)" "from_be_bytes (to_be_bytes b) = (b :: u32)" "from_be_bytes (to_be_bytes c) = (c :: u64)"
  by (simp_all add: from_to_be_bytes)

lemma to_be_bytes_less_iff [simp]:
  "to_be_bytes a < to_be_bytes a' \<longleftrightarrow> a < (a' :: u16)" "to_be_bytes b < to_be_bytes b' \<longleftrightarrow> b < (b' :: u32)"
  "to_be_bytes c < to_be_bytes c' \<longleftrightarrow> c < (c' :: u64)"
  by (simp_all add: be_nat_less_iff[symmetric] be_nat_to_be_bytes word_less_nat_alt)

lemma to_be_bytes_inject [simp]:
  "to_be_bytes a = to_be_bytes a' \<longleftrightarrow> a = (a' :: u16)" "to_be_bytes b = to_be_bytes b' \<longleftrightarrow> b = (b' :: u32)"
  "to_be_bytes c = to_be_bytes c' \<longleftrightarrow> c = (c' :: u64)"
  by (metis from_to_be_bytes_widths)+

section \<open>UTF-8\<close>

definition cont :: "u8 \<Rightarrow> bool" where
  "cont b \<longleftrightarrow> 0x80 \<le> b \<and> b \<le> 0xBF"

fun utf8_valid :: "u8 list \<Rightarrow> bool" where
  "utf8_valid [] = True"
| "utf8_valid (a # bs) =
     (if a < 0x80 then utf8_valid bs
      else (case bs of
         [] \<Rightarrow> False
       | b # bs1 \<Rightarrow>
           if 0xC2 \<le> a \<and> a \<le> 0xDF then cont b \<and> utf8_valid bs1
           else (case bs1 of
              [] \<Rightarrow> False
            | c # bs2 \<Rightarrow>
                if 0xE0 \<le> a \<and> a \<le> 0xEF
                then cont b \<and> (a = 0xE0 \<longrightarrow> 0xA0 \<le> b) \<and> (a = 0xED \<longrightarrow> b \<le> 0x9F) \<and> cont c \<and> utf8_valid bs2
                else (case bs2 of
                   [] \<Rightarrow> False
                 | d # bs3 \<Rightarrow>
                     0xF0 \<le> a \<and> a \<le> 0xF4 \<and> cont b \<and> (a = 0xF0 \<longrightarrow> 0x90 \<le> b) \<and> (a = 0xF4 \<longrightarrow> b \<le> 0x8F) \<and>
                     cont c \<and> cont d \<and> utf8_valid bs3))))"

definition as_bytes :: "string \<Rightarrow> u8 list" where
  "as_bytes s = map (\<lambda>c. word_of_nat (of_char c)) s"

definition text_of :: "u8 list \<Rightarrow> string" where
  "text_of bytes = map (\<lambda>b. char_of (unat b)) bytes"

definition from_utf8 :: "u8 list \<Rightarrow> string option" where
  "from_utf8 bytes = (if utf8_valid bytes then Some (text_of bytes) else None)"

text \<open>What the type \<open>str\<close> guarantees.\<close>

definition is_str :: "string \<Rightarrow> bool" where
  "is_str s \<longleftrightarrow> utf8_valid (as_bytes s)"

lemma text_of_as_bytes [simp]: "text_of (as_bytes s) = s"
  by (simp add: text_of_def as_bytes_def unat_of_nat o_def)

lemma as_bytes_text_of [simp]: "as_bytes (text_of bs) = bs"
proof -
  have "word_of_nat (of_char (char_of (unat b) :: char)) = b" for b :: u8
    using unat_u8_less[of b] by (simp add: unsigned_less)
  then show ?thesis by (simp add: text_of_def as_bytes_def o_def)
qed

lemma as_bytes_inject [simp]: "as_bytes s = as_bytes t \<longleftrightarrow> s = t"
  by (metis text_of_as_bytes)

lemma length_as_bytes [simp]: "length (as_bytes s) = length s"
  by (simp add: as_bytes_def)

lemma length_text_of [simp]: "length (text_of bs) = length bs"
  by (simp add: text_of_def)

lemma from_utf8_as_bytes [simp]: "is_str s \<Longrightarrow> from_utf8 (as_bytes s) = Some s"
  by (simp add: is_str_def from_utf8_def)

lemma from_utf8_Some_iff: "from_utf8 bs = Some s \<longleftrightarrow> bs = as_bytes s \<and> is_str s"
  by (auto simp: from_utf8_def is_str_def)

lemma utf8_valid_ascii: "\<forall>b \<in> set bs. b < 0x80 \<Longrightarrow> utf8_valid bs"
  by (induction bs) simp_all

section \<open>Base-128 integers\<close>

text \<open>The minimal little-endian base-128 form.\<close>

fun leb :: "nat \<Rightarrow> u8 list" where
  "leb n = (if n < 128 then [word_of_nat n] else word_of_nat (n mod 128 + 128) # leb (n div 128))"

declare leb.simps [simp del]

lemma unat_drop_bit: "unat (drop_bit n (w :: 'a::len word)) = unat w div 2 ^ n"
  by (subst unsigned_drop_bit_eq) (simp add: drop_bit_eq_div take_bit_nat_eq_self[OF unsigned_less])

lemma drop_bit_decreases: "0 < n \<Longrightarrow> drop_bit n (w :: 'a::len word) \<noteq> 0 \<Longrightarrow> unat (drop_bit n w) < unat w"
  by (metis drop_bit_of_0 div_less_dividend gr0I one_less_numeral_iff one_less_power semiring_norm(76) unat_drop_bit unat_eq_zero)

lemma unat_or_push_bit:
  assumes "unat a < 2 ^ k" "unat b * 2 ^ k < 2 ^ LENGTH('a)"
  shows "unat (a OR push_bit k b) = unat (a :: 'a::len word) + unat b * 2 ^ k"
proof -
  have bit: "\<not> bit a n" if "k \<le> n" for n
  proof
    assume "bit a n"
    then have "bit (unat a) n" by (simp add: bit_unsigned_iff)
    moreover have "take_bit k (unat a) = unat a" using assms(1) by (simp add: take_bit_nat_eq_self_iff)
    ultimately show False using that by (metis bit_take_bit_iff not_le)
  qed
  have "a OR push_bit k b = a + push_bit k b"
    by (rule disjunctive_add_eq_or[symmetric]) (rule bit_eqI, use bit in \<open>auto simp: bit_simps not_le\<close>)
  moreover have "unat (push_bit k b) = unat b * 2 ^ k"
    using assms(2) by (subst unsigned_push_bit_eq) (simp add: push_bit_eq_mult take_bit_nat_eq_self_iff)
  moreover have "unat a + unat b * 2 ^ k < 2 ^ LENGTH('a)"
  proof (cases "unat b = 0")
    case False
    then have "(2 :: nat) ^ k < 2 ^ LENGTH('a)" using assms(2) by (metis le_less_trans mult_le_mono1 mult_1 One_nat_def Suc_leI gr0I)
    then have "k < LENGTH('a)" by simp
    then obtain j where j: "LENGTH('a) = k + j" by (metis less_imp_add_positive)
    have "unat b < 2 ^ j" using assms(2) by (simp add: j power_add mult.commute)
    then have "(unat b + 1) * 2 ^ k \<le> 2 ^ j * 2 ^ k" by (intro mult_le_mono1) simp
    then show ?thesis using assms(1) by (simp add: j power_add mult.commute)
  qed (use unsigned_less[of a] in simp)
  ultimately show ?thesis by (simp add: unat_word_ariths)
qed

end
