(* ===== verification/Binary_Event.thy ===== *)
theory Binary_Event
  imports Byte_Codec Nostr_Event Store_Types
begin

text \<open>
  The binary row formats of the store (\<open>crates/nmp-store/src/binary_event.rs\<close>): immutable events,
  local state, provenance, the composite of displaced rows, and the matcher that runs on a row without
  decoding it.

  The identity types of the \<open>nostr\<close> crate are the record \<open>nostr_codec\<close>: their byte views and their
  constructors, \<open>Tag::parse\<close> and \<open>RelayUrl::parse\<close>. A slice index out of range and a failing \<open>expect\<close> are
  \<open>Panicked\<close>. The encoder reserves its directories and patches them in place; here the three sections
  are built side by side and joined.
\<close>

section \<open>Errors, constants and integers\<close>

datatype decode_error =
    Truncated | BadMagic | UnsupportedVersion u8 | InvalidFlags u8 | InvalidReserved | InvalidUtf8 | EmptyTag | InvalidTag
  | InvalidRelay | DuplicateRelay | DuplicateOwner | InvalidOwnerOrder | InvalidSignature | InvalidLocalState u8 | TrailingBytes
  | LengthOverflow | InvalidAtom | NonCanonicalLength

type_synonym 'a decoded = "(decode_error, 'a) outcome"

record nostr_codec =
  nc_id_bytes :: "string \<Rightarrow> u8 list"
  nc_id_of :: "u8 list \<Rightarrow> string"
  nc_pubkey_bytes :: "public_key \<Rightarrow> u8 list"
  nc_pubkey_of :: "u8 list \<Rightarrow> public_key"
  nc_sig_bytes :: "string \<Rightarrow> u8 list"
  nc_sig_of :: "u8 list \<Rightarrow> string option"
  nc_parse_tag :: "string list \<Rightarrow> string list option"
  nc_parse_relay :: "string \<Rightarrow> relay_url option"

definition EVENT_MAGIC :: "u8 list" where "EVENT_MAGIC = as_bytes ''NMPE''"
definition LOCAL_MAGIC :: "u8 list" where "LOCAL_MAGIC = as_bytes ''NMPL''"
definition PROVENANCE_MAGIC :: "u8 list" where "PROVENANCE_MAGIC = as_bytes ''NMPP''"
definition COMPOSITE_MAGIC :: "u8 list" where "COMPOSITE_MAGIC = as_bytes ''NMPC''"

abbreviation (input) "EVENT_VERSION \<equiv> 4 :: u8"
abbreviation (input) "SIDECAR_VERSION \<equiv> 3 :: u8"
abbreviation (input) "COMPOSITE_VERSION \<equiv> 4 :: u8"
abbreviation (input) "FLAG_LOCAL \<equiv> 1 :: u8"

abbreviation (input) "EVENT_HEADER_LEN \<equiv> 158 :: nat"
abbreviation (input) "ID_OFFSET \<equiv> 8 :: nat"
abbreviation (input) "PUBKEY_OFFSET \<equiv> 40 :: nat"
abbreviation (input) "SIG_OFFSET \<equiv> 72 :: nat"
abbreviation (input) "CREATED_AT_OFFSET \<equiv> 136 :: nat"
abbreviation (input) "KIND_OFFSET \<equiv> 144 :: nat"
abbreviation (input) "TAG_COUNT_OFFSET \<equiv> 146 :: nat"
abbreviation (input) "TAG_SECTION_LEN_OFFSET \<equiv> 150 :: nat"
abbreviation (input) "CONTENT_LEN_OFFSET \<equiv> 154 :: nat"

abbreviation (input) "ATOM_KIND_MASK \<equiv> 0xc0000000 :: u32"
abbreviation (input) "ATOM_OFFSET_MASK \<equiv> 0x3fffffff :: u32"
abbreviation (input) "ATOM_INLINE \<equiv> 0 :: u32"
abbreviation (input) "ATOM_UTF8 \<equiv> 0x40000000 :: u32"
abbreviation (input) "ATOM_RAW32 \<equiv> 0x80000000 :: u32"

abbreviation (input) "LOCAL_HEADER_LEN \<equiv> 12 :: nat"
abbreviation (input) "LOCAL_OWNER_COUNT_OFFSET \<equiv> 8 :: nat"
abbreviation (input) "PROVENANCE_HEADER_LEN \<equiv> 16 :: nat"
abbreviation (input) "PROVENANCE_SEEN_COUNT_OFFSET \<equiv> 8 :: nat"
abbreviation (input) "PROVENANCE_OWNER_COUNT_OFFSET \<equiv> 12 :: nat"
abbreviation (input) "COMPOSITE_HEADER_LEN \<equiv> 16 :: nat"
abbreviation (input) "COMPOSITE_EVENT_LEN_OFFSET \<equiv> 8 :: nat"
abbreviation (input) "COMPOSITE_PROVENANCE_LEN_OFFSET \<equiv> 12 :: nat"

definition push_u16 :: "u8 list \<Rightarrow> u16 \<Rightarrow> u8 list" where
  "push_u16 out value = out @ to_be_bytes value"

definition push_u32 :: "u8 list \<Rightarrow> nat \<Rightarrow> u8 list decoded" where
  "push_u32 out value = and_then (ok_or LengthOverflow (u32_try_from value)) (\<lambda>value. Done (out @ to_be_bytes value))"

definition push_u64 :: "u8 list \<Rightarrow> u64 \<Rightarrow> u8 list" where
  "push_u64 out value = out @ to_be_bytes value"

definition read_u16 :: "u8 list \<Rightarrow> nat \<Rightarrow> u16 decoded" where
  "read_u16 bytes offset = and_then (ok_or Truncated (get_range bytes offset (offset + 2))) (\<lambda>raw. Done (from_be_bytes raw))"

definition read_u32 :: "u8 list \<Rightarrow> nat \<Rightarrow> u32 decoded" where
  "read_u32 bytes offset = and_then (ok_or Truncated (get_range bytes offset (offset + 4))) (\<lambda>raw. Done (from_be_bytes raw))"

definition read_u64 :: "u8 list \<Rightarrow> nat \<Rightarrow> u64 decoded" where
  "read_u64 bytes offset = and_then (ok_or Truncated (get_range bytes offset (offset + 8))) (\<lambda>raw. Done (from_be_bytes raw))"

definition take_bytes :: "u8 list \<Rightarrow> nat \<Rightarrow> nat \<Rightarrow> (u8 list \<times> nat) decoded" where
  "take_bytes bytes cursor len =
     and_then (ok_or LengthOverflow (usize_add cursor len)) (\<lambda>end.
     and_then (ok_or Truncated (get_range bytes cursor end)) (\<lambda>value. Done (value, end)))"

definition take_u32 :: "u8 list \<Rightarrow> nat \<Rightarrow> (u32 \<times> nat) decoded" where
  "take_u32 bytes cursor =
     and_then (read_u32 bytes cursor) (\<lambda>value.
     and_then (ok_or LengthOverflow (usize_add cursor 4)) (\<lambda>cursor. Done (value, cursor)))"

definition take_u64 :: "u8 list \<Rightarrow> nat \<Rightarrow> (u64 \<times> nat) decoded" where
  "take_u64 bytes cursor =
     and_then (read_u64 bytes cursor) (\<lambda>value.
     and_then (ok_or LengthOverflow (usize_add cursor 8)) (\<lambda>cursor. Done (value, cursor)))"

definition check_magic_and_version :: "u8 list \<Rightarrow> u8 list \<Rightarrow> u8 \<Rightarrow> unit decoded" where
  "check_magic_and_version bytes magic expected_version =
     (if get_range bytes 0 4 \<noteq> Some magic then Failed (if length bytes < 4 then Truncated else BadMagic)
      else and_then (ok_or Truncated (if 4 < length bytes then Some (bytes ! 4) else None)) (\<lambda>version.
           if version \<noteq> expected_version then Failed (UnsupportedVersion version) else Done ()))"

definition checked_capacity :: "nat \<Rightarrow> nat \<Rightarrow> nat \<Rightarrow> nat decoded" where
  "checked_capacity base first second =
     ok_or LengthOverflow (Option.bind (usize_add base first) (\<lambda>value. usize_add value second))"

definition checked_add_len :: "nat \<Rightarrow> nat \<Rightarrow> nat decoded" where
  "checked_add_len total_len value = ok_or LengthOverflow (usize_add total_len value)"

section \<open>Hexadecimal and base-128 text\<close>

definition nibble :: "u8 \<Rightarrow> u8 option" where
  "nibble byte =
     (if 0x30 \<le> byte \<and> byte \<le> 0x39 then Some (byte - 0x30)
      else if 0x61 \<le> byte \<and> byte \<le> 0x66 then Some (byte - 0x61 + 10)
      else None)"

fun decode_hex_pairs :: "u8 list \<Rightarrow> u8 list option" where
  "decode_hex_pairs (a # b # rest) =
     do { x \<leftarrow> nibble a; y \<leftarrow> nibble b; raw \<leftarrow> decode_hex_pairs rest; Some ((push_bit 4 x OR y) # raw) }"
| "decode_hex_pairs [_] = None"
| "decode_hex_pairs [] = Some []"

definition decode_hex_32 :: "string \<Rightarrow> u8 list option" where
  "decode_hex_32 value = (let bytes = as_bytes value in if length bytes \<noteq> 64 then None else decode_hex_pairs bytes)"

definition HEX :: string where "HEX = ''0123456789abcdef''"

definition encode_hex_32 :: "u8 list \<Rightarrow> string" where
  "encode_hex_32 raw = concat (map (\<lambda>byte. [HEX ! unat (drop_bit 4 byte), HEX ! unat (byte AND 0x0f)]) raw)"

function leb128_loop :: "u32 \<Rightarrow> u8 list" where
  "leb128_loop value =
     (let byte = ucast (value AND 0x7f); value = drop_bit 7 value
      in if value \<noteq> 0 then (byte OR 0x80) # leb128_loop value else [byte])"
  by pat_completeness auto
termination by (relation "measure unat") (simp_all add: drop_bit_decreases)

declare leb128_loop.simps [simp del]

definition push_leb128_u32 :: "u8 list \<Rightarrow> nat \<Rightarrow> u8 list decoded" where
  "push_leb128_u32 out value =
     and_then (ok_or LengthOverflow (u32_try_from value)) (\<lambda>value. Done (out @ leb128_loop value))"

definition leb128_u32_len :: "nat \<Rightarrow> nat decoded" where
  "leb128_u32_len value =
     and_then (ok_or LengthOverflow (u32_try_from value)) (\<lambda>value.
     Done (if value \<le> 0x7f then 1 else if value \<le> 0x3fff then 2 else if value \<le> 0x1fffff then 3
           else if value \<le> 0x0fffffff then 4 else 5))"

fun take_leb128_loop :: "u8 list \<Rightarrow> nat list \<Rightarrow> u32 \<Rightarrow> nat \<Rightarrow> (u32 \<times> nat) decoded" where
  "take_leb128_loop bytes [] value cursor = Failed LengthOverflow"
| "take_leb128_loop bytes (index # indices) value cursor =
     and_then (take_bytes bytes cursor 1) (\<lambda>(taken, cursor).
     let byte = hd taken;
         payload = ucast (byte AND 0x7f) :: u32
     in if index = 4 \<and> payload > 0x0f then Failed LengthOverflow
        else (let value = value OR push_bit (index * 7) payload
              in if byte AND 0x80 = 0 then (if index > 0 \<and> payload = 0 then Failed NonCanonicalLength else Done (value, cursor))
                 else take_leb128_loop bytes indices value cursor))"

definition take_leb128_u32 :: "u8 list \<Rightarrow> nat \<Rightarrow> (u32 \<times> nat) decoded" where
  "take_leb128_u32 bytes cursor = take_leb128_loop bytes [0..<5] 0 cursor"

section \<open>Encoding an event\<close>

definition arena_offset_descriptor :: "u32 \<Rightarrow> nat \<Rightarrow> u32 decoded" where
  "arena_offset_descriptor kind arena_len =
     and_then (ok_or LengthOverflow (u32_try_from arena_len)) (\<lambda>offset.
     if offset > ATOM_OFFSET_MASK then Failed LengthOverflow else Done (kind OR offset))"

definition inline_atom_descriptor :: "u8 list \<Rightarrow> u32" where
  "inline_atom_descriptor bytes =
     push_bit 28 (word_of_nat (length bytes)) OR from_be_bytes (0 # bytes @ replicate (3 - length bytes) 0)"

fun atoms_shape :: "string list \<Rightarrow> nat \<times> nat \<Rightarrow> (nat \<times> nat) decoded" where
  "atoms_shape [] shape = Done shape"
| "atoms_shape (element # elements) (atom_count, arena_len) =
     and_then (ok_or LengthOverflow (usize_add atom_count 1)) (\<lambda>atom_count.
     if length element \<le> 3 then atoms_shape elements (atom_count, arena_len)
     else and_then (if decode_hex_32 element \<noteq> None then Done 32
                    else and_then (leb128_u32_len (length element)) (\<lambda>n. ok_or LengthOverflow (usize_add n (length element)))) (\<lambda>cell_len.
          and_then (ok_or LengthOverflow (usize_add arena_len cell_len)) (\<lambda>arena_len.
          if arena_len > unat ATOM_OFFSET_MASK then Failed LengthOverflow
          else atoms_shape elements (atom_count, arena_len))))"

fun tags_shape :: "string list list \<Rightarrow> nat \<times> nat \<Rightarrow> (nat \<times> nat) decoded" where
  "tags_shape [] shape = Done shape"
| "tags_shape (tag # tags) shape =
     (if tag = [] then Failed EmptyTag else and_then (atoms_shape tag shape) (tags_shape tags))"

definition encoded_tag_shape :: "string list list \<Rightarrow> (nat \<times> nat) decoded" where
  "encoded_tag_shape tags =
     and_then (tags_shape tags (0, 0)) (\<lambda>(atom_count, arena_len).
     and_then (ok_or LengthOverflow (u32_try_from atom_count)) (\<lambda>_. Done (atom_count, arena_len)))"

fun encode_atom :: "string \<Rightarrow> u32 list \<times> u8 list \<Rightarrow> (u32 list \<times> u8 list) decoded" where
  "encode_atom element (atoms, arena) =
     (let bytes = as_bytes element
      in if length bytes \<le> 3 then Done (atoms @ [inline_atom_descriptor bytes], arena)
         else (case decode_hex_32 element of
            Some raw \<Rightarrow>
              and_then (arena_offset_descriptor ATOM_RAW32 (length arena)) (\<lambda>descriptor. Done (atoms @ [descriptor], arena @ raw))
          | None \<Rightarrow>
              and_then (arena_offset_descriptor ATOM_UTF8 (length arena)) (\<lambda>descriptor.
              and_then (push_leb128_u32 arena (length bytes)) (\<lambda>arena. Done (atoms @ [descriptor], arena @ bytes)))))"

fun encode_elements :: "string list \<Rightarrow> u32 list \<times> u8 list \<Rightarrow> (u32 list \<times> u8 list) decoded" where
  "encode_elements [] s = Done s"
| "encode_elements (element # elements) s = and_then (encode_atom element s) (encode_elements elements)"

fun encode_tags :: "string list list \<Rightarrow> u32 list \<times> u32 list \<times> u8 list \<Rightarrow> (u32 list \<times> u32 list \<times> u8 list) decoded" where
  "encode_tags [] s = Done s"
| "encode_tags (tag # tags) (ends, s) =
     and_then (encode_elements tag s) (\<lambda>(atoms, arena).
     and_then (ok_or LengthOverflow (u32_try_from (length atoms))) (\<lambda>end.
     encode_tags tags (ends @ [end], atoms, arena)))"

definition encode_event :: "nostr_codec \<Rightarrow> event \<Rightarrow> u8 list decoded" where
  "encode_event nc event =
     (let tags = ev_tags event; content = as_bytes (ev_content event)
      in and_then (encoded_tag_shape tags) (\<lambda>(atom_count, arena_len).
         and_then (ok_or LengthOverflow (Option.bind (usize_add (length tags) atom_count) (\<lambda>n. usize_mul n 4))) (\<lambda>directory_len.
         and_then (ok_or LengthOverflow (usize_add directory_len arena_len)) (\<lambda>tag_section_len.
         and_then (ok_or LengthOverflow (u32_try_from (length tags))) (\<lambda>_.
         and_then (ok_or LengthOverflow (u32_try_from tag_section_len)) (\<lambda>_.
         and_then (ok_or LengthOverflow (u32_try_from (length content))) (\<lambda>_.
         and_then (checked_capacity EVENT_HEADER_LEN tag_section_len (length content)) (\<lambda>_.
         let out = EVENT_MAGIC @ [EVENT_VERSION] @ [0, 0, 0] @ nc_id_bytes nc (ev_id event) @
               nc_pubkey_bytes nc (ev_pubkey event) @ nc_sig_bytes nc (ev_sig event);
             out = push_u64 out (ev_created_at event);
             out = push_u16 out (ev_kind event)
         in and_then (push_u32 out (length tags)) (\<lambda>out.
            and_then (push_u32 out tag_section_len) (\<lambda>out.
            and_then (push_u32 out (length content)) (\<lambda>out.
            and_then (encode_tags tags ([], [], [])) (\<lambda>(ends, atoms, arena).
            Done (out @ concat (map to_be_bytes ends) @ concat (map to_be_bytes atoms) @ arena @ content)))))))))))))"

section \<open>Local state and provenance\<close>

definition checked_local_len :: "nat \<Rightarrow> nat decoded" where
  "checked_local_len owner_count =
     and_then (ok_or LengthOverflow (u32_try_from owner_count)) (\<lambda>_.
     and_then (ok_or LengthOverflow (usize_mul owner_count 8)) (\<lambda>owners_len.
     ok_or LengthOverflow (usize_add LOCAL_HEADER_LEN owners_len)))"

definition sig_state_byte :: "sig_state \<Rightarrow> u8" where
  "sig_state_byte s = (case s of SigPending \<Rightarrow> 0 | SigSigned \<Rightarrow> 1)"

definition sig_state_of :: "u8 \<Rightarrow> sig_state decoded" where
  "sig_state_of b = (if b = 0 then Done SigPending else if b = 1 then Done SigSigned else Failed (InvalidLocalState b))"

definition push_owners :: "u8 list \<Rightarrow> intent_id fset \<Rightarrow> u8 list" where
  "push_owners out owners = foldl push_u64 out (sorted_list_of_fset owners)"

definition encode_local :: "local_origin \<Rightarrow> u8 list decoded" where
  "encode_local local =
     and_then (checked_local_len (fcard (lo_owners local))) (\<lambda>_.
     and_then (push_u32 (LOCAL_MAGIC @ [SIDECAR_VERSION] @ [sig_state_byte (lo_sig_state local)] @ [0, 0]) (fcard (lo_owners local))) (\<lambda>out.
     Done (push_owners out (lo_owners local))))"

fun decode_owners_loop :: "u8 list \<Rightarrow> nat \<Rightarrow> intent_id fset \<Rightarrow> u64 option \<Rightarrow> nat \<Rightarrow> (intent_id fset \<times> nat) decoded" where
  "decode_owners_loop bytes 0 owners previous_owner cursor = Done (owners, cursor)"
| "decode_owners_loop bytes (Suc n) owners previous_owner cursor =
     and_then (take_u64 bytes cursor) (\<lambda>(owner, cursor).
     case previous_owner of
       Some previous \<Rightarrow>
         if owner = previous then Failed DuplicateOwner
         else if owner < previous then Failed InvalidOwnerOrder
         else decode_owners_loop bytes n (finsert owner owners) (Some owner) cursor
     | None \<Rightarrow> decode_owners_loop bytes n (finsert owner owners) (Some owner) cursor)"

definition decode_owners :: "u8 list \<Rightarrow> nat \<Rightarrow> nat \<Rightarrow> (intent_id fset \<times> nat) decoded" where
  "decode_owners bytes cursor owner_count = decode_owners_loop bytes owner_count {||} None cursor"

definition decode_local :: "u8 list \<Rightarrow> local_origin decoded" where
  "decode_local bytes =
     (if length bytes < LOCAL_HEADER_LEN then Failed Truncated
      else and_then (check_magic_and_version bytes LOCAL_MAGIC SIDECAR_VERSION) (\<lambda>_.
           and_then (index_at bytes 5) (\<lambda>state.
           and_then (sig_state_of state) (\<lambda>sig_state.
           and_then (index_range bytes 6 8) (\<lambda>reserved.
           if reserved \<noteq> [0, 0] then Failed InvalidReserved
           else and_then (read_u32 bytes LOCAL_OWNER_COUNT_OFFSET) (\<lambda>owner_count.
                and_then (checked_local_len (unat owner_count)) (\<lambda>expected_len.
                if expected_len > length bytes then Failed Truncated
                else if expected_len < length bytes then Failed TrailingBytes
                else and_then (decode_owners bytes LOCAL_HEADER_LEN (unat owner_count)) (\<lambda>(owners, _).
                     Done \<lparr>lo_owners = owners, lo_sig_state = sig_state\<rparr>))))))))"

fun seen_body_len :: "relay_url list \<Rightarrow> nat \<Rightarrow> nat decoded" where
  "seen_body_len [] total_len = Done total_len"
| "seen_body_len (relay # relays) total_len =
     and_then (checked_add_len total_len 4) (\<lambda>total_len.
     and_then (checked_add_len total_len (length relay)) (\<lambda>total_len.
     and_then (checked_add_len total_len 8) (seen_body_len relays)))"

definition encoded_provenance_body_len :: "provenance \<Rightarrow> nat decoded" where
  "encoded_provenance_body_len provenance =
     and_then (seen_body_len (sorted_list_of_fset (fmdom (pv_seen provenance))) 0) (\<lambda>total_len.
     case pv_local provenance of
       None \<Rightarrow> Done total_len
     | Some local \<Rightarrow>
         and_then (checked_add_len total_len 1) (\<lambda>total_len.
         and_then (ok_or LengthOverflow (usize_mul (fcard (lo_owners local)) 8)) (checked_add_len total_len)))"

fun push_seen :: "u8 list \<Rightarrow> (relay_url \<times> u64) list \<Rightarrow> u8 list decoded" where
  "push_seen out [] = Done out"
| "push_seen out ((relay, at) # seen) =
     and_then (push_u32 out (length relay)) (\<lambda>out. push_seen (push_u64 (out @ as_bytes relay) at) seen)"

definition encode_provenance :: "provenance \<Rightarrow> u8 list decoded" where
  "encode_provenance provenance =
     (let flags = (if pv_local provenance \<noteq> None then FLAG_LOCAL else 0);
          owner_count = (case pv_local provenance of None \<Rightarrow> 0 | Some local \<Rightarrow> fcard (lo_owners local))
      in and_then (encoded_provenance_body_len provenance) (\<lambda>body_len.
         and_then (checked_capacity PROVENANCE_HEADER_LEN body_len 0) (\<lambda>_.
         and_then (push_u32 (PROVENANCE_MAGIC @ [SIDECAR_VERSION] @ [flags] @ [0, 0]) (fcard (fmdom (pv_seen provenance)))) (\<lambda>out.
         and_then (push_u32 out owner_count) (\<lambda>out.
         and_then (push_seen out (sorted_list_of_fmap (pv_seen provenance))) (\<lambda>out.
         case pv_local provenance of
           None \<Rightarrow> Done out
         | Some local \<Rightarrow> Done (push_owners (out @ [sig_state_byte (lo_sig_state local)]) (lo_owners local))))))))"

fun decode_seen :: "nostr_codec \<Rightarrow> u8 list \<Rightarrow> nat \<Rightarrow> (relay_url, u64) fmap \<Rightarrow> nat \<Rightarrow> ((relay_url, u64) fmap \<times> nat) decoded" where
  "decode_seen nc bytes 0 seen cursor = Done (seen, cursor)"
| "decode_seen nc bytes (Suc n) seen cursor =
     and_then (take_u32 bytes cursor) (\<lambda>(relay_len, cursor).
     and_then (take_bytes bytes cursor (unat relay_len)) (\<lambda>(raw, cursor).
     and_then (ok_or InvalidUtf8 (from_utf8 raw)) (\<lambda>text.
     and_then (ok_or InvalidRelay (nc_parse_relay nc text)) (\<lambda>relay.
     and_then (take_u64 bytes cursor) (\<lambda>(at, cursor).
     if relay |\<in>| fmdom seen then Failed DuplicateRelay
     else decode_seen nc bytes n (fmupd relay at seen) cursor)))))"

definition decode_provenance :: "nostr_codec \<Rightarrow> u8 list \<Rightarrow> provenance decoded" where
  "decode_provenance nc bytes =
     (if length bytes < PROVENANCE_HEADER_LEN then Failed Truncated
      else and_then (check_magic_and_version bytes PROVENANCE_MAGIC SIDECAR_VERSION) (\<lambda>_.
           and_then (index_at bytes 5) (\<lambda>flags.
           if flags AND NOT FLAG_LOCAL \<noteq> 0 then Failed (InvalidFlags flags)
           else and_then (index_range bytes 6 8) (\<lambda>reserved.
           if reserved \<noteq> [0, 0] then Failed InvalidReserved
           else and_then (read_u32 bytes PROVENANCE_SEEN_COUNT_OFFSET) (\<lambda>seen_count.
                and_then (read_u32 bytes PROVENANCE_OWNER_COUNT_OFFSET) (\<lambda>owner_count.
                if flags AND FLAG_LOCAL = 0 \<and> owner_count \<noteq> 0 then Failed (InvalidFlags flags)
                else and_then (decode_seen nc bytes (unat seen_count) fmempty PROVENANCE_HEADER_LEN) (\<lambda>(seen, cursor).
                and_then (if flags AND FLAG_LOCAL \<noteq> 0
                          then and_then (take_bytes bytes cursor 1) (\<lambda>(state, cursor).
                               and_then (sig_state_of (hd state)) (\<lambda>sig_state.
                               and_then (decode_owners bytes cursor (unat owner_count)) (\<lambda>(owners, cursor).
                               Done (Some \<lparr>lo_owners = owners, lo_sig_state = sig_state\<rparr>, cursor))))
                          else Done (None, cursor)) (\<lambda>(local, cursor).
                if cursor \<noteq> length bytes then Failed TrailingBytes
                else Done \<lparr>pv_seen = seen, pv_local = local\<rparr>))))))))"

section \<open>Reading an event row\<close>

record stored_event_view =
  sv_bytes :: "u8 list"
  sv_tag_count :: u32
  sv_atom_count :: u32
  sv_atom_refs_start :: nat
  sv_arena_start :: nat
  sv_arena_len :: nat
  sv_content_start :: nat
  sv_content_len :: nat

datatype atom_ref = AtomText string | AtomRaw32 "u8 list"

fun is_single_ascii :: "atom_ref \<Rightarrow> u8 \<Rightarrow> bool" where
  "is_single_ascii (AtomText text) wanted \<longleftrightarrow> as_bytes text = [wanted]"
| "is_single_ascii (AtomRaw32 _) wanted \<longleftrightarrow> False"

fun to_owned_text :: "atom_ref \<Rightarrow> string" where
  "to_owned_text (AtomText text) = text"
| "to_owned_text (AtomRaw32 raw) = encode_hex_32 raw"

definition decode_atom :: "u8 list \<Rightarrow> u8 list \<Rightarrow> (atom_ref \<times> (nat \<times> nat) option) decoded" where
  "decode_atom descriptor arena =
     (let word = from_be_bytes descriptor :: u32;
          kind = word AND ATOM_KIND_MASK
      in if kind = ATOM_INLINE then
           (let len = unat (drop_bit 28 word AND 0x03)
            in and_then (index_range descriptor (1 + len) (length descriptor)) (\<lambda>padding.
               if word AND 0x0f000000 \<noteq> 0 \<or> (\<exists>byte \<in> set padding. byte \<noteq> 0) then Failed InvalidAtom
               else and_then (index_range descriptor 1 (1 + len)) (\<lambda>raw.
                    and_then (ok_or InvalidUtf8 (from_utf8 raw)) (\<lambda>text. Done (AtomText text, None)))))
         else if kind = ATOM_UTF8 then
           (let offset = unat (word AND ATOM_OFFSET_MASK)
            in and_then (take_leb128_u32 arena offset) (\<lambda>(len, cursor).
               and_then (take_bytes arena cursor (unat len)) (\<lambda>(raw, cursor).
               and_then (ok_or InvalidUtf8 (from_utf8 raw)) (\<lambda>text.
               if length raw \<le> 3 \<or> decode_hex_32 text \<noteq> None then Failed InvalidAtom
               else Done (AtomText text, Some (offset, cursor))))))
         else if kind = ATOM_RAW32 then
           (let offset = unat (word AND ATOM_OFFSET_MASK)
            in and_then (take_bytes arena offset 32) (\<lambda>(raw, cursor). Done (AtomRaw32 raw, Some (offset, cursor))))
         else Failed InvalidAtom)"

definition from_trusted :: "u8 list \<Rightarrow> stored_event_view decoded" where
  "from_trusted bytes =
     (if length bytes < EVENT_HEADER_LEN then Failed Truncated
      else and_then (check_magic_and_version bytes EVENT_MAGIC EVENT_VERSION) (\<lambda>_.
           and_then (index_range bytes 5 8) (\<lambda>reserved.
           if reserved \<noteq> [0, 0, 0] then Failed InvalidReserved
           else and_then (read_u32 bytes TAG_COUNT_OFFSET) (\<lambda>tag_count.
                and_then (read_u32 bytes TAG_SECTION_LEN_OFFSET) (\<lambda>tag_section_len.
                and_then (read_u32 bytes CONTENT_LEN_OFFSET) (\<lambda>content_len.
                and_then (ok_or LengthOverflow (usize_add EVENT_HEADER_LEN (unat tag_section_len))) (\<lambda>content_start.
                and_then (ok_or LengthOverflow (usize_add content_start (unat content_len))) (\<lambda>expected_len.
                if expected_len > length bytes then Failed Truncated
                else if expected_len < length bytes then Failed TrailingBytes
                else and_then (ok_or LengthOverflow (usize_mul (unat tag_count) 4)) (\<lambda>tag_ends_len.
                if tag_ends_len > unat tag_section_len then Failed LengthOverflow
                else and_then (if tag_count = 0 then Done 0 else read_u32 bytes (EVENT_HEADER_LEN + tag_ends_len - 4)) (\<lambda>atom_count.
                and_then (ok_or LengthOverflow (usize_mul (unat atom_count) 4)) (\<lambda>atom_refs_len.
                and_then (ok_or LengthOverflow (usize_add EVENT_HEADER_LEN tag_ends_len)) (\<lambda>atom_refs_start.
                and_then (ok_or LengthOverflow (usize_add atom_refs_start atom_refs_len)) (\<lambda>arena_start.
                if arena_start > content_start then Failed LengthOverflow
                else Done \<lparr>sv_bytes = bytes, sv_tag_count = tag_count, sv_atom_count = atom_count,
                       sv_atom_refs_start = atom_refs_start, sv_arena_start = arena_start,
                       sv_arena_len = content_start - arena_start, sv_content_start = content_start,
                       sv_content_len = unat content_len\<rparr>)))))))))))))"

fun check_tag_ends :: "stored_event_view \<Rightarrow> nat list \<Rightarrow> u32 \<Rightarrow> u32 decoded" where
  "check_tag_ends view [] previous_end = Done previous_end"
| "check_tag_ends view (index # indices) previous_end =
     and_then (read_u32 (sv_bytes view) (EVENT_HEADER_LEN + index * 4)) (\<lambda>end.
     if end \<le> previous_end then Failed EmptyTag
     else if end > sv_atom_count view then Failed LengthOverflow
     else check_tag_ends view indices end)"

fun check_atoms :: "stored_event_view \<Rightarrow> u8 list \<Rightarrow> nat list \<Rightarrow> nat \<Rightarrow> nat decoded" where
  "check_atoms view arena [] arena_cursor = Done arena_cursor"
| "check_atoms view arena (index # indices) arena_cursor =
     (let descriptor_offset = sv_atom_refs_start view + index * 4
      in and_then (index_range (sv_bytes view) descriptor_offset (descriptor_offset + 4)) (\<lambda>descriptor.
         and_then (decode_atom descriptor arena) (\<lambda>(_, cell).
         case cell of
           None \<Rightarrow> check_atoms view arena indices arena_cursor
         | Some (start, end) \<Rightarrow> if start \<noteq> arena_cursor then Failed InvalidAtom else check_atoms view arena indices end)))"

definition view_parse :: "u8 list \<Rightarrow> stored_event_view decoded" where
  "view_parse bytes =
     and_then (from_trusted bytes) (\<lambda>view.
     and_then (check_tag_ends view [0..<unat (sv_tag_count view)] 0) (\<lambda>previous_end.
     if previous_end \<noteq> sv_atom_count view then Failed LengthOverflow
     else and_then (index_range bytes (sv_arena_start view) (sv_arena_start view + sv_arena_len view)) (\<lambda>arena.
          and_then (check_atoms view arena [0..<unat (sv_atom_count view)] 0) (\<lambda>arena_cursor.
          if arena_cursor \<noteq> length arena then Failed InvalidAtom
          else and_then (ok_or Truncated (get_range bytes (sv_content_start view) (sv_content_start view + sv_content_len view))) (\<lambda>raw.
               and_then (ok_or InvalidUtf8 (from_utf8 raw)) (\<lambda>_. Done view))))))"

text \<open>A failing \<open>expect\<close> is a panic.\<close>

definition expect :: "'a decoded \<Rightarrow> 'a decoded" where
  "expect x = (case x of Done v \<Rightarrow> Done v | _ \<Rightarrow> Panicked)"

definition id_bytes :: "stored_event_view \<Rightarrow> u8 list decoded" where
  "id_bytes view = index_range (sv_bytes view) ID_OFFSET (ID_OFFSET + 32)"

definition pubkey_bytes :: "stored_event_view \<Rightarrow> u8 list decoded" where
  "pubkey_bytes view = index_range (sv_bytes view) PUBKEY_OFFSET (PUBKEY_OFFSET + 32)"

definition signature_bytes :: "stored_event_view \<Rightarrow> u8 list decoded" where
  "signature_bytes view = index_range (sv_bytes view) SIG_OFFSET (SIG_OFFSET + 64)"

definition created_at_secs :: "stored_event_view \<Rightarrow> u64 decoded" where
  "created_at_secs view = expect (read_u64 (sv_bytes view) CREATED_AT_OFFSET)"

definition kind_u16 :: "stored_event_view \<Rightarrow> u16 decoded" where
  "kind_u16 view = expect (read_u16 (sv_bytes view) KIND_OFFSET)"

definition view_content :: "stored_event_view \<Rightarrow> string decoded" where
  "view_content view =
     and_then (index_range (sv_bytes view) (sv_content_start view) (sv_content_start view + sv_content_len view)) (\<lambda>raw.
     ok_or InvalidUtf8 (from_utf8 raw))"

section \<open>Iterating tags\<close>

text \<open>\<open>TagsIter\<close> yields the atom range of each tag; its state is the tag index and the previous end.\<close>

definition tags_next :: "stored_event_view \<Rightarrow> nat \<Rightarrow> u32 \<Rightarrow> (u32 \<times> u32) decoded" where
  "tags_next view tag_index previous_end =
     and_then (expect (read_u32 (sv_bytes view) (EVENT_HEADER_LEN + tag_index * 4))) (\<lambda>end. Done (previous_end, end))"

text \<open>\<open>TagElementsIter::next\<close>: \<open>None\<close> at the end of the tag, otherwise the item; an error halts the
  iteration of its tag.\<close>

definition elements_next :: "stored_event_view \<Rightarrow> u32 \<Rightarrow> u32 \<Rightarrow> (atom_ref \<times> u32) decoded option" where
  "elements_next view atom_index atom_end =
     (if atom_index = atom_end then None
      else Some
       (and_then (ok_or Truncated
          (do { delta \<leftarrow> usize_mul (unat atom_index) 4; offset \<leftarrow> usize_add (sv_atom_refs_start view) delta;
                end \<leftarrow> usize_add offset 4; get_range (sv_bytes view) offset end })) (\<lambda>descriptor.
        and_then (index_range (sv_bytes view) (sv_arena_start view) (sv_arena_start view + sv_arena_len view)) (\<lambda>arena.
        and_then (decode_atom descriptor arena) (\<lambda>(atom, _). Done (atom, atom_index + 1))))))"

lemma elements_next_step:
  assumes "elements_next view i e = Some (Done (atom, i'))"
  shows "unat (e - i') < unat (e - i)"
proof -
  from assms have "i \<noteq> e" "i' = i + 1" by (auto simp: elements_next_def and_then_Done_iff split: if_splits)
  then have ne: "e - i \<noteq> 0" and step: "e - i' = (e - i) - 1" by (simp_all add: algebra_simps)
  show ?thesis unfolding step by (rule measure_unat[OF ne])
qed

function collect_elements :: "stored_event_view \<Rightarrow> u32 \<Rightarrow> u32 \<Rightarrow> string list decoded" where
  "collect_elements view atom_index atom_end =
     (case elements_next view atom_index atom_end of
        None \<Rightarrow> Done []
      | Some (Done (atom, atom_index')) \<Rightarrow>
          and_then (collect_elements view atom_index' atom_end) (\<lambda>elements. Done (to_owned_text atom # elements))
      | Some (Failed e) \<Rightarrow> Failed e
      | Some Panicked \<Rightarrow> Panicked)"
  by pat_completeness auto
termination by (relation "measure (\<lambda>(view, i, e). unat (e - i))") (auto dest: elements_next_step)

declare collect_elements.simps [simp del]

fun collect_tags :: "nostr_codec \<Rightarrow> stored_event_view \<Rightarrow> nat list \<Rightarrow> u32 \<Rightarrow> string list list decoded" where
  "collect_tags nc view [] previous_end = Done []"
| "collect_tags nc view (tag_index # indices) previous_end =
     and_then (tags_next view tag_index previous_end) (\<lambda>(atom_start, atom_end).
     and_then (collect_elements view atom_start atom_end) (\<lambda>elements.
     and_then (ok_or InvalidTag (nc_parse_tag nc elements)) (\<lambda>tag.
     and_then (collect_tags nc view indices atom_end) (\<lambda>tags. Done (tag # tags)))))"

definition materialize_event :: "nostr_codec \<Rightarrow> stored_event_view \<Rightarrow> event decoded" where
  "materialize_event nc view =
     and_then (collect_tags nc view [0..<unat (sv_tag_count view)] 0) (\<lambda>tags.
     and_then (id_bytes view) (\<lambda>eid.
     and_then (pubkey_bytes view) (\<lambda>pubkey.
     and_then (created_at_secs view) (\<lambda>created_at.
     and_then (kind_u16 view) (\<lambda>kind.
     and_then (view_content view) (\<lambda>content.
     and_then (signature_bytes view) (\<lambda>raw.
     and_then (ok_or InvalidSignature (nc_sig_of nc raw)) (\<lambda>sig.
     Done \<lparr>ev_id = nc_id_of nc eid, ev_pubkey = nc_pubkey_of nc pubkey, ev_created_at = created_at, ev_kind = kind,
           ev_tags = tags, ev_content = content, ev_sig = sig\<rparr>))))))))"

section \<open>Displaced rows\<close>

definition encode_stored :: "nostr_codec \<Rightarrow> stored_event \<Rightarrow> u8 list decoded" where
  "encode_stored nc stored =
     and_then (encode_event nc (st_event stored)) (\<lambda>event.
     and_then (encode_provenance (st_provenance stored)) (\<lambda>provenance.
     and_then (checked_capacity COMPOSITE_HEADER_LEN (length event) (length provenance)) (\<lambda>_.
     and_then (push_u32 (COMPOSITE_MAGIC @ [COMPOSITE_VERSION] @ [0, 0, 0]) (length event)) (\<lambda>out.
     and_then (push_u32 out (length provenance)) (\<lambda>out.
     Done (out @ event @ provenance))))))"

definition decode_stored :: "nostr_codec \<Rightarrow> u8 list \<Rightarrow> stored_event decoded" where
  "decode_stored nc bytes =
     (if length bytes < COMPOSITE_HEADER_LEN then Failed Truncated
      else and_then (check_magic_and_version bytes COMPOSITE_MAGIC COMPOSITE_VERSION) (\<lambda>_.
           and_then (index_range bytes 5 8) (\<lambda>reserved.
           if reserved \<noteq> [0, 0, 0] then Failed InvalidReserved
           else and_then (read_u32 bytes COMPOSITE_EVENT_LEN_OFFSET) (\<lambda>event_len.
                and_then (read_u32 bytes COMPOSITE_PROVENANCE_LEN_OFFSET) (\<lambda>provenance_len.
                and_then (checked_capacity COMPOSITE_HEADER_LEN (unat event_len) (unat provenance_len)) (\<lambda>expected_len.
                if expected_len > length bytes then Failed Truncated
                else if expected_len < length bytes then Failed TrailingBytes
                else and_then (ok_or LengthOverflow (usize_add COMPOSITE_HEADER_LEN (unat event_len))) (\<lambda>provenance_start.
                     and_then (index_range bytes COMPOSITE_HEADER_LEN provenance_start) (\<lambda>event_raw.
                     and_then (view_parse event_raw) (\<lambda>view.
                     and_then (materialize_event nc view) (\<lambda>event.
                     and_then (index_range bytes provenance_start expected_len) (\<lambda>provenance_raw.
                     and_then (decode_provenance nc provenance_raw) (\<lambda>provenance.
                     Done \<lparr>st_event = event, st_provenance = provenance\<rparr>))))))))))))"

section \<open>Matching a row\<close>

record nostr_filter =
  nf_axes :: concrete_filter
  nf_search :: "string option"

datatype indexed_match = IndexedNone | IndexedAuthor | IndexedKind | IndexedTag char

record prepared_tag_values =
  pt_text :: "string fset"
  pt_raw32 :: "u8 list list"

record prepared_filter =
  pf_filter :: nostr_filter
  pf_generic_tags :: "(char \<times> prepared_tag_values) list"

text \<open>\<open>binary_search\<close> on the sorted identities is membership.\<close>

fun prepared_matches :: "prepared_tag_values \<Rightarrow> atom_ref \<Rightarrow> bool" where
  "prepared_matches wanted (AtomText actual) \<longleftrightarrow> actual |\<in>| pt_text wanted"
| "prepared_matches wanted (AtomRaw32 actual) \<longleftrightarrow> actual \<in> set (pt_raw32 wanted)"

definition prepare :: "nostr_filter \<Rightarrow> prepared_filter" where
  "prepare f =
     \<lparr>pf_filter = f,
      pf_generic_tags = map (\<lambda>(name, values).
        (name, \<lparr>pt_text = values, pt_raw32 = sort (List.map_filter decode_hex_32 (sorted_list_of_fset values))\<rparr>))
        (sorted_list_of_fmap (cf_tags (nf_axes f)))\<rparr>"

definition axis_rejects :: "'a::linorder fset option \<Rightarrow> ('a \<Rightarrow> bool) \<Rightarrow> bool" where
  "axis_rejects axis test \<longleftrightarrow>
     (case axis of None \<Rightarrow> False | Some values \<Rightarrow> values \<noteq> {||} \<and> \<not> (\<exists>v \<in> set (sorted_list_of_fset values). test v))"

fun any_tag_matches :: "stored_event_view \<Rightarrow> u8 \<Rightarrow> prepared_tag_values \<Rightarrow> nat list \<Rightarrow> u32 \<Rightarrow> bool decoded" where
  "any_tag_matches view name wanted [] previous_end = Done False"
| "any_tag_matches view name wanted (tag_index # indices) previous_end =
     and_then (tags_next view tag_index previous_end) (\<lambda>(atom_start, atom_end).
     case elements_next view atom_start atom_end of
       None \<Rightarrow> any_tag_matches view name wanted indices atom_end
     | Some first \<Rightarrow>
         and_then first (\<lambda>(tag_name, atom_index).
         case elements_next view atom_index atom_end of
           None \<Rightarrow> any_tag_matches view name wanted indices atom_end
         | Some second \<Rightarrow>
             and_then second (\<lambda>(value, _).
             if is_single_ascii tag_name name \<and> prepared_matches wanted value then Done True
             else any_tag_matches view name wanted indices atom_end)))"

fun all_tags_match :: "stored_event_view \<Rightarrow> indexed_match \<Rightarrow> (char \<times> prepared_tag_values) list \<Rightarrow> bool decoded" where
  "all_tags_match view indexed [] = Done True"
| "all_tags_match view indexed ((name, wanted) # rest) =
     (if indexed = IndexedTag name then all_tags_match view indexed rest
      else and_then (any_tag_matches view (word_of_nat (of_char name)) wanted [0..<unat (sv_tag_count view)] 0) (\<lambda>any_match.
           if \<not> any_match then Done False else all_tags_match view indexed rest))"

definition ascii_lower :: "u8 \<Rightarrow> u8" where
  "ascii_lower b = (if 0x41 \<le> b \<and> b \<le> 0x5A then b + 0x20 else b)"

definition eq_ignore_ascii_case :: "u8 list \<Rightarrow> u8 list \<Rightarrow> bool" where
  "eq_ignore_ascii_case a b \<longleftrightarrow> map ascii_lower a = map ascii_lower b"

definition windows :: "nat \<Rightarrow> 'a list \<Rightarrow> 'a list list" where
  "windows n xs = map (\<lambda>i. take n (drop i xs)) [0..<length xs + 1 - n]"

definition search_matches :: "stored_event_view \<Rightarrow> string option \<Rightarrow> bool decoded" where
  "search_matches view search =
     (case search of
        None \<Rightarrow> Done True
      | Some text \<Rightarrow>
          (let query = as_bytes text
           in if query = [] then Done True
              else and_then (view_content view) (\<lambda>content.
                   Done (\<exists>window \<in> set (windows (length query) (as_bytes content)). eq_ignore_ascii_case window query))))"

definition matches_prepared_filter_after_index :: "nostr_codec \<Rightarrow> stored_event_view \<Rightarrow> prepared_filter \<Rightarrow> indexed_match \<Rightarrow> bool decoded" where
  "matches_prepared_filter_after_index nc view prepared indexed =
     (let filter = nf_axes (pf_filter prepared)
      in and_then (id_bytes view) (\<lambda>eid.
         if axis_rejects (cf_ids filter) (\<lambda>v. nc_id_bytes nc v = eid) then Done False
         else and_then (pubkey_bytes view) (\<lambda>pubkey.
         if indexed \<noteq> IndexedAuthor \<and> axis_rejects (cf_authors filter) (\<lambda>v. nc_pubkey_bytes nc v = pubkey) then Done False
         else and_then (kind_u16 view) (\<lambda>kind.
         if indexed \<noteq> IndexedKind \<and> axis_rejects (cf_kinds filter) (\<lambda>v. v = kind) then Done False
         else and_then (created_at_secs view) (\<lambda>created_at.
         if (case cf_since filter of None \<Rightarrow> False | Some since \<Rightarrow> created_at < since) \<or>
            (case cf_until filter of None \<Rightarrow> False | Some until \<Rightarrow> created_at > until)
         then Done False
         else and_then (all_tags_match view indexed (pf_generic_tags prepared)) (\<lambda>tags_match.
              if \<not> tags_match then Done False
              else search_matches view (nf_search (pf_filter prepared))))))))"

end
