(* ===== verification/Binary_Atoms.thy ===== *)
theory Binary_Atoms
  imports Binary_Event
begin

text \<open>
  The leaf codecs of an event row: hexadecimal identities, base-128 lengths and atom descriptors. Each
  reader accepts exactly what its writer produces.
\<close>

section \<open>Hexadecimal identities\<close>

definition hex_pair :: "u8 \<Rightarrow> string" where
  "hex_pair byte = [HEX ! unat (drop_bit 4 byte), HEX ! unat (byte AND 0x0f)]"

lemma encode_hex_32_eq: "encode_hex_32 raw = concat (map hex_pair raw)"
  by (simp add: encode_hex_32_def hex_pair_def[abs_def])

lemma and_mask_unat: "unat (w AND 0x0f) = unat (w :: u8) mod 16" "unat (w AND 0x7f) = unat w mod 128"
proof -
  have "w AND 0x0f = take_bit 4 w" "w AND 0x7f = take_bit 7 w" by (simp_all add: take_bit_eq_mask mask_eq_exp_minus_1)
  then show "unat (w AND 0x0f) = unat w mod 16" "unat (w AND 0x7f) = unat w mod 128" by (simp_all add: take_bit_eq_mod unat_mod)
qed

lemma hex_digit:
  assumes "n < 16"
  shows "nibble (word_of_nat (of_char (HEX ! n))) = Some (word_of_nat n)"
proof -
  have "\<forall>k \<in> set [0..<16]. nibble (word_of_nat (of_char (HEX ! k))) = Some (word_of_nat k)"
    by (simp add: upt_conv_Cons HEX_def nibble_def of_char_def word_le_nat_alt)
  then show ?thesis using assms by simp
qed

lemma nibble_Some:
  assumes "nibble b = Some x"
  shows "unat x < 16 \<and> b = word_of_nat (of_char (HEX ! unat x))"
proof -
  have "48 \<le> unat b \<and> unat b \<le> 57 \<or> 97 \<le> unat b \<and> unat b \<le> 102"
    using assms by (auto simp: nibble_def word_le_nat_alt split: if_splits)
  then have "unat b \<in> set ([48..<58] @ [97..<103])"
    by (simp only: set_append Un_iff set_upt atLeastLessThan_iff) linarith
  moreover have "\<forall>k \<in> set ([48..<58] @ [97..<103]). \<forall>x. nibble (word_of_nat k) = Some x \<longrightarrow>
      unat x < 16 \<and> word_of_nat k = (word_of_nat (of_char (HEX ! unat x)) :: u8)"
    by (simp add: upt_conv_Cons HEX_def nibble_def of_char_def word_le_nat_alt)
  moreover have "nibble (word_of_nat (unat b)) = Some x" using assms by simp
  ultimately have "unat x < 16 \<and> word_of_nat (unat b) = (word_of_nat (of_char (HEX ! unat x)) :: u8)" by blast
  then show ?thesis by simp
qed

lemma nibbles_join: "unat x < 16 \<Longrightarrow> unat y < 16 \<Longrightarrow> unat (push_bit 4 x OR y) = unat (x :: u8) * 16 + unat y"
  using unat_or_push_bit[of y 4 x] by (simp add: or.commute)

abbreviation digit :: "nat \<Rightarrow> u8" where
  "digit n \<equiv> word_of_nat (of_char (HEX ! n))"

lemma as_bytes_hex_pair: "as_bytes (hex_pair c @ s) = digit (unat c div 16) # digit (unat c mod 16) # as_bytes s"
  by (simp add: as_bytes_def hex_pair_def unat_drop_bit and_mask_unat)

lemma length_hex_pairs: "length (concat (map hex_pair raw)) = 2 * length raw"
  by (induction raw) (simp_all add: hex_pair_def)

lemma decode_hex_pairs_iff: "decode_hex_pairs bs = Some raw \<longleftrightarrow> bs = as_bytes (concat (map hex_pair raw))"
proof (induction bs arbitrary: raw rule: decode_hex_pairs.induct)
  case (1 a b rest)
  show ?case
  proof
    assume "decode_hex_pairs (a # b # rest) = Some raw"
    then obtain x y raw' where r: "nibble a = Some x" "nibble b = Some y" "decode_hex_pairs rest = Some raw'" "raw = (push_bit 4 x OR y) # raw'"
      by (auto split: Option.bind_splits)
    note n = nibble_Some[OF r(1)] nibble_Some[OF r(2)]
    have "rest = as_bytes (concat (map hex_pair raw'))" using 1 r(1-3) by auto
    moreover have "unat (push_bit 4 x OR y) div 16 = unat x" "unat (push_bit 4 x OR y) mod 16 = unat y" using nibbles_join n by simp_all
    ultimately show "a # b # rest = as_bytes (concat (map hex_pair raw))" using r(4) n by (simp add: as_bytes_hex_pair)
  next
    assume h: "a # b # rest = as_bytes (concat (map hex_pair raw))"
    then obtain c raw' where raw: "raw = c # raw'" by (cases raw) (simp_all add: as_bytes_def)
    let ?x = "word_of_nat (unat c div 16) :: u8" and ?y = "word_of_nat (unat c mod 16) :: u8"
    have lt: "unat c div 16 < 16" "unat c mod 16 < 16" using unat_u8_less[of c] by simp_all
    have ab: "a = word_of_nat (of_char (HEX ! (unat c div 16)))" "b = word_of_nat (of_char (HEX ! (unat c mod 16)))"
      and rest: "rest = as_bytes (concat (map hex_pair raw'))"
      using h raw by (simp_all add: as_bytes_hex_pair)
    have u: "unat ?x = unat c div 16" "unat ?y = unat c mod 16" using lt by (simp_all add: unat_of_nat)
    then have "unat (push_bit 4 ?x OR ?y) = unat c" using nibbles_join[of ?x ?y] lt by simp
    then have "push_bit 4 ?x OR ?y = c" by (rule unsigned_word_eqI)
    moreover have nib: "nibble a = Some ?x" "nibble b = Some ?y" using ab lt by (simp_all add: hex_digit)
    moreover have "decode_hex_pairs rest = Some raw'" using 1[OF nib] rest by simp
    ultimately show "decode_hex_pairs (a # b # rest) = Some raw" using raw by simp
  qed
next
  case (2 v)
  have "[v] \<noteq> as_bytes (concat (map hex_pair raw))"
  proof
    assume "[v] = as_bytes (concat (map hex_pair raw))"
    then have "length [v] = 2 * length raw" by (simp only: length_as_bytes length_hex_pairs)
    then have "Suc 0 = 2 * length raw" by simp
    then show False by presburger
  qed
  then show ?case by simp
next
  case 3
  have "[] = as_bytes (concat (map hex_pair raw)) \<longleftrightarrow> raw = []" by (auto simp: as_bytes_def hex_pair_def)
  then show ?case by auto
qed

lemma decode_hex_32_iff: "decode_hex_32 s = Some raw \<longleftrightarrow> length raw = 32 \<and> s = encode_hex_32 raw"
  using length_hex_pairs[of raw] by (auto simp: decode_hex_32_def Let_def decode_hex_pairs_iff encode_hex_32_eq)

section \<open>Base-128 lengths\<close>

lemma u32_and_127: "unat (w AND 0x7f) = unat (w :: u32) mod 128"
proof -
  have "w AND 0x7f = take_bit 7 w" by (simp add: take_bit_eq_mask mask_eq_exp_minus_1)
  then show ?thesis by (simp add: take_bit_eq_mod unat_mod)
qed

lemma unat_ucast_u8 [simp]: "unat (ucast (w :: u32) :: u8) = unat w mod 256" "unat (ucast (b :: u8) :: u32) = unat b"
  using unat_u8_less[of b] by (simp_all add: unsigned_ucast_eq take_bit_eq_mod)

lemma or_128: "unat b < 128 \<Longrightarrow> unat (b OR 0x80) = unat (b :: u8) + 128"
  using unat_or_push_bit[of b 7 1] by simp

lemma and_128: "b AND 0x80 = 0 \<longleftrightarrow> unat (b :: u8) < 128"
proof -
  have "b AND 0x80 = 0 \<longleftrightarrow> \<not> bit b 7" using and_exp_eq_0_iff_not_bit[of b 7] by simp
  also have "bit b 7 \<longleftrightarrow> bit (unat b) 7" by (simp add: bit_unsigned_iff)
  also have "\<dots> \<longleftrightarrow> odd (unat b div 128)" by (simp add: bit_iff_odd)
  also have "\<not> odd (unat b div 128) \<longleftrightarrow> unat b < 128"
  proof -
    have "unat b div 128 = 0 \<or> unat b div 128 = 1" using unat_u8_less[of b] by linarith
    then show ?thesis by (auto simp: div_eq_0_iff)
  qed
  finally show ?thesis by simp
qed

lemma leb128_loop_leb: "leb128_loop w = leb (unat w)"
proof (induction w rule: leb128_loop.induct)
  case (1 w)
  have byte: "ucast (w AND 0x7f) = (word_of_nat (unat w mod 128) :: u8)"
    by (rule unsigned_word_eqI[where ?'a = nat]) (simp add: u32_and_127 unat_of_nat)
  show ?case
  proof (cases "unat w < 128")
    case True
    then have "drop_bit 7 w = 0" by (simp add: unat_eq_zero[symmetric] unat_drop_bit)
    then show ?thesis using True byte by (simp add: leb128_loop.simps[of w] leb.simps[of "unat w"])
  next
    case False
    then have nz: "drop_bit 7 w \<noteq> 0" by (simp add: unat_eq_zero[symmetric] unat_drop_bit div_eq_0_iff)
    have "ucast (w AND 0x7f) OR 0x80 = (word_of_nat (unat w mod 128 + 128) :: u8)"
    proof (rule unsigned_word_eqI[where ?'a = nat])
      have "unat (ucast (w AND 0x7f) :: u8) = unat w mod 128" by (simp add: u32_and_127)
      moreover have "unat w mod 128 < 128" by simp
      ultimately show "unat (ucast (w AND 0x7f) OR 0x80 :: u8) = unat (word_of_nat (unat w mod 128 + 128) :: u8)"
        by (simp add: or_128 unat_of_nat del: of_nat_add)
    qed
    then show ?thesis using False nz 1[OF refl refl nz] by (simp add: leb128_loop.simps[of w] leb.simps[of "unat w"] unat_drop_bit)
  qed
qed

lemma leb_not_Nil [simp]: "leb n \<noteq> []"
  by (subst leb.simps) simp

lemma length_leb: "n < 2 ^ 32 \<Longrightarrow>
  length (leb n) = (if n < 2 ^ 7 then 1 else if n < 2 ^ 14 then 2 else if n < 2 ^ 21 then 3 else if n < 2 ^ 28 then 4 else 5)"
proof -
  assume n: "n < 2 ^ 32"
  have len: "length (leb k) = (if k < 128 then 1 else Suc (length (leb (k div 128))))" for k by (simp add: leb.simps[of k])
  have "n div 128 div 128 = n div 16384" "n div 16384 div 128 = n div 2097152" "n div 2097152 div 128 = n div 268435456" "n div 268435456 < 128"
    using n by (simp_all add: div_mult2_eq[symmetric] div_less_iff_less_mult)
  then show ?thesis using len[of n] len[of "n div 128"] len[of "n div 16384"] len[of "n div 2097152"] len[of "n div 268435456"]
    by (simp add: div_less_iff_less_mult)
qed

lemma leb128_u32_len_eq: "leb128_u32_len n = Done len \<longleftrightarrow> n < 2 ^ 32 \<and> len = length (leb n)"
proof (cases "n < 2 ^ 32")
  case True
  then have "unat (word_of_nat n :: u32) = n" by (simp add: unat_of_nat)
  then show ?thesis using True length_leb[OF True] by (auto simp: leb128_u32_len_def u32_try_from_def word_le_nat_alt)
qed (simp add: leb128_u32_len_def u32_try_from_def)

lemma take_bytes_iff:
  "take_bytes bytes cursor len = Done (v, c) \<longleftrightarrow>
     c = cursor + len \<and> c < 2 ^ 64 \<and> c \<le> length bytes \<and> v = take len (drop cursor bytes)"
  by (auto simp: take_bytes_def and_then_Done_iff get_range_Some_iff)

lemma take_bytes_no_panic [simp]: "take_bytes bytes cursor len \<noteq> Panicked"
  by (simp add: take_bytes_def and_then_Panicked_iff)

lemma take_one: "cursor < length bytes \<Longrightarrow> take (Suc 0) (drop cursor bytes) = [bytes ! cursor]"
  by (simp add: take_Suc hd_drop_conv_nth)

lemma word_of_nat_unat: "word_of_nat (unat w) = w"
  by simp

lemma take_leb128_loop_leb:
  assumes "drop cursor bytes = leb n @ rest" "unat v < 2 ^ (7 * i)" "n * 2 ^ (7 * i) < 2 ^ 32" "i < 5" "0 < i \<Longrightarrow> 0 < n"
    "length bytes < 2 ^ 64"
  shows "take_leb128_loop bytes [i..<5] v cursor = Done (word_of_nat (unat v + n * 2 ^ (7 * i)), cursor + length (leb n))"
  using assms
proof (induction n arbitrary: i v cursor rule: leb.induct)
  case (1 n)
  obtain b bs where b: "leb n = b # bs" by (cases "leb n") simp_all
  then have drop: "drop cursor bytes = b # bs @ rest" using 1 by simp
  then have cursor: "cursor < length bytes" "bytes ! cursor = b" "drop (Suc cursor) bytes = bs @ rest"
    by (metis drop_all leI list.distinct(1), metis nth_via_drop, metis drop_Suc list.sel(3) tl_drop)
  then have tb: "take_bytes bytes cursor 1 = Done ([b], cursor + 1)" using 1(7) by (simp add: take_bytes_iff take_one)
  have ub: "unat b mod 128 = n mod 128" "unat b < 128 \<longleftrightarrow> n < 128"
    using b by (auto simp: leb.simps[of n] unat_of_nat mod_mod_cancel simp del: of_nat_add split: if_splits)
  let ?p = "ucast (b AND 0x7f) :: u32"
  have p: "unat ?p = n mod 128" using ub(1) by (simp add: and_mask_unat)
  have pn: "n mod 128 * 2 ^ (7 * i) < 2 ^ 32" using 1(4) by (meson le_less_trans mod_less_eq_dividend mult_le_mono1)
  have v': "unat (v OR push_bit (i * 7) ?p) = unat v + n mod 128 * 2 ^ (7 * i)"
    using unat_or_push_bit[of v "i * 7" ?p] 1(3) p pn by (simp add: mult.commute)
  have small: "\<not> (i = 4 \<and> ?p > 0x0f)" using p pn by (auto simp: word_less_nat_alt)
  have step: "[i..<5] = i # [Suc i..<5]" using 1(5) by (simp add: upt_conv_Cons)
  show ?case
  proof (cases "n < 128")
    case True
    then have "unat ?p = n" using p by simp
    then have last: "\<not> (0 < i \<and> ?p = 0)" using 1(6) by (metis less_irrefl unsigned_0)
    have high: "b AND 0x80 = 0" using ub(2) True by (simp only: and_128)
    have "take_leb128_loop bytes [i..<5] v cursor = Done (v OR push_bit (i * 7) ?p, cursor + 1)"
      unfolding step using tb small last high by (simp add: Let_def)
    moreover have "v OR push_bit (i * 7) ?p = word_of_nat (unat v + n * 2 ^ (7 * i))" using v' True by (metis mod_less word_of_nat_unat)
    ultimately show ?thesis using True by (simp add: leb.simps[of n])
  next
    case False
    have bs: "bs = leb (n div 128)" using b False by (simp add: leb.simps[of n])
    have i: "Suc i < 5"
    proof (rule ccontr)
      assume "\<not> Suc i < 5"
      then have "i = 4" using 1(5) by simp
      then show False using 1(4) False by simp
    qed
    have w: "unat (v OR push_bit (i * 7) ?p) < 2 ^ (7 * Suc i)"
    proof -
      have "n mod 128 * 2 ^ (7 * i) + 2 ^ (7 * i) \<le> 128 * 2 ^ (7 * i)"
        by (metis Suc_leI add.commute mod_less_divisor mult_Suc mult_le_mono1 zero_less_numeral)
      moreover have "(2 :: nat) ^ (7 * Suc i) = 128 * 2 ^ (7 * i)" by (simp add: power_add)
      ultimately show ?thesis using v' 1(3) by linarith
    qed
    have "n div 128 * 2 ^ (7 * Suc i) \<le> n * 2 ^ (7 * i)" by (simp add: power_add)
    then have "n div 128 * 2 ^ (7 * Suc i) < 2 ^ 32" using 1(4) by simp
    from 1(1)[OF False _ w this i] cursor(3) bs 1(7) False
    have "take_leb128_loop bytes [Suc i..<5] (v OR push_bit (i * 7) ?p) (Suc cursor) =
        Done (word_of_nat (unat (v OR push_bit (i * 7) ?p) + n div 128 * 2 ^ (7 * Suc i)), Suc cursor + length bs)" by auto
    moreover have "n mod 128 * 2 ^ (7 * i) + n div 128 * 2 ^ (7 * Suc i) = n * 2 ^ (7 * i)"
      by (simp add: power_add) (metis add.commute div_mult_mod_eq mult.assoc mult.commute distrib_right)
    moreover have "b AND 0x80 \<noteq> 0" using ub(2) False by (simp only: and_128 not_False_eq_True)
    ultimately show ?thesis unfolding step using tb small v' b by (simp add: Let_def add.assoc del: of_nat_add of_nat_mult)
  qed
qed

lemma take_leb128_u32_leb:
  assumes "drop cursor bytes = leb n @ rest" "n < 2 ^ 32" "length bytes < 2 ^ 64"
  shows "take_leb128_u32 bytes cursor = Done (word_of_nat n, cursor + length (leb n))"
  using take_leb128_loop_leb[OF assms(1), of 0 0] assms(2,3) by (simp add: take_leb128_u32_def)

lemma take_leb128_loop_Done:
  assumes "take_leb128_loop bytes [i..<5] v cursor = Done (w, c)" "unat v < 2 ^ (7 * i)" "i \<le> 5"
  shows "\<exists>n. unat w = unat v + n * 2 ^ (7 * i) \<and> drop cursor bytes = leb n @ drop c bytes \<and> c = cursor + length (leb n) \<and>
    c \<le> length bytes \<and> (0 < i \<longrightarrow> 0 < n)"
  using assms
proof (induction "5 - i" arbitrary: i v cursor)
  case (Suc k)
  then have step: "[i..<5] = i # [Suc i..<5]" by (simp add: upt_conv_Cons)
  let ?b = "bytes ! cursor"
  let ?p = "ucast (?b AND 0x7f) :: u32"
  let ?v = "v OR push_bit (i * 7) ?p"
  from Suc.prems(1) obtain taken c' where tb: "take_bytes bytes cursor 1 = Done (taken, c')"
    by (cases "take_bytes bytes cursor 1") (auto simp: step)
  then have cur: "cursor < length bytes" "taken = [?b]" "c' = Suc cursor" by (auto simp: take_bytes_iff take_one)
  then have drop: "drop cursor bytes = ?b # drop (Suc cursor) bytes" by (simp add: Cons_nth_drop_Suc)
  have p: "unat ?p = unat ?b mod 128" by (simp add: and_mask_unat)
  have i: "i < 5" and small: "\<not> (i = 4 \<and> ?p > 0x0f)"
    using Suc.hyps(2) Suc.prems(1) tb cur by (auto simp: step Let_def split: if_splits)
  have pn: "unat ?p * 2 ^ (7 * i) < 2 ^ 32"
  proof (cases "i = 4")
    case True
    then show ?thesis using small by (simp add: word_less_nat_alt not_less)
  next
    case False
    then have "(2 :: nat) ^ (7 * i) \<le> 2 ^ 21" using i by (intro power_increasing) auto
    moreover have "unat ?p < 128" using p by simp
    ultimately have "unat ?p * 2 ^ (7 * i) \<le> 128 * 2 ^ 21" by (intro mult_le_mono) auto
    then show ?thesis by simp
  qed
  have v': "unat ?v = unat v + unat ?p * 2 ^ (7 * i)" using unat_or_push_bit[of v "i * 7" ?p] Suc.prems(2) pn by (simp add: mult.commute)
  show ?case
  proof (cases "?b AND 0x80 = 0")
    case True
    then have b: "unat ?b < 128" "unat ?p = unat ?b" using p by (simp_all add: and_128)
    have "w = ?v" "c = Suc cursor" "0 < i \<longrightarrow> ?p \<noteq> 0" using Suc.prems(1) tb cur small True by (auto simp: step Let_def split: if_splits)
    moreover have "leb (unat ?b) = [?b]" using b(1) by (simp add: leb.simps)
    ultimately show ?thesis using v' b(2) drop cur(1) by (intro exI[of _ "unat ?b"]) (auto simp: unat_gt_0)
  next
    case False
    then have b: "128 \<le> unat ?b" by (simp add: and_128)
    have rec: "take_leb128_loop bytes [Suc i..<5] ?v (Suc cursor) = Done (w, c)"
      using Suc.prems(1) tb cur small False by (auto simp: step Let_def split: if_splits)
    have "unat ?v < 2 ^ (7 * Suc i)"
    proof -
      have "unat ?p * 2 ^ (7 * i) + 2 ^ (7 * i) \<le> 128 * 2 ^ (7 * i)"
        using p by (metis Suc_leI add.commute mod_less_divisor mult_Suc mult_le_mono1 zero_less_numeral)
      moreover have "(2 :: nat) ^ (7 * Suc i) = 128 * 2 ^ (7 * i)" by (simp add: power_add)
      ultimately show ?thesis using v' Suc.prems(2) by linarith
    qed
    moreover have "k = 5 - Suc i" "Suc i \<le> 5" using Suc.hyps(2) i by simp_all
    ultimately obtain n where n: "unat w = unat ?v + n * 2 ^ (7 * Suc i)"
      "drop (Suc cursor) bytes = leb n @ drop c bytes" "c = Suc cursor + length (leb n)" "c \<le> length bytes" "0 < n"
      using Suc.hyps(1)[of "Suc i", OF _ rec] by blast
    let ?n = "n * 128 + unat ?p"
    have "?b = word_of_nat (?n mod 128 + 128)"
    proof (rule unsigned_word_eqI[where ?'a = nat])
      have "unat ?b = unat ?b mod 128 + 128" using b unat_u8_less[of ?b] by (simp add: le_mod_geq)
      moreover have "?n mod 128 = unat ?b mod 128" using p by simp
      ultimately show "unat ?b = unat (word_of_nat (?n mod 128 + 128) :: u8)" using unat_u8_less[of ?b] by (simp add: unat_of_nat del: of_nat_add)
    qed
    moreover have "?n div 128 = n" using p by simp
    moreover have "\<not> ?n < 128" using n(5) by simp
    ultimately have "leb ?n = ?b # leb n" unfolding leb.simps[of ?n] by (simp only: if_False)
    moreover have "unat w = unat v + ?n * 2 ^ (7 * i)" using n(1) v' by (simp add: power_add algebra_simps)
    ultimately show ?thesis using n(2-5) drop by (intro exI[of _ ?n]) auto
  qed
qed simp

lemma take_leb128_u32_Done:
  assumes "take_leb128_u32 bytes cursor = Done (w, c)"
  shows "drop cursor bytes = leb (unat w) @ drop c bytes" "c = cursor + length (leb (unat w))" "c \<le> length bytes"
  using take_leb128_loop_Done[of bytes 0 0 cursor w c] assms by (auto simp: take_leb128_u32_def)

lemma take_leb128_loop_no_panic: "take_leb128_loop bytes indices v cursor \<noteq> Panicked"
  by (induction bytes indices v cursor rule: take_leb128_loop.induct) (auto simp: and_then_Panicked_iff Let_def split: if_splits)

section \<open>Atom descriptors\<close>

lemma unat_u32_less: "unat (w :: u32) < 2 ^ 32"
  by (rule order.strict_trans2[OF unsigned_less]) simp

lemma low_mask: "unat (w AND 0x3fffffff) = unat (w :: u32) mod 2 ^ 30"
proof -
  have "w AND 0x3fffffff = take_bit 30 w" by (simp add: take_bit_eq_mask mask_eq_exp_minus_1)
  then show ?thesis by (simp add: take_bit_eq_mod unat_mod)
qed

lemma kind_mask: "unat (w AND 0xc0000000) = unat (w :: u32) div 2 ^ 30 * 2 ^ 30"
proof -
  have "w AND 0xc0000000 = push_bit 30 (drop_bit 30 w)"
  proof (rule bit_eqI)
    fix n assume "possible_bit TYPE(u32) n"
    have e: "(0xc0000000 :: u32) = NOT (mask 30)" by (simp add: mask_eq_exp_minus_1)
    show "bit (w AND 0xc0000000) n = bit (push_bit 30 (drop_bit 30 w)) n" unfolding e by (auto simp: bit_simps)
  qed
  moreover have "unat w div 2 ^ 30 * 2 ^ 30 < 2 ^ 32" by (rule le_less_trans[OF div_times_less_eq_dividend unat_u32_less])
  ultimately show ?thesis by (simp only:) (subst unsigned_push_bit_eq, simp add: push_bit_eq_mult take_bit_nat_eq_self unat_drop_bit)
qed

lemma reserved_mask: "w AND 0x0f000000 = 0 \<longleftrightarrow> unat (w :: u32) div 2 ^ 24 mod 16 = 0"
proof -
  have "w AND 0x0f000000 = push_bit 24 (take_bit 4 (drop_bit 24 w))"
  proof (rule bit_eqI)
    fix n assume "possible_bit TYPE(u32) n"
    have e: "(0x0f000000 :: u32) = push_bit 24 (mask 4)" by (simp add: mask_eq_exp_minus_1)
    show "bit (w AND 0x0f000000) n = bit (push_bit 24 (take_bit 4 (drop_bit 24 w))) n" unfolding e by (auto simp: bit_simps)
  qed
  moreover have "push_bit 24 v = 0 \<longleftrightarrow> v = 0" if "unat v < 16" for v :: u32
  proof -
    have "unat (push_bit 24 v) = unat v * 2 ^ 24" using that by (subst unsigned_push_bit_eq) (simp add: push_bit_eq_mult take_bit_nat_eq_self)
    then show ?thesis by (simp add: unat_eq_zero[symmetric])
  qed
  moreover have "unat (take_bit 4 (drop_bit 24 w)) = unat w div 2 ^ 24 mod 16" by (simp add: take_bit_eq_mod unat_mod unat_drop_bit)
  ultimately show ?thesis by (simp add: unat_eq_zero[symmetric])
qed

lemma inline_len: "unat (drop_bit 28 w AND 0x03) = unat (w :: u32) div 2 ^ 28 mod 4"
proof -
  have "drop_bit 28 w AND 0x03 = take_bit 2 (drop_bit 28 w)" by (simp add: take_bit_eq_mask mask_eq_exp_minus_1)
  then show ?thesis by (simp add: take_bit_eq_mod unat_mod unat_drop_bit)
qed

text \<open>The descriptor of an inline text is its length nibble followed by the padded text.\<close>

lemma unat_from_be_u32: "length bs = 4 \<Longrightarrow> unat (from_be_bytes bs :: u32) = be_nat bs"
  using be_nat_less[of bs] by (simp add: from_be_bytes_def unat_of_nat)

lemma be_nat_Cons: "be_nat (b # bs) = unat b * 256 ^ length bs + be_nat bs"
  using be_nat_append[of "[b]" bs] by (simp add: be_nat_def)

lemma inline_atom_descriptor_bytes:
  assumes "length bs \<le> 3"
  shows "to_be_bytes (inline_atom_descriptor bs) = word_of_nat (16 * length bs) # bs @ replicate (3 - length bs) 0"
    and "unat (inline_atom_descriptor bs) = length bs * 2 ^ 28 + be_nat (bs @ replicate (3 - length bs) 0)"
proof -
  let ?pad = "bs @ replicate (3 - length bs) 0" and ?n = "word_of_nat (length bs) :: u32"
  have len: "length ?pad = 3" using assms by simp
  have small: "be_nat ?pad < 2 ^ 24" using be_nat_less[of ?pad] len by simp
  have x: "unat (from_be_bytes (0 # ?pad) :: u32) = be_nat ?pad" using len by (simp add: unat_from_be_u32 be_nat_Cons)
  have n: "unat ?n = length bs" using assms by (simp add: unat_of_nat)
  have "be_nat ?pad < 2 ^ 28" using small by simp
  then show u: "unat (inline_atom_descriptor bs) = length bs * 2 ^ 28 + be_nat ?pad"
    using unat_or_push_bit[of "from_be_bytes (0 # ?pad)" 28 ?n] x n assms unfolding inline_atom_descriptor_def
    by (simp add: or.commute)
  let ?d = "word_of_nat (16 * length bs) # ?pad"
  have "unat (word_of_nat (16 * length bs) :: u8) = 16 * length bs" using assms by (simp add: unat_of_nat del: of_nat_mult)
  then have "unat (from_be_bytes ?d :: u32) = unat (inline_atom_descriptor bs)" using u len by (simp add: unat_from_be_u32 be_nat_Cons)
  then have eq: "inline_atom_descriptor bs = from_be_bytes ?d" using unsigned_word_eqI by metis
  show "to_be_bytes (inline_atom_descriptor bs) = ?d" unfolding eq using len by (intro to_from_be_bytes) simp_all
qed

lemma inline_descriptor_iff:
  assumes "length desc = 4"
  shows "(\<exists>bs. length bs \<le> 3 \<and> desc = to_be_bytes (inline_atom_descriptor bs)) \<longleftrightarrow>
    unat (hd desc) < 64 \<and> unat (hd desc) mod 16 = 0 \<and> (\<forall>b \<in> set (drop (1 + unat (hd desc) div 16) desc). b = 0)"
    (is "?l \<longleftrightarrow> ?r")
proof
  assume ?l
  then obtain bs where bs: "length bs \<le> 3" "desc = word_of_nat (16 * length bs) # bs @ replicate (3 - length bs) 0"
    using inline_atom_descriptor_bytes by metis
  have "unat (word_of_nat (16 * length bs) :: u8) = 16 * length bs" using bs(1) by (simp add: unat_of_nat del: of_nat_mult)
  then show ?r using bs by auto
next
  assume r: ?r
  let ?n = "unat (hd desc) div 16"
  let ?bs = "take ?n (tl desc)"
  have n: "?n \<le> 3" "unat (hd desc) = 16 * ?n" using r by auto
  have len: "length ?bs = ?n" using n assms by simp
  have "desc = hd desc # tl desc" using assms by (cases desc) auto
  moreover have "tl desc = ?bs @ drop ?n (tl desc)" by simp
  moreover have "drop ?n (tl desc) = replicate (3 - ?n) 0"
    using r assms by (intro replicate_eqI) (auto simp: drop_Suc)
  moreover have "hd desc = word_of_nat (16 * length ?bs)" using n len by (metis word_of_nat_unat)
  ultimately have "desc = to_be_bytes (inline_atom_descriptor ?bs)" using inline_atom_descriptor_bytes(1)[of ?bs] n(1) len by metis
  moreover have "length ?bs \<le> 3" using n(1) len by simp
  ultimately show ?l by blast
qed

text \<open>What an element becomes: its arena cell, its descriptor at an arena offset, and the atom a reader
  sees.\<close>

definition cell_of :: "string \<Rightarrow> u8 list" where
  "cell_of s = (if length s \<le> 3 then [] else case decode_hex_32 s of Some raw \<Rightarrow> raw | None \<Rightarrow> leb (length s) @ as_bytes s)"

definition atom_of :: "string \<Rightarrow> atom_ref" where
  "atom_of s = (if length s \<le> 3 then AtomText s else case decode_hex_32 s of Some raw \<Rightarrow> AtomRaw32 raw | None \<Rightarrow> AtomText s)"

definition descriptor_of :: "string \<Rightarrow> nat \<Rightarrow> u32" where
  "descriptor_of s offset =
     (if length s \<le> 3 then inline_atom_descriptor (as_bytes s)
      else (case decode_hex_32 s of Some _ \<Rightarrow> ATOM_RAW32 | None \<Rightarrow> ATOM_UTF8) OR word_of_nat offset)"

definition element_fits :: "string \<Rightarrow> nat \<Rightarrow> bool" where
  "element_fits s offset \<longleftrightarrow> length s \<le> 3 \<or> offset < 2 ^ 30 \<and> (decode_hex_32 s = None \<longrightarrow> length s < 2 ^ 32)"

lemma to_owned_text_atom_of: "to_owned_text (atom_of s) = s"
  by (auto simp: atom_of_def decode_hex_32_iff split: option.split)

lemma arena_offset_descriptor_eq:
  "arena_offset_descriptor kind n = (if n < 2 ^ 30 then Done (kind OR word_of_nat n) else Failed LengthOverflow)"
  by (auto simp: arena_offset_descriptor_def u32_try_from_def word_less_nat_alt unat_of_nat)

lemma encode_atom_iff:
  "encode_atom s (atoms, arena) = Done r \<longleftrightarrow>
     element_fits s (length arena) \<and> r = (atoms @ [descriptor_of s (length arena)], arena @ cell_of s)"
proof -
  have "push_leb128_u32 a n = (if n < 2 ^ 32 then Done (a @ leb n) else Failed LengthOverflow)" for a n
    by (simp add: push_leb128_u32_def u32_try_from_def leb128_loop_leb unat_of_nat)
  then show ?thesis
    by (auto simp: element_fits_def descriptor_of_def cell_of_def arena_offset_descriptor_eq Let_def and_then_Done_iff split: option.splits if_splits)
qed

lemma unat_arena_descriptor:
  assumes "n < 2 ^ 30" "k = 1 \<or> k = 2" "kind = push_bit 30 (word_of_nat k)"
  shows "unat (kind OR word_of_nat n :: u32) = k * 2 ^ 30 + n"
proof -
  have "unat (word_of_nat n :: u32) = n" "unat (word_of_nat k :: u32) = k" using assms(1,2) by (auto simp: unat_of_nat)
  then show ?thesis using unat_or_push_bit[of "word_of_nat n :: u32" 30 "word_of_nat k"] assms by (auto simp: or.commute)
qed

lemma unat_kinds [simp]:
  "n < 2 ^ 30 \<Longrightarrow> unat (ATOM_UTF8 OR word_of_nat n) = 2 ^ 30 + n" "n < 2 ^ 30 \<Longrightarrow> unat (ATOM_RAW32 OR word_of_nat n) = 2 * 2 ^ 30 + n"
  using unat_arena_descriptor[of n 1 ATOM_UTF8] unat_arena_descriptor[of n 2 ATOM_RAW32] by simp_all

lemma is_str_hex: "is_str (encode_hex_32 raw)"
proof -
  have "b < 0x80" if b: "b \<in> set (as_bytes (concat (map hex_pair raw)))" for b
    using b
  proof (induction raw)
    case (Cons c raw)
    have d: "digit n < 0x80" if "n < 16" for n using nibble_Some[OF hex_digit[OF that]] hex_digit[OF that]
      by (auto simp: nibble_def word_le_nat_alt word_less_nat_alt split: if_splits)
    have "unat c div 16 < 16" "unat c mod 16 < 16" using unat_u8_less[of c] by simp_all
    then show ?case using Cons d by (auto simp: as_bytes_hex_pair)
  qed (simp add: as_bytes_def)
  then show ?thesis by (simp add: is_str_def encode_hex_32_eq utf8_valid_ascii)
qed

lemma kind_iff:
  "w AND ATOM_KIND_MASK = ATOM_INLINE \<longleftrightarrow> unat w div 2 ^ 30 = 0" "w AND ATOM_KIND_MASK = ATOM_UTF8 \<longleftrightarrow> unat w div 2 ^ 30 = 1"
  "w AND ATOM_KIND_MASK = ATOM_RAW32 \<longleftrightarrow> unat w div 2 ^ 30 = 2"
proof -
  have "w AND ATOM_KIND_MASK = k \<longleftrightarrow> unat (w AND ATOM_KIND_MASK) = unat k" for k by (simp add: word_unat_eq_iff)
  then show "w AND ATOM_KIND_MASK = ATOM_INLINE \<longleftrightarrow> unat w div 2 ^ 30 = 0" "w AND ATOM_KIND_MASK = ATOM_UTF8 \<longleftrightarrow> unat w div 2 ^ 30 = 1"
    "w AND ATOM_KIND_MASK = ATOM_RAW32 \<longleftrightarrow> unat w div 2 ^ 30 = 2" unfolding kind_mask by simp_all
qed

lemma hd_descriptor:
  assumes "length desc = 4"
  shows "unat (hd desc) = unat (from_be_bytes desc :: u32) div 2 ^ 24"
proof -
  obtain b bs where "desc = b # bs" "length bs = 3" using assms by (cases desc) auto
  then show ?thesis using be_nat_less[of bs] by (simp add: unat_from_be_u32 be_nat_Cons)
qed

lemma decode_inline_iff:
  assumes "length desc = 4" "unat (from_be_bytes desc :: u32) div 2 ^ 30 = 0"
  shows "decode_atom desc arena = Done r \<longleftrightarrow>
    (\<exists>s. is_str s \<and> length s \<le> 3 \<and> desc = to_be_bytes (inline_atom_descriptor (as_bytes s)) \<and> r = (AtomText s, None))"
proof -
  let ?w = "from_be_bytes desc :: u32"
  let ?len = "unat (hd desc) div 16"
  note hd = hd_descriptor[OF assms(1)]
  have h64: "unat (hd desc) < 64" using assms(2) unfolding hd by (simp add: div_eq_0_iff div_less_iff_less_mult)
  have len: "unat (drop_bit 28 ?w AND 0x03) = ?len"
  proof -
    have "unat ?w div 2 ^ 28 = ?len" unfolding hd by (simp add: div_mult2_eq[symmetric])
    then show ?thesis using h64 by (simp add: inline_len)
  qed
  have res: "?w AND 0x0f000000 = 0 \<longleftrightarrow> unat (hd desc) mod 16 = 0" unfolding reserved_mask hd ..
  have le: "?len \<le> 3" using h64 by simp
  have pad: "(index_range desc (1 + ?len) (length desc) :: u8 list decoded) = Done (drop (1 + ?len) desc)"
    "(index_range desc 1 (1 + ?len) :: u8 list decoded) = Done (take ?len (tl desc))"
    using assms(1) le by (simp_all add: index_range_def get_range_def drop_Suc)
  have "decode_atom desc arena =
    (if unat (hd desc) mod 16 \<noteq> 0 \<or> (\<exists>b \<in> set (drop (1 + ?len) desc). b \<noteq> 0) then Failed InvalidAtom
     else and_then (ok_or InvalidUtf8 (from_utf8 (take ?len (tl desc)))) (\<lambda>text. Done (AtomText text, None)))"
    unfolding decode_atom_def Let_def kind_iff len res using assms(2) by (simp only: pad and_then.simps if_True) simp
  then have l: "decode_atom desc arena = Done r \<longleftrightarrow> unat (hd desc) mod 16 = 0 \<and> (\<forall>b \<in> set (drop (1 + ?len) desc). b = 0) \<and>
      (\<exists>s. from_utf8 (take ?len (tl desc)) = Some s \<and> r = (AtomText s, None))"
    by (auto simp: and_then_Done_iff)
  have take: "take ?len (tl desc) = bs" if "length bs \<le> 3" "desc = to_be_bytes (inline_atom_descriptor bs)" for bs
  proof -
    have d: "desc = word_of_nat (16 * length bs) # bs @ replicate (3 - length bs) 0" using that inline_atom_descriptor_bytes(1) by simp
    have "unat (word_of_nat (16 * length bs) :: u8) = 16 * length bs" using that(1) by (simp add: unat_of_nat del: of_nat_mult)
    then show ?thesis unfolding d by simp
  qed
  show ?thesis
  proof
    assume "decode_atom desc arena = Done r"
    note d = this[unfolded l]
    from d obtain s where s: "from_utf8 (take ?len (tl desc)) = Some s" "r = (AtomText s, None)" by (elim conjE exE) (rule that)
    have "\<exists>bs. length bs \<le> 3 \<and> desc = to_be_bytes (inline_atom_descriptor bs)"
      unfolding inline_descriptor_iff[OF assms(1)] using d h64 by (elim conjE, intro conjI)
    then obtain bs where bs: "length bs \<le> 3" "desc = to_be_bytes (inline_atom_descriptor bs)" by (elim exE conjE) (rule that)
    have bs': "bs = as_bytes s" "is_str s" using s(1) unfolding take[OF bs] by (simp_all add: from_utf8_Some_iff)
    then have "length s \<le> 3" using bs(1) by simp
    then show "\<exists>s. is_str s \<and> length s \<le> 3 \<and> desc = to_be_bytes (inline_atom_descriptor (as_bytes s)) \<and> r = (AtomText s, None)"
      using bs(2) bs' s(2) by blast
  next
    assume "\<exists>s. is_str s \<and> length s \<le> 3 \<and> desc = to_be_bytes (inline_atom_descriptor (as_bytes s)) \<and> r = (AtomText s, None)"
    then obtain s where s: "is_str s" "length (as_bytes s) \<le> 3" "desc = to_be_bytes (inline_atom_descriptor (as_bytes s))" "r = (AtomText s, None)"
      by (metis length_as_bytes)
    have "\<exists>bs. length bs \<le> 3 \<and> desc = to_be_bytes (inline_atom_descriptor bs)" by (intro exI conjI) (rule s(2), rule s(3))
    then have "unat (hd desc) mod 16 = 0 \<and> (\<forall>b \<in> set (drop (1 + ?len) desc). b = 0)"
      unfolding inline_descriptor_iff[OF assms(1)] by (rule conjunct2)
    moreover have "from_utf8 (take ?len (tl desc)) = Some s" unfolding take[OF s(2,3)] by (rule from_utf8_as_bytes[OF s(1)])
    ultimately show "decode_atom desc arena = Done r" unfolding l using s(4) by blast
  qed
qed

lemma from_be_eq_iff: "length desc = 4 \<Longrightarrow> desc = to_be_bytes d \<longleftrightarrow> from_be_bytes desc = (d :: u32)"
  by (metis from_to_be_bytes_widths(2) to_from_be_bytes[where ?'a = 32, simplified])

lemma div_mod_split: "n < d \<Longrightarrow> m = k * d + n \<longleftrightarrow> m div d = k \<and> m mod d = (n :: nat)"
  by auto

lemma descriptor_split:
  "n < 2 ^ 30 \<Longrightarrow> w = ATOM_UTF8 OR word_of_nat n \<longleftrightarrow> unat w div 2 ^ 30 = 1 \<and> unat w mod 2 ^ 30 = n"
  "n < 2 ^ 30 \<Longrightarrow> w = ATOM_RAW32 OR word_of_nat n \<longleftrightarrow> unat w div 2 ^ 30 = 2 \<and> unat w mod 2 ^ 30 = n"
  using div_mod_split[of n "2 ^ 30" "unat w" 1] div_mod_split[of n "2 ^ 30" "unat w" 2] by (simp_all add: word_unat_eq_iff)

lemma decode_arena_iff:
  assumes "length desc = 4" "unat (from_be_bytes desc :: u32) div 2 ^ 30 \<noteq> 0" "length arena < 2 ^ 64"
  shows "decode_atom desc arena = Done r \<longleftrightarrow>
    (\<exists>s offset. is_str s \<and> 3 < length s \<and> element_fits s offset \<and> desc = to_be_bytes (descriptor_of s offset) \<and>
       offset + length (cell_of s) \<le> length arena \<and> take (length (cell_of s)) (drop offset arena) = cell_of s \<and>
       r = (atom_of s, Some (offset, offset + length (cell_of s))))" (is "_ \<longleftrightarrow> ?r")
proof -
  let ?w = "from_be_bytes desc :: u32"
  let ?o = "unat ?w mod 2 ^ 30"
  have o: "?o < 2 ^ 30" by simp
  consider "unat ?w div 2 ^ 30 = 1" | "unat ?w div 2 ^ 30 = 2" | "unat ?w div 2 ^ 30 \<notin> {0, 1, 2}" using assms(2) by auto
  then show ?thesis
  proof cases
    case 1
    have this_kind: "?w = descriptor_of s n \<longleftrightarrow> n = ?o" if "3 < length s" "decode_hex_32 s = None" "n < 2 ^ 30" for s n
      using that 1 by (auto simp: descriptor_of_def descriptor_split)
    have other_kind: "?w \<noteq> descriptor_of s n" if "3 < length s" "decode_hex_32 s \<noteq> None" "n < 2 ^ 30" for s n
      using that 1 by (auto simp: descriptor_of_def descriptor_split)
    show ?thesis
    proof
      assume "decode_atom desc arena = Done r"
      then obtain len c raw c' s where d: "take_leb128_u32 arena ?o = Done (len, c)" "take_bytes arena c (unat len) = Done (raw, c')"
        "from_utf8 raw = Some s" "3 < length raw" "decode_hex_32 s = None" "r = (AtomText s, Some (?o, c'))"
        unfolding decode_atom_def Let_def kind_iff low_mask using 1 by (auto simp: and_then_Done_iff split: if_splits)
      note t = take_leb128_u32_Done[OF d(1)]
      have s: "raw = as_bytes s" "is_str s" using d(3) by (simp_all add: from_utf8_Some_iff)
      have raw': "raw = take (unat len) (drop c arena)" "c' = c + unat len" "c' \<le> length arena" using d(2) by (simp_all add: take_bytes_iff)
      then have ls: "length s = unat len" using s(1) by (metis length_as_bytes length_take length_drop min.absorb2 le_diff_conv2 add.commute le_add1 le_trans)
      have cell: "cell_of s = leb (unat len) @ raw" using d(4,5) s(1) ls by (simp add: cell_of_def)
      have "take (length (cell_of s)) (drop ?o arena) = cell_of s" unfolding t(1) cell using raw' ls s(1) by simp
      moreover have "?o + length (cell_of s) = c'" using cell t(2) raw'(2) ls s(1) by simp
      moreover have "element_fits s ?o" using ls unat_u32_less[of len] by (simp add: element_fits_def)
      moreover have "atom_of s = AtomText s" using d(4,5) s(1) by (simp add: atom_of_def)
      ultimately show ?r using s d(4-6) raw'(3) this_kind[of s ?o] from_be_eq_iff[OF assms(1)]
        by (intro exI[of _ s] exI[of _ ?o]) simp
    next
      assume ?r
      then obtain s offset where s: "is_str s" "3 < length s" "element_fits s offset" "?w = descriptor_of s offset"
        "offset + length (cell_of s) \<le> length arena" "take (length (cell_of s)) (drop offset arena) = cell_of s"
        "r = (atom_of s, Some (offset, offset + length (cell_of s)))" using from_be_eq_iff[OF assms(1)] by blast
      have fit: "offset < 2 ^ 30" using s(2,3) by (simp add: element_fits_def)
      then have hex: "decode_hex_32 s = None" and off: "offset = ?o" using other_kind[of s offset] this_kind[of s offset] s(2,4) by (auto, metis)
      have cell: "cell_of s = leb (length s) @ as_bytes s" and ls: "length s < 2 ^ 32" using s(2,3) hex by (auto simp: cell_of_def element_fits_def)
      let ?rest = "drop (length (cell_of s)) (drop offset arena)"
      have d: "drop offset arena = leb (length s) @ as_bytes s @ ?rest"
        using s(6) cell by (metis append.assoc append_take_drop_id)
      have "drop (length (leb (length s))) (drop offset arena) = as_bytes s @ ?rest" by (subst d) simp
      then have body: "drop (offset + length (leb (length s))) arena = as_bytes s @ ?rest" by (simp add: add.commute)
      from take_leb128_u32_leb[OF d ls assms(3)]
      have "take_leb128_u32 arena offset = Done (word_of_nat (length s), offset + length (leb (length s)))" .
      moreover have "take_bytes arena (offset + length (leb (length s))) (length s) = Done (as_bytes s, offset + length (cell_of s))"
        using s(5) cell assms(3) unfolding take_bytes_iff body by simp
      moreover have "unat (word_of_nat (length s) :: u32) = length s" using ls by (simp add: unat_of_nat)
      ultimately show "decode_atom desc arena = Done r"
        unfolding decode_atom_def Let_def kind_iff low_mask using 1 off s(1,2,7) hex by (simp add: atom_of_def)
    qed
  next
    case 2
    have this_kind: "?w = descriptor_of s n \<longleftrightarrow> n = ?o" if "3 < length s" "decode_hex_32 s \<noteq> None" "n < 2 ^ 30" for s n
      using that 2 by (auto simp: descriptor_of_def descriptor_split)
    have other_kind: "?w \<noteq> descriptor_of s n" if "3 < length s" "decode_hex_32 s = None" "n < 2 ^ 30" for s n
      using that 2 by (auto simp: descriptor_of_def descriptor_split)
    have dec: "decode_atom desc arena = and_then (take_bytes arena ?o 32) (\<lambda>(raw, cursor). Done (AtomRaw32 raw, Some (?o, cursor)))"
      unfolding decode_atom_def Let_def kind_iff low_mask using 2 by simp
    show ?thesis
    proof
      assume "decode_atom desc arena = Done r"
      then obtain raw where d: "raw = take 32 (drop ?o arena)" "?o + 32 \<le> length arena" "r = (AtomRaw32 raw, Some (?o, ?o + 32))"
        unfolding dec by (auto simp: and_then_Done_iff take_bytes_iff)
      let ?s = "encode_hex_32 raw"
      have hex: "decode_hex_32 ?s = Some raw" "length raw = 32" using d(1,2) by (simp_all add: decode_hex_32_iff)
      then have ls: "length ?s = 64" using length_hex_pairs[of raw] by (simp add: encode_hex_32_eq)
      then have "cell_of ?s = raw" "atom_of ?s = AtomRaw32 raw" "element_fits ?s ?o" using hex by (simp_all add: cell_of_def atom_of_def element_fits_def)
      then show ?r using d hex ls this_kind[of ?s ?o] from_be_eq_iff[OF assms(1)] is_str_hex
        by (intro exI[of _ ?s] exI[of _ ?o]) simp
    next
      assume ?r
      then obtain s offset where s: "is_str s" "3 < length s" "element_fits s offset" "?w = descriptor_of s offset"
        "offset + length (cell_of s) \<le> length arena" "take (length (cell_of s)) (drop offset arena) = cell_of s"
        "r = (atom_of s, Some (offset, offset + length (cell_of s)))" using from_be_eq_iff[OF assms(1)] by blast
      have fit: "offset < 2 ^ 30" using s(2,3) by (simp add: element_fits_def)
      then obtain raw where hex: "decode_hex_32 s = Some raw" and off: "offset = ?o" using other_kind[of s offset] this_kind[of s offset] s(2,4) by fastforce
      then have "cell_of s = raw" "atom_of s = AtomRaw32 raw" using s(2) by (simp_all add: cell_of_def atom_of_def)
      moreover have "length raw = 32" using hex by (simp add: decode_hex_32_iff)
      ultimately have "take_bytes arena ?o 32 = Done (raw, ?o + 32)" "r = (AtomRaw32 raw, Some (?o, ?o + 32))"
        using s(5-7) off assms(3) by (simp_all add: take_bytes_iff)
      then show "decode_atom desc arena = Done r" unfolding dec by simp
    qed
  next
    case 3
    then have "decode_atom desc arena = Failed InvalidAtom" unfolding decode_atom_def Let_def kind_iff by simp
    moreover have "?w \<noteq> descriptor_of s n" if "3 < length s" "element_fits s n" for s n
      using that 3 by (auto simp: descriptor_of_def element_fits_def descriptor_split split: option.splits)
    ultimately show ?thesis using from_be_eq_iff[OF assms(1)] by auto
  qed
qed

lemma decode_atom_iff:
  assumes "length desc = 4" "length arena < 2 ^ 64"
  shows "decode_atom desc arena = Done (atom, cell) \<longleftrightarrow>
    (\<exists>s offset. is_str s \<and> element_fits s offset \<and> desc = to_be_bytes (descriptor_of s offset) \<and> atom = atom_of s \<and>
       (if length s \<le> 3 then cell = None
        else cell = Some (offset, offset + length (cell_of s)) \<and> offset + length (cell_of s) \<le> length arena \<and>
             take (length (cell_of s)) (drop offset arena) = cell_of s))"
proof (cases "unat (from_be_bytes desc :: u32) div 2 ^ 30 = 0")
  case True
  have short: "length s \<le> 3" if "element_fits s n" "desc = to_be_bytes (descriptor_of s n)" for s n
  proof (rule ccontr)
    assume "\<not> length s \<le> 3"
    with that have n: "n < 2 ^ 30" and w: "from_be_bytes desc = descriptor_of s n" by (simp_all add: element_fits_def)
    with \<open>\<not> length s \<le> 3\<close> True show False by (cases "decode_hex_32 s") (simp_all add: descriptor_of_def)
  qed
  have inline: "descriptor_of s n = inline_atom_descriptor (as_bytes s)" "atom_of s = AtomText s" "element_fits s n" if "length s \<le> 3" for s n
    using that by (simp_all add: descriptor_of_def atom_of_def element_fits_def)
  show ?thesis unfolding decode_inline_iff[OF assms(1) True] using short inline by (metis (no_types, lifting) prod.inject)
next
  case False
  have long: "\<not> length s \<le> 3" if "desc = to_be_bytes (descriptor_of s n)" for s n
  proof
    assume s: "length s \<le> 3"
    then have "unat (descriptor_of s n) = length s * 2 ^ 28 + be_nat (as_bytes s @ replicate (3 - length s) 0)"
      using inline_atom_descriptor_bytes(2)[of "as_bytes s"] by (simp add: descriptor_of_def)
    moreover have "be_nat (as_bytes s @ replicate (3 - length s) 0) < 256 ^ 3" using be_nat_less[of "as_bytes s @ replicate (3 - length s) 0"] s by simp
    ultimately have "unat (descriptor_of s n) < 2 ^ 30" using s by simp
    then show False using False that by simp
  qed
  show ?thesis unfolding decode_arena_iff[OF assms(1) False assms(2)]
  proof (intro ex_cong1)
    fix s n
    show "(is_str s \<and> 3 < length s \<and> element_fits s n \<and> desc = to_be_bytes (descriptor_of s n) \<and> n + length (cell_of s) \<le> length arena \<and>
        take (length (cell_of s)) (drop n arena) = cell_of s \<and> (atom, cell) = (atom_of s, Some (n, n + length (cell_of s)))) \<longleftrightarrow>
      (is_str s \<and> element_fits s n \<and> desc = to_be_bytes (descriptor_of s n) \<and> atom = atom_of s \<and>
        (if length s \<le> 3 then cell = None
         else cell = Some (n, n + length (cell_of s)) \<and> n + length (cell_of s) \<le> length arena \<and>
              take (length (cell_of s)) (drop n arena) = cell_of s))"
      using long[of s n] by (cases "length s \<le> 3") auto
  qed
qed

end
