(* ===== verification/Binary_Event_Props.thy ===== *)
theory Binary_Event_Props
  imports Binary_Atoms
begin

text \<open>
  The layout of an event row. The encoder writes exactly \<open>tagged_row\<close>; the header check accepts exactly the
  byte sequences with the four sections in place, and the validating reader exactly the rows that denote
  tags and content (\<open>denotes_row\<close>).
\<close>

section \<open>The sections of a row\<close>

fun descs :: "nat \<Rightarrow> string list \<Rightarrow> u32 list" where
  "descs offset [] = []"
| "descs offset (s # ss) = descriptor_of s offset # descs (offset + length (cell_of s)) ss"

fun fits_all :: "nat \<Rightarrow> string list \<Rightarrow> bool" where
  "fits_all offset [] = True"
| "fits_all offset (s # ss) \<longleftrightarrow> element_fits s offset \<and> fits_all (offset + length (cell_of s)) ss"

definition cells :: "string list \<Rightarrow> u8 list" where
  "cells ss = concat (map cell_of ss)"

fun ends_of :: "nat \<Rightarrow> string list list \<Rightarrow> u32 list" where
  "ends_of n [] = []"
| "ends_of n (tag # tags) = word_of_nat (n + length tag) # ends_of (n + length tag) tags"

lemma cells_simps [simp]: "cells [] = []" "cells (s # ss) = cell_of s @ cells ss" "cells (xs @ ys) = cells xs @ cells ys"
  by (simp_all add: cells_def)

lemma length_descs [simp]: "length (descs offset ss) = length ss"
  by (induction offset ss rule: descs.induct) simp_all

lemma length_ends_of [simp]: "length (ends_of n tags) = length tags"
  by (induction n tags rule: ends_of.induct) simp_all

lemma descs_append: "descs offset (xs @ ys) = descs offset xs @ descs (offset + length (cells xs)) ys"
  by (induction offset xs rule: descs.induct) (simp_all add: add.assoc)

lemma fits_all_append: "fits_all offset (xs @ ys) \<longleftrightarrow> fits_all offset xs \<and> fits_all (offset + length (cells xs)) ys"
  by (induction offset xs rule: fits_all.induct) (simp_all add: add.assoc)

lemma encode_elements_iff:
  "encode_elements ss (atoms, arena) = Done r \<longleftrightarrow>
     fits_all (length arena) ss \<and> r = (atoms @ descs (length arena) ss, arena @ cells ss)"
proof (induction ss arbitrary: atoms arena)
  case (Cons s ss)
  show ?case unfolding encode_elements.simps and_then_Done_iff encode_atom_iff using Cons by auto
qed auto

lemma encode_tags_iff:
  "encode_tags tags (ends, atoms, arena) = Done r \<longleftrightarrow>
     fits_all (length arena) (concat tags) \<and> (tags \<noteq> [] \<longrightarrow> length atoms + length (concat tags) < 2 ^ 32) \<and>
     r = (ends @ ends_of (length atoms) tags, atoms @ descs (length arena) (concat tags), arena @ cells (concat tags))"
proof (induction tags arbitrary: ends atoms arena)
  case (Cons tag tags)
  have "encode_tags (tag # tags) (ends, atoms, arena) = Done r \<longleftrightarrow>
      fits_all (length arena) tag \<and> length atoms + length tag < 2 ^ 32 \<and>
      encode_tags tags (ends @ [word_of_nat (length atoms + length tag)], atoms @ descs (length arena) tag, arena @ cells tag) = Done r"
    unfolding encode_tags.simps and_then_Done_iff encode_elements_iff by (auto simp: u32_try_from_def simp del: of_nat_add)
  then show ?case using Cons by (auto simp: fits_all_append descs_append add.assoc simp del: of_nat_add)
qed auto

text \<open>The size computed before encoding is the size of the sections.\<close>

lemma length_cell_of:
  "3 < length s \<Longrightarrow> length (cell_of s) = (if decode_hex_32 s \<noteq> None then 32 else length (leb (length s)) + length s)"
  by (cases "decode_hex_32 s") (simp_all add: cell_of_def decode_hex_32_iff[THEN iffD1])

lemma cell_of_short: "length s \<le> 3 \<Longrightarrow> cell_of s = []"
  by (simp add: cell_of_def)

lemma atoms_shape_iff:
  "n < 2 ^ 64 \<Longrightarrow> m < 2 ^ 30 \<Longrightarrow> atoms_shape ss (n, m) = Done r \<longleftrightarrow>
     n + length ss < 2 ^ 64 \<and> m + length (cells ss) < 2 ^ 30 \<and> r = (n + length ss, m + length (cells ss))"
proof (induction ss arbitrary: n m)
  case (Cons s ss)
  show ?case
  proof (cases "n + 1 < 2 ^ 64")
    case n: True
    show ?thesis
    proof (cases "length s \<le> 3")
      case True
      then show ?thesis using n Cons.IH[of "n + 1" m] Cons.prems by (simp add: cell_of_short usize_add_def)
    next
      case False
      let ?c = "length (cell_of s)"
      let ?cell = "if decode_hex_32 s \<noteq> None then Done 32
        else and_then (leb128_u32_len (length s)) (\<lambda>n. ok_or LengthOverflow (usize_add n (length s)))"
      have cell: "?cell = (if decode_hex_32 s \<noteq> None \<or> length s < 2 ^ 32 then Done ?c else Failed LengthOverflow)"
      proof (cases "decode_hex_32 s \<noteq> None \<or> length s < 2 ^ 32")
        case True
        have "length (leb (length s)) + length s < 2 ^ 64" "leb128_u32_len (length s) = Done (length (leb (length s)))" if "length s < 2 ^ 32"
          using length_leb[OF that] that by (simp_all add: leb128_u32_len_eq)
        then show ?thesis using True False by (auto simp: length_cell_of usize_add_def)
      next
        case False
        then show ?thesis by (simp add: leb128_u32_len_def u32_try_from_def)
      qed
      have "atoms_shape (s # ss) (n, m) =
          (if (decode_hex_32 s \<noteq> None \<or> length s < 2 ^ 32) \<and> m + ?c < 2 ^ 30 then atoms_shape ss (n + 1, m + ?c) else Failed LengthOverflow)"
        unfolding atoms_shape.simps cell using n False by (simp add: usize_add_def)
      moreover have "decode_hex_32 s \<noteq> None \<or> length s < 2 ^ 32" if "m + ?c < 2 ^ 30" using that False by (auto simp: length_cell_of split: if_splits)
      ultimately show ?thesis using Cons.IH[of "n + 1" "m + ?c"] n by (auto simp: add.assoc)
    qed
  qed (simp add: usize_add_def)
qed auto

lemma tags_shape_iff:
  "n < 2 ^ 64 \<Longrightarrow> m < 2 ^ 30 \<Longrightarrow> tags_shape tags (n, m) = Done r \<longleftrightarrow>
     [] \<notin> set tags \<and> n + length (concat tags) < 2 ^ 64 \<and> m + length (cells (concat tags)) < 2 ^ 30 \<and>
     r = (n + length (concat tags), m + length (cells (concat tags)))"
proof (induction tags arbitrary: n m)
  case (Cons tag tags)
  have "tags_shape (tag # tags) (n, m) = Done r \<longleftrightarrow> tag \<noteq> [] \<and> n + length tag < 2 ^ 64 \<and> m + length (cells tag) < 2 ^ 30 \<and>
      tags_shape tags (n + length tag, m + length (cells tag)) = Done r"
    using Cons.prems unfolding tags_shape.simps by (auto simp: and_then_Done_iff atoms_shape_iff)
  then show ?case using Cons.IH[of "n + length tag" "m + length (cells tag)"] by auto
qed auto

lemma encoded_tag_shape_iff:
  "encoded_tag_shape tags = Done r \<longleftrightarrow>
     [] \<notin> set tags \<and> length (concat tags) < 2 ^ 32 \<and> length (cells (concat tags)) < 2 ^ 30 \<and>
     r = (length (concat tags), length (cells (concat tags)))"
  unfolding encoded_tag_shape_def and_then_Done_iff tags_shape_iff[of 0 0, simplified]
  by (auto simp: u32_try_from_def and_then_Done_iff)

lemma fits_all_small: "offset + length (cells ss) < 2 ^ 30 \<Longrightarrow> fits_all offset ss"
proof (induction ss arbitrary: offset)
  case (Cons s ss)
  then have "element_fits s offset" by (auto simp: element_fits_def length_cell_of)
  then show ?case using Cons by simp
qed simp

lemma length_tags_le: "[] \<notin> set tags \<Longrightarrow> length tags \<le> length (concat tags)"
proof (induction tags)
  case (Cons tag tags)
  then show ?case by (cases tag) auto
qed simp

section \<open>The layout of a row\<close>

definition words :: "u32 list \<Rightarrow> u8 list" where
  "words ws = concat (map to_be_bytes ws)"

definition row_header :: "u8 list \<Rightarrow> u8 list \<Rightarrow> u8 list \<Rightarrow> u64 \<Rightarrow> u16 \<Rightarrow> u32 \<Rightarrow> u32 \<Rightarrow> u32 \<Rightarrow> u8 list" where
  "row_header eid pubkey sig created_at kind tag_count section_len content_len =
     EVENT_MAGIC @ [EVENT_VERSION] @ [0, 0, 0] @ eid @ pubkey @ sig @ to_be_bytes created_at @ to_be_bytes kind @
     to_be_bytes tag_count @ to_be_bytes section_len @ to_be_bytes content_len"

definition row_bytes :: "u8 list \<Rightarrow> u8 list \<Rightarrow> u8 list \<Rightarrow> u64 \<Rightarrow> u16 \<Rightarrow> u32 list \<Rightarrow> u32 list \<Rightarrow> u8 list \<Rightarrow> u8 list \<Rightarrow> u8 list" where
  "row_bytes eid pubkey sig created_at kind ends atoms arena content =
     row_header eid pubkey sig created_at kind (word_of_nat (length ends))
       (word_of_nat (4 * (length ends + length atoms) + length arena)) (word_of_nat (length content)) @
     words ends @ words atoms @ arena @ content"

definition tagged_row :: "nostr_codec \<Rightarrow> event \<Rightarrow> u8 list" where
  "tagged_row nc e =
     row_bytes (nc_id_bytes nc (ev_id e)) (nc_pubkey_bytes nc (ev_pubkey e)) (nc_sig_bytes nc (ev_sig e)) (ev_created_at e) (ev_kind e)
       (ends_of 0 (ev_tags e)) (descs 0 (concat (ev_tags e))) (cells (concat (ev_tags e))) (as_bytes (ev_content e))"

definition row_fits :: "string list list \<Rightarrow> nat \<Rightarrow> bool" where
  "row_fits tags content_len \<longleftrightarrow>
     [] \<notin> set tags \<and> length (cells (concat tags)) < 2 ^ 30 \<and> content_len < 2 ^ 32 \<and>
     4 * (length tags + length (concat tags)) + length (cells (concat tags)) < 2 ^ 32"

lemma length_words [simp]: "length (words ws) = 4 * length ws"
  by (induction ws) (simp_all add: words_def)

lemma encode_event_iff: "encode_event nc e = Done bytes \<longleftrightarrow> row_fits (ev_tags e) (length (ev_content e)) \<and> bytes = tagged_row nc e"
proof -
  let ?tags = "ev_tags e"
  let ?n = "length (concat ?tags)" and ?m = "length (cells (concat ?tags))"
  have u32: "u32_try_from n = Some w \<longleftrightarrow> n < 2 ^ 32 \<and> w = word_of_nat n" for n w by (auto simp: u32_try_from_def)
  have tags: "encode_tags ?tags ([], [], []) = Done (ends_of 0 ?tags, descs 0 (concat ?tags), cells (concat ?tags))" if "?m < 2 ^ 30" "?n < 2 ^ 32"
    using that by (simp add: encode_tags_iff fits_all_small)
  show ?thesis
  proof (cases "[] \<notin> set ?tags \<and> ?n < 2 ^ 32 \<and> ?m < 2 ^ 30")
    case True
    then have shape: "encoded_tag_shape ?tags = Done (?n, ?m)" and len: "length ?tags < 2 ^ 32" using encoded_tag_shape_iff length_tags_le[of ?tags] by auto
    have "encode_event nc e = Done bytes \<longleftrightarrow> 4 * (length ?tags + ?n) + ?m < 2 ^ 32 \<and> length (ev_content e) < 2 ^ 32 \<and> bytes = tagged_row nc e"
      using True len tags unfolding encode_event_def Let_def shape
      by (auto simp: and_then_Done_iff u32 push_u32_def push_u16_def push_u64_def checked_capacity_def usize_add_def usize_mul_def
          tagged_row_def row_bytes_def row_header_def words_def algebra_simps simp del: u32_try_from_iff of_nat_add of_nat_mult)
    then show ?thesis using True by (auto simp: row_fits_def)
  next
    case False
    then have "encoded_tag_shape ?tags \<noteq> Done r" for r using encoded_tag_shape_iff by auto
    then have "encode_event nc e \<noteq> Done bytes" unfolding encode_event_def Let_def and_then_Done_iff by blast
    then show ?thesis using False by (auto simp: row_fits_def)
  qed
qed

lemma read_u32_at: "bytes = pre @ to_be_bytes w @ rest \<Longrightarrow> length pre = offset \<Longrightarrow> read_u32 bytes offset = Done w"
  by (simp add: read_u32_def get_range_def)

lemma read_u64_at: "bytes = pre @ to_be_bytes w @ rest \<Longrightarrow> length pre = offset \<Longrightarrow> read_u64 bytes offset = Done w"
  by (simp add: read_u64_def get_range_def)

lemma read_u16_at: "bytes = pre @ to_be_bytes w @ rest \<Longrightarrow> length pre = offset \<Longrightarrow> read_u16 bytes offset = Done w"
  by (simp add: read_u16_def get_range_def)

lemma index_range_at: "bytes = pre @ v @ rest \<Longrightarrow> length pre = a \<Longrightarrow> b = a + length v \<Longrightarrow> index_range bytes a b = Done v"
  by (simp add: index_range_def get_range_def)

lemma words_append [simp]: "words (xs @ ys) = words xs @ words ys" "words [] = []" "words (w # ws) = to_be_bytes w @ words ws"
  by (simp_all add: words_def)

lemma words_nth: "i < length ws \<Longrightarrow> words ws = words (take i ws) @ to_be_bytes (ws ! i) @ words (drop (Suc i) ws)"
  by (metis append_take_drop_id Cons_nth_drop_Suc words_append)

lemma words_exist: "length bs = 4 * n \<Longrightarrow> \<exists>ws. length ws = n \<and> bs = words ws"
proof (induction n arbitrary: bs)
  case (Suc n)
  then obtain ws where "length ws = n" "drop 4 bs = words ws" by (metis add_diff_cancel_left' length_drop mult_Suc_right)
  moreover have "to_be_bytes (from_be_bytes (take 4 bs) :: u32) = take 4 bs" using Suc.prems by (intro to_from_be_bytes) simp_all
  ultimately show ?case using append_take_drop_id[of 4 bs] by (intro exI[of _ "from_be_bytes (take 4 bs) # ws"]) simp
qed simp

lemma length_header [simp]:
  "length (row_header eid pubkey sig created_at kind a b c) = 30 + length eid + length pubkey + length sig"
  by (simp add: row_header_def EVENT_MAGIC_def)

definition row_view :: "u8 list \<Rightarrow> nat \<Rightarrow> nat \<Rightarrow> nat \<Rightarrow> nat \<Rightarrow> stored_event_view" where
  "row_view bytes n k m c =
     \<lparr>sv_bytes = bytes, sv_tag_count = word_of_nat n, sv_atom_count = word_of_nat k, sv_atom_refs_start = 158 + 4 * n,
      sv_arena_start = 158 + 4 * n + 4 * k, sv_arena_len = m, sv_content_start = 158 + 4 * n + 4 * k + m, sv_content_len = c\<rparr>"

lemma row_view_sel [simp]:
  "sv_bytes (row_view bytes n k m c) = bytes" "sv_tag_count (row_view bytes n k m c) = word_of_nat n"
  "sv_atom_count (row_view bytes n k m c) = word_of_nat k" "sv_atom_refs_start (row_view bytes n k m c) = 158 + 4 * n"
  "sv_arena_start (row_view bytes n k m c) = 158 + 4 * n + 4 * k" "sv_arena_len (row_view bytes n k m c) = m"
  "sv_content_start (row_view bytes n k m c) = 158 + 4 * n + 4 * k + m" "sv_content_len (row_view bytes n k m c) = c"
  by (simp_all add: row_view_def)

definition sections_fit :: "u8 list \<Rightarrow> u8 list \<Rightarrow> u8 list \<Rightarrow> u32 list \<Rightarrow> u32 list \<Rightarrow> u8 list \<Rightarrow> u8 list \<Rightarrow> bool" where
  "sections_fit eid pubkey sig ends atoms arena content \<longleftrightarrow>
     length eid = 32 \<and> length pubkey = 32 \<and> length sig = 64 \<and> 4 * (length ends + length atoms) + length arena < 2 ^ 32 \<and>
     length content < 2 ^ 32 \<and> (if ends = [] then atoms = [] else unat (last ends) = length atoms)"

lemma from_trusted_row:
  assumes "sections_fit eid pubkey sig ends atoms arena content"
    "bytes = row_bytes eid pubkey sig created_at kind ends atoms arena content"
  shows "from_trusted bytes = Done (row_view bytes (length ends) (length atoms) (length arena) (length content))"
proof -
  let ?s = "4 * (length ends + length atoms) + length arena"
  note fit = assms(1)[unfolded sections_fit_def]
  let ?n = "word_of_nat (length ends) :: u32" and ?l = "word_of_nat ?s :: u32" and ?c = "word_of_nat (length content) :: u32"
  have u: "unat ?n = length ends" "unat ?l = ?s" "unat ?c = length content" using fit by (simp_all add: unat_of_nat del: of_nat_add of_nat_mult)
  let ?rest = "words ends @ words atoms @ arena @ content"
  let ?pre = "EVENT_MAGIC @ [EVENT_VERSION] @ [0, 0, 0] @ eid @ pubkey @ sig @ to_be_bytes created_at @ to_be_bytes kind"
  have row: "bytes = ?pre @ to_be_bytes ?n @ to_be_bytes ?l @ to_be_bytes ?c @ ?rest"
    using assms(2) by (simp add: row_bytes_def row_header_def)
  have pre: "length ?pre = 146" using fit by (simp add: EVENT_MAGIC_def)
  have len: "length bytes = 158 + ?s + length content" unfolding row using pre by simp
  have magic: "check_magic_and_version bytes EVENT_MAGIC EVENT_VERSION = Done ()"
    unfolding row check_magic_and_version_def by (simp add: get_range_def EVENT_MAGIC_def as_bytes_def)
  have reserved: "(index_range bytes 5 8 :: u8 list decoded) = Done [0, 0, 0]"
    by (rule index_range_at[where pre = "EVENT_MAGIC @ [EVENT_VERSION]"]) (simp_all add: row EVENT_MAGIC_def)
  have n: "read_u32 bytes 146 = Done ?n" by (rule read_u32_at[OF row pre])
  have l: "read_u32 bytes 150 = Done ?l"
    by (rule read_u32_at[where pre = "?pre @ to_be_bytes ?n" and rest = "to_be_bytes ?c @ ?rest"]) (use row pre in simp_all)
  have c: "read_u32 bytes 154 = Done ?c"
    by (rule read_u32_at[where pre = "?pre @ to_be_bytes ?n @ to_be_bytes ?l" and rest = ?rest]) (use row pre in simp_all)
  have k: "(if ?n = 0 then Done 0 else read_u32 bytes (158 + length ends * 4 - 4)) = Done (word_of_nat (length atoms))"
  proof (cases "ends = []")
    case True
    then show ?thesis using fit by simp
  next
    case False
    then have w: "words ends = words (butlast ends) @ to_be_bytes (last ends)" using words_append(1)[of "butlast ends" "[last ends]"] by simp
    let ?pre' = "?pre @ to_be_bytes ?n @ to_be_bytes ?l @ to_be_bytes ?c @ words (butlast ends)"
    have "bytes = ?pre' @ to_be_bytes (last ends) @ words atoms @ arena @ content" unfolding row w by simp
    moreover have "length ?pre' = 158 + length ends * 4 - 4" using pre False by (cases ends rule: rev_cases) simp_all
    ultimately have "read_u32 bytes (158 + length ends * 4 - 4) = Done (last ends)" by (rule read_u32_at)
    moreover have "last ends = word_of_nat (length atoms)" using fit False by (metis word_of_nat_unat)
    moreover have "?n \<noteq> 0" using u(1) False by (metis length_0_conv unsigned_0)
    ultimately show ?thesis by simp
  qed
  have ka: "unat (word_of_nat (length atoms) :: u32) = length atoms" using fit by (simp add: unat_of_nat)
  show ?thesis unfolding from_trusted_def magic reserved n l c u
    using fit len k u ka by (simp add: usize_add_def usize_mul_def row_view_def mult.commute del: of_nat_add of_nat_mult)
qed

lemma read_u32_iff: "read_u32 bytes offset = Done w \<longleftrightarrow> offset + 4 \<le> length bytes \<and> take 4 (drop offset bytes) = to_be_bytes w"
proof -
  have "take 4 (drop offset bytes) = to_be_bytes w \<longleftrightarrow> from_be_bytes (take 4 (drop offset bytes)) = w" if "offset + 4 \<le> length bytes"
    using that by (intro from_be_eq_iff) simp
  then show ?thesis by (auto simp: read_u32_def and_then_Done_iff get_range_Some_iff)
qed

lemma glue: "take n (drop a xs) @ drop (a + n) xs = drop a xs"
  by (metis append_take_drop_id drop_drop add.commute)

lemma check_magic_iff:
  "check_magic_and_version bytes magic version = Done u \<longleftrightarrow> 4 < length bytes \<and> take 4 bytes = magic \<and> take 1 (drop 4 bytes) = [version]"
proof -
  have "take 1 (drop 4 bytes) = [bytes ! 4]" if "4 < length bytes" using take_one[OF that] by simp
  then show ?thesis by (auto simp: check_magic_and_version_def get_range_def and_then_Done_iff split: if_splits)
qed

lemma header_chunks:
  "bytes = take 4 bytes @ take 1 (drop 4 bytes) @ take 3 (drop 5 bytes) @ take 32 (drop 8 bytes) @ take 32 (drop 40 bytes) @
     take 64 (drop 72 bytes) @ take 8 (drop 136 bytes) @ take 2 (drop 144 bytes) @ take 4 (drop 146 bytes) @ take 4 (drop 150 bytes) @
     take 4 (drop 154 bytes) @ drop 158 bytes"
  using glue[of 4 0 bytes] glue[of 1 4 bytes] glue[of 3 5 bytes] glue[of 32 8 bytes] glue[of 32 40 bytes] glue[of 64 72 bytes]
    glue[of 8 136 bytes] glue[of 2 144 bytes] glue[of 4 146 bytes] glue[of 4 150 bytes] glue[of 4 154 bytes] by simp

lemma from_trusted_Done:
  assumes "from_trusted bytes = Done v"
  obtains eid pubkey sig created_at kind ends atoms arena content where
    "sections_fit eid pubkey sig ends atoms arena content"
    "bytes = row_bytes eid pubkey sig created_at kind ends atoms arena content"
    "v = row_view bytes (length ends) (length atoms) (length arena) (length content)"
proof -
  from assms obtain tc sl cl k where len: "158 \<le> length bytes" and magic: "check_magic_and_version bytes EVENT_MAGIC EVENT_VERSION = Done ()"
    and res: "index_range bytes 5 8 = (Done [0, 0, 0] :: u8 list decoded)" and tc: "read_u32 bytes 146 = Done tc" and sl: "read_u32 bytes 150 = Done sl"
    and cl: "read_u32 bytes 154 = Done cl" and total: "length bytes = 158 + unat sl + unat cl" and te: "unat tc * 4 \<le> unat sl"
    and k: "(if tc = 0 then Done 0 else read_u32 bytes (158 + unat tc * 4 - 4)) = Done k"
    and arena: "158 + unat tc * 4 + unat k * 4 \<le> 158 + unat sl"
    and v: "v = \<lparr>sv_bytes = bytes, sv_tag_count = tc, sv_atom_count = k, sv_atom_refs_start = 158 + unat tc * 4,
       sv_arena_start = 158 + unat tc * 4 + unat k * 4, sv_arena_len = 158 + unat sl - (158 + unat tc * 4 + unat k * 4),
       sv_content_start = 158 + unat sl, sv_content_len = unat cl\<rparr>"
    unfolding from_trusted_def by (auto simp: and_then_Done_iff not_less split: if_splits)
  let ?n = "unat tc" and ?k = "unat k"
  define m where "m = unat sl - (?n * 4 + ?k * 4)"
  let ?a = "158 + 4 * ?n" and ?b = "158 + 4 * ?n + 4 * ?k" and ?c = "158 + unat sl"
  obtain ends where ends: "length ends = ?n" "take (4 * ?n) (drop 158 bytes) = words ends"
    using words_exist[of "take (4 * ?n) (drop 158 bytes)" ?n] total te by auto
  obtain atoms where atoms: "length atoms = ?k" "take (4 * ?k) (drop ?a bytes) = words atoms"
    using words_exist[of "take (4 * ?k) (drop ?a bytes)" ?k] total arena by auto
  let ?arena = "take m (drop ?b bytes)" and ?content = "drop ?c bytes"
  have lens: "length ?arena = m" "length ?content = unat cl" using total arena by (simp_all add: m_def)
  have body: "drop 158 bytes = words ends @ words atoms @ ?arena @ ?content"
  proof -
    have "?b + m = ?c" using arena by (simp add: m_def)
    then show ?thesis using glue[of "4 * ?n" 158 bytes] glue[of "4 * ?k" ?a bytes] glue[of m ?b bytes] ends(2) atoms(2) by (simp add: add.assoc)
  qed
  have section_len: "4 * (length ends + length atoms) + length ?arena = unat sl" using lens ends(1) atoms(1) arena by (simp add: m_def)
  have "take 3 (drop 5 bytes) = [0, 0, 0]" using res len by (simp add: index_range_def get_range_def)
  moreover have "take 8 (drop 136 bytes) = to_be_bytes (from_be_bytes (take 8 (drop 136 bytes)) :: u64)"
    "take 2 (drop 144 bytes) = to_be_bytes (from_be_bytes (take 2 (drop 144 bytes)) :: u16)"
    using len by (intro to_from_be_bytes[symmetric]; simp)+
  ultimately have row: "bytes = row_bytes (take 32 (drop 8 bytes)) (take 32 (drop 40 bytes)) (take 64 (drop 72 bytes))
      (from_be_bytes (take 8 (drop 136 bytes))) (from_be_bytes (take 2 (drop 144 bytes))) ends atoms ?arena ?content"
    using header_chunks[of bytes] magic tc sl cl section_len ends(1) lens(2)
    unfolding row_bytes_def row_header_def section_len body[symmetric] by (simp add: check_magic_iff read_u32_iff)
  have "if ends = [] then atoms = [] else unat (last ends) = length atoms"
  proof (cases "ends = []")
    case True
    then show ?thesis using ends(1) k atoms(1) by (auto simp: unat_eq_zero)
  next
    case False
    then have w: "words ends = words (butlast ends) @ to_be_bytes (last ends)" using words_append(1)[of "butlast ends" "[last ends]"] by simp
    have "drop (158 + ?n * 4 - 4) bytes = drop (?n * 4 - 4) (drop 158 bytes)" using False ends(1) by (cases ends) (simp_all add: add.commute)
    also have "\<dots> = to_be_bytes (last ends) @ words atoms @ ?arena @ ?content" unfolding body w using ends(1) by (simp add: length_butlast diff_mult_distrib)
    finally have "take 4 (drop (158 + ?n * 4 - 4) bytes) = to_be_bytes (last ends)" by simp
    moreover have "tc \<noteq> 0" using False ends(1) by auto
    ultimately have "k = last ends" using k by (simp add: read_u32_iff)
    then show ?thesis using False atoms(1) by simp
  qed
  then have "sections_fit (take 32 (drop 8 bytes)) (take 32 (drop 40 bytes)) (take 64 (drop 72 bytes)) ends atoms ?arena ?content"
    unfolding sections_fit_def section_len lens(2) using len unat_u32_less[of sl] unat_u32_less[of cl] by simp
  moreover have "v = row_view bytes (length ends) (length atoms) (length ?arena) (length ?content)"
    unfolding v row_view_def lens using ends(1) atoms(1) arena by (simp add: m_def mult.commute)
  ultimately show ?thesis using that row by blast
qed

section \<open>Reading a laid out row\<close>

lemma row_split:
  "row_bytes eid pubkey sig created_at kind ends atoms arena content =
     row_header eid pubkey sig created_at kind (word_of_nat (length ends))
       (word_of_nat (4 * (length ends + length atoms) + length arena)) (word_of_nat (length content)) @
     words ends @ words atoms @ arena @ content"
  by (simp only: row_bytes_def)

lemma row_reads:
  assumes "sections_fit eid pubkey sig ends atoms arena content"
    "bytes = row_bytes eid pubkey sig created_at kind ends atoms arena content"
  shows row_end: "i < length ends \<Longrightarrow> read_u32 bytes (158 + i * 4) = Done (ends ! i)"
    and row_atom: "i < length atoms \<Longrightarrow>
      get_range bytes (158 + 4 * length ends + i * 4) (158 + 4 * length ends + i * 4 + 4) = Some (to_be_bytes (atoms ! i))"
    and row_arena: "get_range bytes (158 + 4 * length ends + 4 * length atoms) (158 + 4 * length ends + 4 * length atoms + length arena) = Some arena"
    and row_content: "get_range bytes (158 + 4 * length ends + 4 * length atoms + length arena)
      (158 + 4 * length ends + 4 * length atoms + length arena + length content) = Some content"
    and row_fixed: "get_range bytes 8 40 = Some eid" "get_range bytes 40 72 = Some pubkey" "get_range bytes 72 136 = Some sig"
      "read_u64 bytes 136 = Done created_at" "read_u16 bytes 144 = Done kind"
proof -
  define h where "h = row_header eid pubkey sig created_at kind (word_of_nat (length ends))
       (word_of_nat (4 * (length ends + length atoms) + length arena)) (word_of_nat (length content))"
  note fit = assms(1)[unfolded sections_fit_def]
  have b: "bytes = h @ words ends @ words atoms @ arena @ content" using assms(2) by (simp add: row_split h_def)
  have h: "length h = 158" using fit by (simp add: h_def)
  show "read_u32 bytes (158 + i * 4) = Done (ends ! i)" if "i < length ends"
    by (rule read_u32_at[where pre = "h @ words (take i ends)" and rest = "words (drop (Suc i) ends) @ words atoms @ arena @ content"])
      (use that words_nth[OF that] h b in simp_all)
  show "get_range bytes (158 + 4 * length ends + i * 4) (158 + 4 * length ends + i * 4 + 4) = Some (to_be_bytes (atoms ! i))" if "i < length atoms"
    using get_range_append_mid[of "h @ words ends @ words (take i atoms)" "to_be_bytes (atoms ! i)" "words (drop (Suc i) atoms) @ arena @ content"]
      that words_nth[OF that] h b by (simp add: mult.commute add.assoc)
  show "get_range bytes (158 + 4 * length ends + 4 * length atoms) (158 + 4 * length ends + 4 * length atoms + length arena) = Some arena"
    using get_range_append_mid[of "h @ words ends @ words atoms" arena content] h b by (simp add: add.assoc)
  show "get_range bytes (158 + 4 * length ends + 4 * length atoms + length arena)
      (158 + 4 * length ends + 4 * length atoms + length arena + length content) = Some content"
    using get_range_append_mid[of "h @ words ends @ words atoms @ arena" content "[]"] h b by (simp add: add.assoc)
  have pre: "length (EVENT_MAGIC @ [EVENT_VERSION] @ [0, 0, 0]) = 8" by (simp add: EVENT_MAGIC_def)
  let ?t = "to_be_bytes (word_of_nat (length ends) :: u32) @ to_be_bytes (word_of_nat (4 * (length ends + length atoms) + length arena) :: u32) @
    to_be_bytes (word_of_nat (length content) :: u32) @ words ends @ words atoms @ arena @ content"
  let ?p = "EVENT_MAGIC @ [EVENT_VERSION] @ [0, 0, 0]"
  have b': "bytes = ?p @ eid @ pubkey @ sig @ to_be_bytes created_at @ to_be_bytes kind @ ?t" using b unfolding h_def row_header_def by simp
  show "get_range bytes 8 40 = Some eid" using get_range_append_mid[of ?p eid "pubkey @ sig @ to_be_bytes created_at @ to_be_bytes kind @ ?t"] b' fit pre by simp
  show "get_range bytes 40 72 = Some pubkey" using get_range_append_mid[of "?p @ eid" pubkey "sig @ to_be_bytes created_at @ to_be_bytes kind @ ?t"] b' fit pre by simp
  show "get_range bytes 72 136 = Some sig" using get_range_append_mid[of "?p @ eid @ pubkey" sig "to_be_bytes created_at @ to_be_bytes kind @ ?t"] b' fit pre by simp
  show "read_u64 bytes 136 = Done created_at" by (rule read_u64_at[where pre = "?p @ eid @ pubkey @ sig"]) (use b' fit pre in simp_all)
  show "read_u16 bytes 144 = Done kind" by (rule read_u16_at[where pre = "?p @ eid @ pubkey @ sig @ to_be_bytes created_at"]) (use b' fit pre in simp_all)
qed

definition laid_out :: "u8 list \<Rightarrow> u32 list \<Rightarrow> u32 list \<Rightarrow> u8 list \<Rightarrow> u8 list \<Rightarrow> bool" where
  "laid_out bytes ends atoms arena content \<longleftrightarrow>
     (\<exists>eid pubkey sig created_at kind. sections_fit eid pubkey sig ends atoms arena content \<and>
        bytes = row_bytes eid pubkey sig created_at kind ends atoms arena content)"

abbreviation view_of :: "u8 list \<Rightarrow> u32 list \<Rightarrow> u32 list \<Rightarrow> u8 list \<Rightarrow> u8 list \<Rightarrow> stored_event_view" where
  "view_of bytes ends atoms arena content \<equiv> row_view bytes (length ends) (length atoms) (length arena) (length content)"

lemma laid_outI:
  "sections_fit eid pubkey sig ends atoms arena content \<Longrightarrow> bytes = row_bytes eid pubkey sig created_at kind ends atoms arena content \<Longrightarrow>
   laid_out bytes ends atoms arena content"
  unfolding laid_out_def by blast

lemma laid_out_reads:
  assumes "laid_out bytes ends atoms arena content"
  shows "i < length ends \<Longrightarrow> read_u32 bytes (158 + i * 4) = Done (ends ! i)"
    "i < length atoms \<Longrightarrow> get_range bytes (158 + 4 * length ends + i * 4) (158 + 4 * length ends + i * 4 + 4) = Some (to_be_bytes (atoms ! i))"
    "get_range bytes (158 + 4 * length ends + 4 * length atoms) (158 + 4 * length ends + 4 * length atoms + length arena) = Some arena"
    "get_range bytes (158 + 4 * length ends + 4 * length atoms + length arena)
      (158 + 4 * length ends + 4 * length atoms + length arena + length content) = Some content"
    "length arena < 2 ^ 32" "unat (word_of_nat (length ends) :: u32) = length ends" "unat (word_of_nat (length atoms) :: u32) = length atoms"
    "if ends = [] then atoms = [] else last ends = word_of_nat (length atoms)"
proof -
  from assms obtain eid pubkey sig created_at kind where fit: "sections_fit eid pubkey sig ends atoms arena content"
    and b: "bytes = row_bytes eid pubkey sig created_at kind ends atoms arena content" by (auto simp: laid_out_def)
  show "i < length ends \<Longrightarrow> read_u32 bytes (158 + i * 4) = Done (ends ! i)" by (rule row_end[OF fit b])
  show "i < length atoms \<Longrightarrow> get_range bytes (158 + 4 * length ends + i * 4) (158 + 4 * length ends + i * 4 + 4) = Some (to_be_bytes (atoms ! i))"
    by (rule row_atom[OF fit b])
  show "get_range bytes (158 + 4 * length ends + 4 * length atoms) (158 + 4 * length ends + 4 * length atoms + length arena) = Some arena"
    by (rule row_arena[OF fit b])
  show "get_range bytes (158 + 4 * length ends + 4 * length atoms + length arena)
      (158 + 4 * length ends + 4 * length atoms + length arena + length content) = Some content" by (rule row_content[OF fit b])
  show "length arena < 2 ^ 32" "unat (word_of_nat (length ends) :: u32) = length ends" "unat (word_of_nat (length atoms) :: u32) = length atoms"
    using fit by (auto simp: sections_fit_def unat_of_nat)
  show "if ends = [] then atoms = [] else last ends = word_of_nat (length atoms)" using fit by (auto simp: sections_fit_def) (metis word_of_nat_unat)
qed

text \<open>Tag ends ascend strictly; with the last one at the atom count they cut the atoms into tags.\<close>

fun ascending :: "nat \<Rightarrow> nat \<Rightarrow> u32 list \<Rightarrow> bool" where
  "ascending bound n [] = True"
| "ascending bound n (e # es) \<longleftrightarrow> n < unat e \<and> unat e \<le> bound \<and> ascending bound (unat e) es"

lemma check_tag_ends_iff:
  assumes "laid_out bytes ends atoms arena content" "i \<le> length ends"
  shows "check_tag_ends (view_of bytes ends atoms arena content) [i..<length ends] prev = Done r \<longleftrightarrow>
    ascending (length atoms) (unat prev) (drop i ends) \<and> r = (if i < length ends then last ends else prev)"
  using assms(2)
proof (induction "length ends - i" arbitrary: i prev)
  case (Suc d)
  then have i: "i < length ends" by simp
  note reads = laid_out_reads[OF assms(1)]
  have step: "[i..<length ends] = i # [Suc i..<length ends]" "drop i ends = ends ! i # drop (Suc i) ends" using i by (simp_all add: upt_conv_Cons Cons_nth_drop_Suc)
  have "last ends = ends ! i" if "\<not> Suc i < length ends" using that i by (metis Suc_lessI last_conv_nth diff_Suc_1 length_0_conv less_zeroE)
  then show ?case using Suc.hyps(1)[of "Suc i" "ends ! i"] Suc.hyps(2) i reads(1)[OF i] reads(7)
    unfolding step by (auto simp: word_le_nat_alt word_less_nat_alt not_less not_le)
qed auto

lemma tags_of_ends:
  assumes "ascending k n ends" "length ss + n = k" "k < 2 ^ 32" "if ends = [] then n = k else unat (last ends) = k"
  shows "\<exists>tags. [] \<notin> set tags \<and> concat tags = ss \<and> ends = ends_of n tags"
  using assms
proof (induction ends arbitrary: n ss)
  case Nil
  then show ?case by (intro exI[of _ "[]"]) simp
next
  case (Cons e ends)
  let ?m = "unat e - n"
  have e: "n < unat e" "unat e \<le> k" "ascending k (unat e) ends" using Cons.prems(1) by simp_all
  have "length (drop ?m ss) + unat e = k" using e Cons.prems(2) by simp
  moreover have "if ends = [] then unat e = k else unat (last ends) = k" using Cons.prems(4) by (auto split: if_splits)
  ultimately obtain tags where tags: "[] \<notin> set tags" "concat tags = drop ?m ss" "ends = ends_of (unat e) tags"
    using Cons.IH[of "unat e" "drop ?m ss"] e(3) Cons.prems(3) by blast
  have len: "length (take ?m ss) = ?m" using e(2) Cons.prems(2) by simp
  then have "take ?m ss \<noteq> []" "n + length (take ?m ss) = unat e" using e(1) by auto
  then show ?case using tags by (intro exI[of _ "take ?m ss # tags"]) (auto simp del: of_nat_add)
qed

lemma ends_of_ascending:
  assumes "[] \<notin> set tags" "n + length (concat tags) < 2 ^ 32"
  shows "ascending (n + length (concat tags)) n (ends_of n tags)" "tags \<noteq> [] \<Longrightarrow> last (ends_of n tags) = word_of_nat (n + length (concat tags))"
proof -
  have "ascending (n + length (concat tags)) n (ends_of n tags) \<and> (tags \<noteq> [] \<longrightarrow> last (ends_of n tags) = word_of_nat (n + length (concat tags)))"
    using assms
  proof (induction tags arbitrary: n)
    case (Cons tag tags)
    have "unat (word_of_nat (n + length tag) :: u32) = n + length tag" using Cons.prems(2) by (simp add: unat_of_nat del: of_nat_add)
    moreover have "ends_of (n + length tag) tags = [] \<longleftrightarrow> tags = []" by (cases tags) simp_all
    ultimately show ?case using Cons.IH[of "n + length tag"] Cons.prems by (auto simp: add.assoc simp del: of_nat_add)
  qed simp
  then show "ascending (n + length (concat tags)) n (ends_of n tags)" "tags \<noteq> [] \<Longrightarrow> last (ends_of n tags) = word_of_nat (n + length (concat tags))" by auto
qed

text \<open>A row passes the atom check iff its directory and arena are those of some valid texts.\<close>

definition atoms_denote :: "u8 list \<Rightarrow> nat \<Rightarrow> u32 list \<Rightarrow> string list \<Rightarrow> bool" where
  "atoms_denote arena cursor atoms ss \<longleftrightarrow>
     (\<forall>s \<in> set ss. is_str s) \<and> fits_all cursor ss \<and> atoms = descs cursor ss \<and> cursor + length (cells ss) \<le> length arena \<and>
     take (length (cells ss)) (drop cursor arena) = cells ss"

lemma atoms_denote_Cons:
  "atoms_denote arena cursor (w # atoms) (s # ss) \<longleftrightarrow>
     is_str s \<and> element_fits s cursor \<and> w = descriptor_of s cursor \<and> cursor + length (cell_of s) \<le> length arena \<and>
     take (length (cell_of s)) (drop cursor arena) = cell_of s \<and> atoms_denote arena (cursor + length (cell_of s)) atoms ss"
proof -
  have "take (length (cell_of s @ cells ss)) (drop cursor arena) = cell_of s @ cells ss \<longleftrightarrow>
      take (length (cell_of s)) (drop cursor arena) = cell_of s \<and> take (length (cells ss)) (drop (cursor + length (cell_of s)) arena) = cells ss"
    if "cursor + length (cell_of s) \<le> length arena"
    using that by (simp add: take_add add.commute)
  then show ?thesis by (auto simp: atoms_denote_def add.assoc)
qed

lemma atoms_denote_Nil [simp]: "atoms_denote arena cursor [] ss \<longleftrightarrow> ss = [] \<and> cursor \<le> length arena"
  by (cases ss) (auto simp: atoms_denote_def)

lemma decode_atom_cell:
  assumes "decode_atom (to_be_bytes (w :: u32)) arena = Done (atom, cell)" "length arena < 2 ^ 64" "case cell of None \<Rightarrow> True | Some (start, end) \<Rightarrow> start = cursor"
    "cursor \<le> length arena"
  shows "\<exists>s. is_str s \<and> element_fits s cursor \<and> w = descriptor_of s cursor \<and> cursor + length (cell_of s) \<le> length arena \<and>
    take (length (cell_of s)) (drop cursor arena) = cell_of s \<and> cell = (if length s \<le> 3 then None else Some (cursor, cursor + length (cell_of s)))"
proof -
  have len: "length (to_be_bytes w) = 4" by simp
  from assms(1)[unfolded decode_atom_iff[OF len assms(2)]] obtain s offset where s: "is_str s" "element_fits s offset" "to_be_bytes w = to_be_bytes (descriptor_of s offset)"
    "if length s \<le> 3 then cell = None else cell = Some (offset, offset + length (cell_of s)) \<and> offset + length (cell_of s) \<le> length arena \<and>
             take (length (cell_of s)) (drop offset arena) = cell_of s"
    by (elim exE conjE) (rule that)
  show ?thesis
  proof (cases "length s \<le> 3")
    case True
    then show ?thesis using s assms(4) by (intro exI[of _ s]) (simp add: descriptor_of_def element_fits_def cell_of_short)
  next
    case False
    then have "offset = cursor" using s(4) assms(3) by simp
    then show ?thesis using s False by (intro exI[of _ s]) simp
  qed
qed

lemma check_atoms_iff:
  assumes "laid_out bytes ends atoms arena content" "i \<le> length atoms" "cursor \<le> length arena"
  shows "check_atoms (view_of bytes ends atoms arena content) arena [i..<length atoms] cursor = Done c \<longleftrightarrow>
    (\<exists>ss. atoms_denote arena cursor (drop i atoms) ss \<and> c = cursor + length (cells ss))"
  using assms(2,3)
proof (induction "length atoms - i" arbitrary: i cursor)
  case 0
  then have "[i..<length atoms] = []" "drop i atoms = []" by simp_all
  then show ?case using 0 by (auto simp del: upt_eq_Nil_conv drop_eq_Nil)
next
  case (Suc d)
  then have i: "i < length atoms" by simp
  note reads = laid_out_reads[OF assms(1)]
  let ?w = "atoms ! i" and ?v = "view_of bytes ends atoms arena content"
  have step: "[i..<length atoms] = i # [Suc i..<length atoms]" "drop i atoms = ?w # drop (Suc i) atoms" using i by (simp_all add: upt_conv_Cons Cons_nth_drop_Suc)
  have idx: "(index_range bytes (158 + 4 * length ends + i * 4) (158 + 4 * length ends + i * 4 + 4) :: u8 list decoded) = Done (to_be_bytes ?w)"
    using reads(2)[OF i] by (simp add: index_range_def)
  have small: "length arena < 2 ^ 64" and len: "length (to_be_bytes ?w) = 4" using reads(5) by simp_all
  have unf: "check_atoms ?v arena [i..<length atoms] cursor = and_then (decode_atom (to_be_bytes ?w) arena) (\<lambda>(_, cell).
      case cell of None \<Rightarrow> check_atoms ?v arena [Suc i..<length atoms] cursor
       | Some (start, end) \<Rightarrow> if start \<noteq> cursor then Failed InvalidAtom else check_atoms ?v arena [Suc i..<length atoms] end)"
    unfolding step by (simp only: check_atoms.simps Let_def row_view_sel idx and_then.simps)
  have IH: "check_atoms ?v arena [Suc i..<length atoms] cur = Done c \<longleftrightarrow> (\<exists>ss. atoms_denote arena cur (drop (Suc i) atoms) ss \<and> c = cur + length (cells ss))"
    if "cur \<le> length arena" for cur using Suc.hyps(1)[of "Suc i" cur] Suc.hyps(2) i that by simp
  show ?case
  proof
    assume "check_atoms ?v arena [i..<length atoms] cursor = Done c"
    then obtain atom cell where d: "decode_atom (to_be_bytes ?w) arena = Done (atom, cell)"
      "(case cell of None \<Rightarrow> check_atoms ?v arena [Suc i..<length atoms] cursor
         | Some (start, end) \<Rightarrow> if start \<noteq> cursor then Failed InvalidAtom else check_atoms ?v arena [Suc i..<length atoms] end) = Done c"
      unfolding unf and_then_Done_iff by auto
    have "case cell of None \<Rightarrow> True | Some (start, end) \<Rightarrow> start = cursor" using d(2) by (auto split: option.splits if_splits)
    from decode_atom_cell[OF d(1) small this Suc.prems(2)] obtain s where s: "is_str s" "element_fits s cursor" "?w = descriptor_of s cursor"
      "cursor + length (cell_of s) \<le> length arena" "take (length (cell_of s)) (drop cursor arena) = cell_of s"
      "cell = (if length s \<le> 3 then None else Some (cursor, cursor + length (cell_of s)))" by blast
    have "check_atoms ?v arena [Suc i..<length atoms] (cursor + length (cell_of s)) = Done c"
      using d(2) s(6) by (auto simp: cell_of_short split: if_splits)
    then obtain ss where ss: "atoms_denote arena (cursor + length (cell_of s)) (drop (Suc i) atoms) ss" "c = cursor + length (cell_of s) + length (cells ss)"
      using IH[OF s(4)] by blast
    show "\<exists>ss. atoms_denote arena cursor (drop i atoms) ss \<and> c = cursor + length (cells ss)"
      unfolding step by (rule exI[of _ "s # ss"]) (use s ss in \<open>simp add: atoms_denote_Cons\<close>)
  next
    assume "\<exists>ss. atoms_denote arena cursor (drop i atoms) ss \<and> c = cursor + length (cells ss)"
    then obtain s ss where ss: "atoms_denote arena cursor (?w # drop (Suc i) atoms) (s # ss)" "c = cursor + length (cells (s # ss))"
      unfolding step by (metis atoms_denote_def descs.simps(1) list.distinct(1) list.exhaust)
    note s = ss(1)[unfolded atoms_denote_Cons]
    have "decode_atom (to_be_bytes ?w) arena = Done (atom_of s, if length s \<le> 3 then None else Some (cursor, cursor + length (cell_of s)))"
      unfolding decode_atom_iff[OF len small] by (intro exI[of _ s] exI[of _ cursor]) (use s in simp)
    moreover have "check_atoms ?v arena [Suc i..<length atoms] (cursor + length (cell_of s)) = Done c" using IH s ss(2) by auto
    ultimately show "check_atoms ?v arena [i..<length atoms] cursor = Done c"
      unfolding unf by (auto simp: cell_of_short)
  qed
qed

section \<open>Validated rows\<close>

definition denotes_row :: "u8 list \<Rightarrow> u8 list \<Rightarrow> u8 list \<Rightarrow> u8 list \<Rightarrow> u64 \<Rightarrow> u16 \<Rightarrow> string list list \<Rightarrow> string \<Rightarrow> bool" where
  "denotes_row bytes eid pubkey sig created_at kind tags content \<longleftrightarrow>
     length eid = 32 \<and> length pubkey = 32 \<and> length sig = 64 \<and> [] \<notin> set tags \<and> (\<forall>s \<in> set (concat tags). is_str s) \<and> is_str content \<and>
     fits_all 0 (concat tags) \<and> 4 * (length tags + length (concat tags)) + length (cells (concat tags)) < 2 ^ 32 \<and> length content < 2 ^ 32 \<and>
     bytes = row_bytes eid pubkey sig created_at kind (ends_of 0 tags) (descs 0 (concat tags)) (cells (concat tags)) (as_bytes content)"

definition tags_view :: "u8 list \<Rightarrow> string list list \<Rightarrow> string \<Rightarrow> stored_event_view" where
  "tags_view bytes tags content = row_view bytes (length tags) (length (concat tags)) (length (cells (concat tags))) (length content)"

lemma denotes_row_fit:
  assumes "denotes_row bytes eid pubkey sig created_at kind tags content"
  shows "sections_fit eid pubkey sig (ends_of 0 tags) (descs 0 (concat tags)) (cells (concat tags)) (as_bytes content)"
    "laid_out bytes (ends_of 0 tags) (descs 0 (concat tags)) (cells (concat tags)) (as_bytes content)"
    "atoms_denote (cells (concat tags)) 0 (descs 0 (concat tags)) (concat tags)"
    "view_of bytes (ends_of 0 tags) (descs 0 (concat tags)) (cells (concat tags)) (as_bytes content) = tags_view bytes tags content"
proof -
  note d = assms[unfolded denotes_row_def]
  have "length (concat tags) < 2 ^ 32" using d by simp
  then have "unat (word_of_nat (length (concat tags)) :: u32) = length (concat tags)" "[] \<notin> set tags" "0 + length (concat tags) < 2 ^ 32"
    using d by (simp_all add: unat_of_nat)
  moreover have "ends_of 0 tags \<noteq> [] \<Longrightarrow> tags \<noteq> []" by auto
  ultimately have "ends_of 0 tags \<noteq> [] \<Longrightarrow> unat (last (ends_of 0 tags)) = length (concat tags)"
    using ends_of_ascending(2)[of tags 0] by simp
  moreover have "ends_of 0 tags = [] \<Longrightarrow> descs 0 (concat tags) = []" by (cases tags) simp_all
  ultimately show fit: "sections_fit eid pubkey sig (ends_of 0 tags) (descs 0 (concat tags)) (cells (concat tags)) (as_bytes content)"
    using d by (auto simp: sections_fit_def)
  show "laid_out bytes (ends_of 0 tags) (descs 0 (concat tags)) (cells (concat tags)) (as_bytes content)"
    using laid_outI[OF fit] d by blast
  show "atoms_denote (cells (concat tags)) 0 (descs 0 (concat tags)) (concat tags)" using d by (simp add: atoms_denote_def)
  show "view_of bytes (ends_of 0 tags) (descs 0 (concat tags)) (cells (concat tags)) (as_bytes content) = tags_view bytes tags content"
    by (simp add: tags_view_def)
qed

lemma view_parse_row:
  assumes "denotes_row bytes eid pubkey sig created_at kind tags content"
  shows "view_parse bytes = Done (tags_view bytes tags content)"
proof -
  note d = assms[unfolded denotes_row_def]
  note fit = denotes_row_fit[OF assms]
  let ?ends = "ends_of 0 tags" and ?atoms = "descs 0 (concat tags)" and ?arena = "cells (concat tags)"
  let ?v = "tags_view bytes tags content"
  note reads = laid_out_reads[OF fit(2)]
  have tr: "from_trusted bytes = Done ?v" using from_trusted_row[OF fit(1)] d fit(4) by metis
  have n: "unat (sv_tag_count ?v) = length ?ends" "unat (sv_atom_count ?v) = length ?atoms" using reads(6,7) by (simp_all add: tags_view_def)
  have "ascending (length ?atoms) (unat (0 :: u32)) (drop 0 ?ends)" using ends_of_ascending(1)[of tags 0] d by simp
  moreover have "(if 0 < length ?ends then last ?ends else 0) = sv_atom_count ?v" using reads(8) by (cases tags) (simp_all add: tags_view_def)
  ultimately have ends: "check_tag_ends ?v [0..<length ?ends] 0 = Done (sv_atom_count ?v)"
    using check_tag_ends_iff[OF fit(2), of 0 0 "sv_atom_count ?v"] fit(4) by simp
  have atoms: "check_atoms ?v ?arena [0..<length ?atoms] 0 = Done (length ?arena)"
    using check_atoms_iff[OF fit(2), of 0 0 "length ?arena"] fit(3,4) by auto
  have arena: "(index_range bytes (sv_arena_start ?v) (sv_arena_start ?v + sv_arena_len ?v) :: u8 list decoded) = Done ?arena"
    using reads(3) by (simp add: tags_view_def index_range_def)
  have content: "get_range bytes (sv_content_start ?v) (sv_content_start ?v + sv_content_len ?v) = Some (as_bytes content)"
    using reads(4) by (simp add: tags_view_def)
  show ?thesis unfolding view_parse_def tr and_then.simps n ends arena atoms content using d by simp
qed

lemma view_parse_Done:
  assumes "view_parse bytes = Done v"
  obtains eid pubkey sig created_at kind tags content where
    "denotes_row bytes eid pubkey sig created_at kind tags content" "v = tags_view bytes tags content"
proof -
  from assms have "\<exists>w. from_trusted bytes = Done w" unfolding view_parse_def and_then_Done_iff by blast
  then obtain w where w: "from_trusted bytes = Done w" by blast
  then obtain eid pubkey sig created_at kind ends atoms arena content where
    fit: "sections_fit eid pubkey sig ends atoms arena content" and row: "bytes = row_bytes eid pubkey sig created_at kind ends atoms arena content"
    and vw: "w = view_of bytes ends atoms arena content" by (rule from_trusted_Done)
  note lay = laid_outI[OF fit row]
  note reads = laid_out_reads[OF lay]
  have n: "unat (sv_tag_count w) = length ends" "unat (sv_atom_count w) = length atoms" using reads(6,7) vw by simp_all
  have arena: "(index_range bytes (sv_arena_start w) (sv_arena_start w + sv_arena_len w) :: u8 list decoded) = Done arena"
    using reads(3) vw by (simp add: index_range_def)
  have content: "get_range bytes (sv_content_start w) (sv_content_start w + sv_content_len w) = Some content" using reads(4) vw by simp
  from assms have p: "check_tag_ends w [0..<length ends] 0 = Done (sv_atom_count w)" "check_atoms w arena [0..<length atoms] 0 = Done (length arena)"
    "from_utf8 content \<noteq> None" "v = w"
    unfolding view_parse_def w and_then.simps n arena content ok_or_simps by (auto simp: and_then_Done_iff split: if_splits)
  obtain body where body: "content = as_bytes body" "is_str body" using p(3) by (auto simp: from_utf8_Some_iff)
  obtain ss where ss: "atoms_denote arena 0 atoms ss" "length arena = length (cells ss)"
    using p(2) check_atoms_iff[OF lay, of 0 0 "length arena"] vw by auto
  have cells: "arena = cells ss" and atoms: "atoms = descs 0 ss" using ss by (auto simp: atoms_denote_def)
  have asc: "ascending (length atoms) 0 ends" using p(1) check_tag_ends_iff[OF lay, of 0 0] vw by auto
  have "length ss + 0 = length atoms" "length atoms < 2 ^ 32" "if ends = [] then 0 = length atoms else unat (last ends) = length atoms"
    using fit atoms by (auto simp: sections_fit_def)
  from tags_of_ends[OF asc this] obtain tags where tags: "[] \<notin> set tags" "concat tags = ss" "ends = ends_of 0 tags" by blast
  have "denotes_row bytes eid pubkey sig created_at kind tags body"
    unfolding denotes_row_def tags(2) using fit row tags(1,3) ss(1) cells atoms body by (simp add: sections_fit_def atoms_denote_def)
  moreover have "v = tags_view bytes tags body" using p(4) vw cells atoms body(1) tags by (simp add: tags_view_def)
  ultimately show ?thesis by (rule that)
qed

section \<open>Decoding a validated row\<close>

lemma atoms_denote_nth:
  assumes "atoms_denote arena cursor atoms ss" "i < length ss" "length arena < 2 ^ 64"
  shows "\<exists>cell. decode_atom (to_be_bytes (atoms ! i)) arena = Done (atom_of (ss ! i), cell)"
  using assms
proof (induction ss arbitrary: cursor atoms i)
  case (Cons s ss)
  obtain w ws where atoms: "atoms = w # ws" using Cons.prems(1) by (cases atoms) (auto simp: atoms_denote_def)
  note d = Cons.prems(1)[unfolded atoms atoms_denote_Cons]
  show ?case
  proof (cases i)
    case 0
    have len: "length (to_be_bytes w) = 4" by simp
    have "decode_atom (to_be_bytes w) arena = Done (atom_of s, if length s \<le> 3 then None else Some (cursor, cursor + length (cell_of s)))"
      unfolding decode_atom_iff[OF len Cons.prems(3)] by (intro exI[of _ s] exI[of _ cursor]) (use d in simp)
    then show ?thesis using 0 atoms by auto
  next
    case (Suc j)
    then show ?thesis using Cons.IH[of "cursor + length (cell_of s)" ws j] d Cons.prems(2,3) atoms by simp
  qed
qed simp

lemma elements_next_row:
  assumes "denotes_row bytes eid pubkey sig created_at kind tags content" "i < length (concat tags)" "i \<noteq> j" "j < 2 ^ 32"
  shows "elements_next (tags_view bytes tags content) (word_of_nat i) (word_of_nat j) = Some (Done (atom_of (concat tags ! i), word_of_nat (Suc i)))"
proof -
  note fit = denotes_row_fit[OF assms(1)]
  note reads = laid_out_reads[OF fit(2)]
  have k: "length (concat tags) < 2 ^ 32" using assms(1) by (simp add: denotes_row_def)
  then have u: "unat (word_of_nat i :: u32) = i" "unat (word_of_nat j :: u32) = j" using assms(2,4) by (simp_all add: unat_of_nat)
  then have ne: "(word_of_nat i :: u32) \<noteq> word_of_nat j" using assms(3) by metis
  have "get_range bytes (158 + 4 * length tags + i * 4) (158 + 4 * length tags + i * 4 + 4) = Some (to_be_bytes (descs 0 (concat tags) ! i))"
    using reads(2)[of i] assms(2) by simp
  moreover have "(index_range bytes (158 + 4 * length tags + 4 * length (concat tags)) (158 + 4 * length tags + 4 * length (concat tags) + length (cells (concat tags))) :: u8 list decoded)
      = Done (cells (concat tags))" using reads(3) by (simp add: index_range_def)
  moreover obtain cell where "decode_atom (to_be_bytes (descs 0 (concat tags) ! i)) (cells (concat tags)) = Done (atom_of (concat tags ! i), cell)"
    using atoms_denote_nth[OF fit(3) assms(2)] reads(5) by auto
  moreover have "4 * length tags < 2 ^ 32" using assms(1) by (simp add: denotes_row_def)
  moreover have "word_of_nat i + 1 = (word_of_nat (Suc i) :: u32)" by simp
  ultimately show ?thesis using ne u k assms(2) unfolding elements_next_def tags_view_def
    by (simp add: usize_add_def usize_mul_def del: of_nat_Suc)
qed

lemma collect_elements_row:
  assumes "denotes_row bytes eid pubkey sig created_at kind tags content" "n + length tag \<le> length (concat tags)" "take (length tag) (drop n (concat tags)) = tag"
  shows "collect_elements (tags_view bytes tags content) (word_of_nat n) (word_of_nat (n + length tag)) = Done tag"
  using assms(2,3)
proof (induction tag arbitrary: n)
  case Nil
  then show ?case by (subst collect_elements.simps) (simp add: elements_next_def)
next
  case (Cons s tag)
  have n: "n < length (concat tags)" using Cons.prems(1) by simp
  have "drop n (concat tags) = concat tags ! n # drop (Suc n) (concat tags)" using n by (simp add: Cons_nth_drop_Suc)
  then have s: "concat tags ! n = s" "take (length tag) (drop (Suc n) (concat tags)) = tag" using Cons.prems(2) by simp_all
  have "n + length (s # tag) < 2 ^ 32" using Cons.prems(1) assms(1) by (simp add: denotes_row_def)
  then have "elements_next (tags_view bytes tags content) (word_of_nat n) (word_of_nat (n + length (s # tag))) = Some (Done (atom_of s, word_of_nat (Suc n)))"
    using elements_next_row[OF assms(1) n, of "n + length (s # tag)"] s(1) by simp
  moreover have "n + length (s # tag) = Suc n + length tag" by simp
  ultimately show ?case using Cons.IH[of "Suc n"] Cons.prems(1) s(2)
    by (subst collect_elements.simps) (simp add: to_owned_text_atom_of del: of_nat_add of_nat_Suc)
qed

lemma collect_tags_row:
  assumes "denotes_row bytes eid pubkey sig created_at kind tags content" "i \<le> length tags"
  shows "collect_tags nc (tags_view bytes tags content) [i..<length tags] (word_of_nat (length (concat (take i tags)))) = Done ts \<longleftrightarrow>
    map (nc_parse_tag nc) (drop i tags) = map Some ts"
  using assms(2)
proof (induction "length tags - i" arbitrary: i ts)
  case (Suc d)
  then have i: "i < length tags" by simp
  let ?n = "length (concat (take i tags))" and ?tag = "tags ! i" and ?v = "tags_view bytes tags content"
  have step: "[i..<length tags] = i # [Suc i..<length tags]" "drop i tags = ?tag # drop (Suc i) tags" using i by (simp_all add: upt_conv_Cons Cons_nth_drop_Suc)
  have split: "concat tags = concat (take i tags) @ ?tag @ concat (drop (Suc i) tags)"
    by (metis step(2) append_take_drop_id concat.simps(2) concat_append)
  have next_n: "length (concat (take (Suc i) tags)) = ?n + length ?tag" using i by (simp add: take_Suc_conv_app_nth)
  have "ends_of 0 tags ! i = word_of_nat (?n + length ?tag)"
  proof -
    have "ends_of m tags ! i = word_of_nat (m + length (concat (take (Suc i) tags)))" for m
      using i by (induction m tags arbitrary: i rule: ends_of.induct) (auto simp: nth_Cons' add.assoc simp del: of_nat_add split: if_splits) 
    then show ?thesis using next_n by simp
  qed
  then have "tags_next ?v i (word_of_nat ?n) = Done (word_of_nat ?n, word_of_nat (?n + length ?tag))"
    using laid_out_reads(1)[OF denotes_row_fit(2)[OF assms(1)], of i] i by (simp add: tags_next_def tags_view_def expect_def del: of_nat_add)
  moreover have "collect_elements ?v (word_of_nat ?n) (word_of_nat (?n + length ?tag)) = Done ?tag"
    by (rule collect_elements_row[OF assms(1)]) (simp_all add: split)
  ultimately have unf: "collect_tags nc ?v [i..<length tags] (word_of_nat ?n) =
      and_then (ok_or InvalidTag (nc_parse_tag nc ?tag)) (\<lambda>tag.
      and_then (collect_tags nc ?v [Suc i..<length tags] (word_of_nat (length (concat (take (Suc i) tags))))) (\<lambda>tags. Done (tag # tags)))"
    unfolding step next_n by (simp del: of_nat_add)
  have IH: "collect_tags nc ?v [Suc i..<length tags] (word_of_nat (length (concat (take (Suc i) tags)))) = Done ts' \<longleftrightarrow>
      map (nc_parse_tag nc) (drop (Suc i) tags) = map Some ts'" for ts' using Suc.hyps(1)[of "Suc i"] Suc.hyps(2) i by simp
  show ?case unfolding unf and_then_Done_iff IH step(2) by (cases ts) auto
qed auto

end
