(* ===== verification/Binary_Rows.thy ===== *)
theory Binary_Rows
  imports Binary_Event_Props
begin

text \<open>
  Round trips of the store's rows. What the \<open>nostr\<close> crate promises of one event is \<open>codec_knows\<close>: identities
  have their documented widths, their constructors invert their byte views, and a nonempty tag parses to
  itself. Rust strings are valid UTF-8.
\<close>

section \<open>Event rows\<close>

definition codec_knows :: "nostr_codec \<Rightarrow> event \<Rightarrow> bool" where
  "codec_knows nc e \<longleftrightarrow>
     length (nc_id_bytes nc (ev_id e)) = 32 \<and> nc_id_of nc (nc_id_bytes nc (ev_id e)) = ev_id e \<and>
     length (nc_pubkey_bytes nc (ev_pubkey e)) = 32 \<and> nc_pubkey_of nc (nc_pubkey_bytes nc (ev_pubkey e)) = ev_pubkey e \<and>
     length (nc_sig_bytes nc (ev_sig e)) = 64 \<and> nc_sig_of nc (nc_sig_bytes nc (ev_sig e)) = Some (ev_sig e) \<and>
     (\<forall>tag \<in> set (ev_tags e). nc_parse_tag nc tag = Some tag)"

definition texts_ok :: "event \<Rightarrow> bool" where
  "texts_ok e \<longleftrightarrow> is_str (ev_content e) \<and> (\<forall>s \<in> set (concat (ev_tags e)). is_str s)"

lemma row_fields:
  assumes "denotes_row bytes eid pubkey sig created_at kind tags content"
  shows "id_bytes (tags_view bytes tags content) = Done eid" "pubkey_bytes (tags_view bytes tags content) = Done pubkey"
    "signature_bytes (tags_view bytes tags content) = Done sig" "created_at_secs (tags_view bytes tags content) = Done created_at"
    "kind_u16 (tags_view bytes tags content) = Done kind" "view_content (tags_view bytes tags content) = Done content"
    "unat (sv_tag_count (tags_view bytes tags content)) = length tags"
proof -
  note fit = denotes_row_fit[OF assms]
  have row: "bytes = row_bytes eid pubkey sig created_at kind (ends_of 0 tags) (descs 0 (concat tags)) (cells (concat tags)) (as_bytes content)"
    and str: "is_str content" using assms by (simp_all add: denotes_row_def)
  note fixed = row_fixed[OF fit(1) row]
  note reads = laid_out_reads[OF fit(2)]
  show "id_bytes (tags_view bytes tags content) = Done eid" "pubkey_bytes (tags_view bytes tags content) = Done pubkey"
    "signature_bytes (tags_view bytes tags content) = Done sig" "created_at_secs (tags_view bytes tags content) = Done created_at"
    "kind_u16 (tags_view bytes tags content) = Done kind"
    using fixed by (simp_all add: id_bytes_def pubkey_bytes_def signature_bytes_def created_at_secs_def kind_u16_def index_range_def expect_def tags_view_def)
  show "view_content (tags_view bytes tags content) = Done content" using reads(4) str by (simp add: view_content_def index_range_def tags_view_def)
  show "unat (sv_tag_count (tags_view bytes tags content)) = length tags" using reads(6) by (simp add: tags_view_def)
qed

lemma materialize_row:
  assumes "denotes_row bytes eid pubkey sig created_at kind tags content"
  shows "materialize_event nc (tags_view bytes tags content) = Done e \<longleftrightarrow>
    (\<exists>ts sig'. map (nc_parse_tag nc) tags = map Some ts \<and> nc_sig_of nc sig = Some sig' \<and>
       e = \<lparr>ev_id = nc_id_of nc eid, ev_pubkey = nc_pubkey_of nc pubkey, ev_created_at = created_at, ev_kind = kind,
            ev_tags = ts, ev_content = content, ev_sig = sig'\<rparr>)"
proof -
  have t: "collect_tags nc (tags_view bytes tags content) [0..<length tags] 0 = Done ts \<longleftrightarrow> map (nc_parse_tag nc) tags = map Some ts" for ts
    using collect_tags_row[OF assms, of 0 nc ts] by simp
  show ?thesis unfolding materialize_event_def row_fields[OF assms] and_then.simps and_then_Done_iff t by auto
qed

lemma tagged_row_denotes:
  assumes "codec_knows nc e" "texts_ok e" "row_fits (ev_tags e) (length (ev_content e))"
  shows "denotes_row (tagged_row nc e) (nc_id_bytes nc (ev_id e)) (nc_pubkey_bytes nc (ev_pubkey e)) (nc_sig_bytes nc (ev_sig e))
    (ev_created_at e) (ev_kind e) (ev_tags e) (ev_content e)"
  using assms fits_all_small[of 0 "concat (ev_tags e)"]
  by (simp add: denotes_row_def codec_knows_def texts_ok_def row_fits_def tagged_row_def)

lemma event_row_decodes:
  assumes "codec_knows nc e" "texts_ok e" "encode_event nc e = Done bytes"
  shows "\<exists>view. view_parse bytes = Done view \<and> materialize_event nc view = Done e"
proof -
  have fits: "row_fits (ev_tags e) (length (ev_content e))" and row: "bytes = tagged_row nc e" using assms(3) by (simp_all add: encode_event_iff)
  note d = tagged_row_denotes[OF assms(1,2) fits, folded row]
  have "map (nc_parse_tag nc) (ev_tags e) = map Some (ev_tags e)" "nc_sig_of nc (nc_sig_bytes nc (ev_sig e)) = Some (ev_sig e)"
    using assms(1) by (simp_all add: codec_knows_def)
  then have "materialize_event nc (tags_view bytes (ev_tags e) (ev_content e)) = Done e"
    unfolding materialize_row[OF d] using assms(1) by (intro exI[of _ "ev_tags e"] exI[of _ "ev_sig e"]) (simp add: codec_knows_def)
  then show ?thesis using view_parse_row[OF d] by blast
qed

text \<open>The identity types of the crate are exactly the arrays of their width, a signature keeps its bytes
  and parsing a tag keeps its elements.\<close>

definition codec_exact :: "nostr_codec \<Rightarrow> bool" where
  "codec_exact nc \<longleftrightarrow>
     (\<forall>b. length b = 32 \<longrightarrow> nc_id_bytes nc (nc_id_of nc b) = b \<and> nc_pubkey_bytes nc (nc_pubkey_of nc b) = b) \<and>
     (\<forall>b s. nc_sig_of nc b = Some s \<longrightarrow> nc_sig_bytes nc s = b) \<and> (\<forall>t t'. nc_parse_tag nc t = Some t' \<longrightarrow> t' = t)"

text \<open>C10: The row format is canonical. A row that validates and decodes is, byte for byte, the row the
  encoder writes for the decoded event, so one event has one row.\<close>

theorem event_row_canonical:
  assumes "codec_exact nc" "view_parse bytes = Done view" "materialize_event nc view = Done e" "length bytes < 2 ^ 30"
  shows "encode_event nc e = Done bytes"
proof -
  from assms(2) obtain eid pubkey sig created_at kind tags content where
    d: "denotes_row bytes eid pubkey sig created_at kind tags content" and v: "view = tags_view bytes tags content" by (rule view_parse_Done)
  from assms(3)[unfolded v materialize_row[OF d]] obtain ts sig' where
    m: "map (nc_parse_tag nc) tags = map Some ts" "nc_sig_of nc sig = Some sig'"
      "e = \<lparr>ev_id = nc_id_of nc eid, ev_pubkey = nc_pubkey_of nc pubkey, ev_created_at = created_at, ev_kind = kind,
            ev_tags = ts, ev_content = content, ev_sig = sig'\<rparr>" by blast
  have "ts = tags"
  proof (rule nth_equalityI)
    show len: "length ts = length tags" using arg_cong[OF m(1), of length] by simp
    fix i assume "i < length ts"
    then have "nc_parse_tag nc (tags ! i) = Some (ts ! i)" using arg_cong[OF m(1), of "\<lambda>l. l ! i"] len by simp
    then show "ts ! i = tags ! i" using assms(1) by (simp add: codec_exact_def)
  qed
  moreover have "nc_id_bytes nc (nc_id_of nc eid) = eid" "nc_pubkey_bytes nc (nc_pubkey_of nc pubkey) = pubkey" "nc_sig_bytes nc sig' = sig"
    using d m(2) assms(1) by (auto simp: denotes_row_def codec_exact_def)
  ultimately have row: "bytes = tagged_row nc e" using d m(3) by (simp add: denotes_row_def tagged_row_def)
  have "length (cells (concat tags)) \<le> length bytes" using d by (auto simp: denotes_row_def row_bytes_def)
  then have "row_fits (ev_tags e) (length (ev_content e))" using d m(3) \<open>ts = tags\<close> assms(4) by (simp add: denotes_row_def row_fits_def)
  then show ?thesis using row by (simp add: encode_event_iff)
qed

section \<open>Local state and provenance\<close>

definition owner_bytes :: "u64 list \<Rightarrow> u8 list" where
  "owner_bytes owners = concat (map to_be_bytes owners)"

lemma owner_bytes_simps [simp]: "owner_bytes [] = []" "owner_bytes (w # ws) = to_be_bytes w @ owner_bytes ws"
  by (simp_all add: owner_bytes_def)

lemma length_owner_bytes [simp]: "length (owner_bytes ws) = 8 * length ws"
  by (induction ws) simp_all

lemma push_owners_eq: "push_owners out owners = out @ owner_bytes (sorted_list_of_fset owners)"
proof -
  have "foldl push_u64 out ws = out @ owner_bytes ws" for ws by (induction ws arbitrary: out) (simp_all add: push_u64_def)
  then show ?thesis by (simp add: push_owners_def)
qed

lemma take_u64_at:
  assumes "bytes = pre @ to_be_bytes w @ rest" "length pre = cursor" "length bytes < 2 ^ 64"
  shows "take_u64 bytes cursor = Done (w, cursor + 8)"
proof -
  have "cursor + 8 \<le> length bytes" using assms(1,2) by simp
  then show ?thesis using read_u64_at[OF assms(1,2)] assms(3) by (simp add: take_u64_def usize_add_def)
qed

lemma take_u32_at:
  assumes "bytes = pre @ to_be_bytes w @ rest" "length pre = cursor" "length bytes < 2 ^ 64"
  shows "take_u32 bytes cursor = Done (w, cursor + 4)"
proof -
  have "cursor + 4 \<le> length bytes" using assms(1,2) by simp
  then show ?thesis using read_u32_at[OF assms(1,2)] assms(3) by (simp add: take_u32_def usize_add_def)
qed

lemma take_bytes_at:
  assumes "bytes = pre @ v @ rest" "length pre = cursor" "length bytes < 2 ^ 64" "n = length v"
  shows "take_bytes bytes cursor n = Done (v, cursor + n)"
  using assms by (simp add: take_bytes_iff)

lemma decode_owners_loop_at:
  assumes "bytes = pre @ owner_bytes ws @ rest" "length pre = cursor" "length bytes < 2 ^ 64" "sorted ws" "distinct ws"
    "case previous of None \<Rightarrow> True | Some p \<Rightarrow> \<forall>w \<in> set ws. p < w"
  shows "decode_owners_loop bytes (length ws) owners previous cursor = Done (fset_of_list ws |\<union>| owners, cursor + 8 * length ws)"
  using assms
proof (induction ws arbitrary: pre cursor owners previous)
  case (Cons w ws)
  have "bytes = pre @ to_be_bytes w @ owner_bytes ws @ rest" using Cons.prems(1) by simp
  then have t: "take_u64 bytes cursor = Done (w, cursor + 8)" by (rule take_u64_at[OF _ Cons.prems(2,3)])
  have "\<forall>v \<in> set ws. w < v" using Cons.prems(4,5) by (metis distinct.simps(2) le_neq_trans sorted_simps(2))
  then have "decode_owners_loop bytes (length ws) (finsert w owners) (Some w) (cursor + 8) =
      Done (fset_of_list ws |\<union>| finsert w owners, cursor + 8 + 8 * length ws)"
    using Cons.IH[of "pre @ to_be_bytes w" "cursor + 8" "Some w" "finsert w owners"] Cons.prems by simp
  moreover have "fset_of_list ws |\<union>| finsert w owners = fset_of_list (w # ws) |\<union>| owners" by auto
  ultimately show ?case using t Cons.prems(6) by (cases previous) (auto simp: add.assoc)
qed simp

lemma decode_owners_at:
  assumes "bytes = pre @ owner_bytes (sorted_list_of_fset owners) @ rest" "length pre = cursor" "length bytes < 2 ^ 64" "n = fcard owners"
  shows "decode_owners bytes cursor n = Done (owners, cursor + 8 * n)"
  using decode_owners_loop_at[OF assms(1-3), of None "{||}"] assms(4) by (simp add: decode_owners_def)

lemma sig_state_of_byte [simp]: "sig_state_of (sig_state_byte s) = Done s"
  by (cases s) (simp_all add: sig_state_of_def sig_state_byte_def)

lemma decode_encode_local:
  assumes "encode_local origin = Done bytes"
  shows "decode_local bytes = Done origin"
proof -
  let ?n = "fcard (lo_owners origin)" and ?s = "sig_state_byte (lo_sig_state origin)"
  let ?h = "LOCAL_MAGIC @ [SIDECAR_VERSION] @ [?s] @ [0, 0]"
  have n: "?n < 2 ^ 32" "12 + ?n * 8 < 2 ^ 64" and bytes: "bytes = ?h @ to_be_bytes (word_of_nat ?n :: u32) @ owner_bytes (sorted_list_of_fset (lo_owners origin))"
    using assms by (auto simp: encode_local_def checked_local_len_def and_then_Done_iff push_u32_def push_owners_eq u32_try_from_def split: if_splits)
  have u: "unat (word_of_nat ?n :: u32) = ?n" using n by (simp add: unat_of_nat)
  have h: "length ?h = 8" by (simp add: LOCAL_MAGIC_def)
  have len: "length bytes = 12 + 8 * ?n" using bytes h by simp
  have "check_magic_and_version bytes LOCAL_MAGIC SIDECAR_VERSION = Done ()"
    unfolding bytes check_magic_and_version_def by (simp add: get_range_def LOCAL_MAGIC_def as_bytes_def)
  moreover have "(index_at bytes 5 :: u8 decoded) = Done ?s" "(index_range bytes 6 8 :: u8 list decoded) = Done [0, 0]"
    unfolding bytes by (simp_all add: index_at_def index_range_def get_range_def LOCAL_MAGIC_def as_bytes_def)
  moreover have "read_u32 bytes 8 = Done (word_of_nat ?n)" by (rule read_u32_at[OF bytes h])
  moreover have "checked_local_len ?n = Done (12 + ?n * 8)" using n by (simp add: checked_local_len_def u32_try_from_def usize_mul_def usize_add_def)
  moreover have "decode_owners bytes 12 ?n = Done (lo_owners origin, 12 + 8 * ?n)"
    by (rule decode_owners_at[where pre = "?h @ to_be_bytes (word_of_nat ?n :: u32)" and rest = "[]"]) (use bytes h len n in simp_all)
  ultimately show ?thesis unfolding decode_local_def using len u by (simp add: mult.commute)
qed

definition seen_bytes :: "(relay_url \<times> u64) list \<Rightarrow> u8 list" where
  "seen_bytes seen = concat (map (\<lambda>(relay, at). to_be_bytes (word_of_nat (length relay) :: u32) @ as_bytes relay @ to_be_bytes at) seen)"

lemma seen_bytes_simps [simp]:
  "seen_bytes [] = []"
  "seen_bytes ((relay, at) # seen) = to_be_bytes (word_of_nat (length relay) :: u32) @ as_bytes relay @ to_be_bytes at @ seen_bytes seen"
  by (simp_all add: seen_bytes_def)

lemma push_seen_iff:
  "push_seen out seen = Done r \<longleftrightarrow> (\<forall>(relay, at) \<in> set seen. length relay < 2 ^ 32) \<and> r = out @ seen_bytes seen"
proof (induction seen arbitrary: out)
  case (Cons p seen)
  obtain relay at where p: "p = (relay, at)" by force
  have "push_seen out (p # seen) = Done r \<longleftrightarrow>
      length relay < 2 ^ 32 \<and> push_seen (out @ to_be_bytes (word_of_nat (length relay) :: u32) @ as_bytes relay @ to_be_bytes at) seen = Done r"
    by (auto simp: p push_u32_def push_u64_def u32_try_from_def)
  then show ?case using Cons p by auto
qed auto

text \<open>What \<open>RelayUrl::parse\<close> promises of a URL it produced.\<close>

definition relays_known :: "nostr_codec \<Rightarrow> provenance \<Rightarrow> bool" where
  "relays_known nc p \<longleftrightarrow> (\<forall>relay \<in> fset (fmdom (pv_seen p)). is_str relay \<and> nc_parse_relay nc relay = Some relay)"

lemma decode_seen_at:
  assumes "bytes = pre @ seen_bytes xs @ rest" "length pre = cursor" "length bytes < 2 ^ 64" "distinct (map fst xs)"
    "\<forall>(relay, at) \<in> set xs. length relay < 2 ^ 32 \<and> is_str relay \<and> nc_parse_relay nc relay = Some relay \<and> relay |\<notin>| fmdom seen"
  shows "\<exists>seen'. decode_seen nc bytes (length xs) seen cursor = Done (seen', cursor + length (seen_bytes xs)) \<and>
    (\<forall>k. fmlookup seen' k = (case map_of xs k of None \<Rightarrow> fmlookup seen k | Some at \<Rightarrow> Some at))"
  using assms
proof (induction xs arbitrary: pre cursor seen)
  case (Cons p xs)
  obtain relay at where p: "p = (relay, at)" by force
  let ?w = "word_of_nat (length relay) :: u32"
  have r: "length relay < 2 ^ 32" "is_str relay" "nc_parse_relay nc relay = Some relay" "relay |\<notin>| fmdom seen" using Cons.prems(5) p by simp_all
  have u: "unat ?w = length relay" using r(1) by (simp add: unat_of_nat)
  let ?rest = "seen_bytes xs @ rest"
  have b: "bytes = pre @ to_be_bytes ?w @ as_bytes relay @ to_be_bytes at @ ?rest" using Cons.prems(1) p by simp
  have t1: "take_u32 bytes cursor = Done (?w, cursor + 4)" by (rule take_u32_at[OF b Cons.prems(2,3)])
  have t2: "take_bytes bytes (cursor + 4) (length relay) = Done (as_bytes relay, cursor + 4 + length relay)"
    by (rule take_bytes_at[where pre = "pre @ to_be_bytes ?w" and rest = "to_be_bytes at @ ?rest"]) (use b Cons.prems(2,3) in simp_all)
  have t3: "take_u64 bytes (cursor + 4 + length relay) = Done (at, cursor + 4 + length relay + 8)"
    by (rule take_u64_at[where pre = "pre @ to_be_bytes ?w @ as_bytes relay" and rest = ?rest]) (use b Cons.prems(2,3) in simp_all)
  have b': "bytes = (pre @ to_be_bytes ?w @ as_bytes relay @ to_be_bytes at) @ seen_bytes xs @ rest" using b by simp
  have l': "length (pre @ to_be_bytes ?w @ as_bytes relay @ to_be_bytes at) = cursor + 4 + length relay + 8" using Cons.prems(2) by simp
  have k': "\<forall>(q, t) \<in> set xs. length q < 2 ^ 32 \<and> is_str q \<and> nc_parse_relay nc q = Some q \<and> q |\<notin>| fmdom (fmupd relay at seen)"
    using Cons.prems(4,5) p by (force simp: image_iff)
  have "distinct (map fst xs)" using Cons.prems(4) by simp
  from Cons.IH[OF b' l' Cons.prems(3) this k'] obtain seen' where s: "decode_seen nc bytes (length xs) (fmupd relay at seen) (cursor + 4 + length relay + 8) =
      Done (seen', cursor + 4 + length relay + 8 + length (seen_bytes xs))"
    "\<forall>k. fmlookup seen' k = (case map_of xs k of None \<Rightarrow> fmlookup (fmupd relay at seen) k | Some at \<Rightarrow> Some at)"
    by (elim exE conjE) (rule that)
  have "map_of xs relay = None" using Cons.prems(4) p by (simp add: map_of_eq_None_iff)
  then have "\<forall>k. fmlookup seen' k = (case map_of (p # xs) k of None \<Rightarrow> fmlookup seen k | Some at \<Rightarrow> Some at)" using s(2) p by (auto split: option.split)
  moreover have "decode_seen nc bytes (length (p # xs)) seen cursor = Done (seen', cursor + length (seen_bytes (p # xs)))"
    using t1 t2 t3 s(1) r u p by (simp add: add.assoc)
  ultimately show ?case by blast
qed simp

lemma decode_encode_provenance:
  assumes "encode_provenance p = Done bytes" "relays_known nc p" "length bytes < 2 ^ 64"
  shows "decode_provenance nc bytes = Done p"
proof -
  let ?seen = "sorted_list_of_fmap (pv_seen p)"
  let ?flags = "if pv_local p \<noteq> None then FLAG_LOCAL else 0 :: u8"
  let ?k = "case pv_local p of None \<Rightarrow> 0 | Some origin \<Rightarrow> fcard (lo_owners origin)" and ?n = "length ?seen"
  let ?h = "PROVENANCE_MAGIC @ [SIDECAR_VERSION] @ [?flags] @ [0, 0]"
  let ?tail = "case pv_local p of None \<Rightarrow> [] | Some origin \<Rightarrow> [sig_state_byte (lo_sig_state origin)] @ owner_bytes (sorted_list_of_fset (lo_owners origin))"
  have n: "fcard (fmdom (pv_seen p)) = ?n" using map_fst_sorted_list_of_fmap[of "pv_seen p"] by (metis length_map length_sorted_list_of_fset)
  from assms(1) have lim: "?n < 2 ^ 32" "?k < 2 ^ 32" "\<forall>(relay, at) \<in> set ?seen. length relay < 2 ^ 32"
    and bytes: "bytes = ?h @ to_be_bytes (word_of_nat ?n :: u32) @ to_be_bytes (word_of_nat ?k :: u32) @ seen_bytes ?seen @ ?tail"
    unfolding encode_provenance_def Let_def n
    by (auto simp: and_then_Done_iff push_u32_def push_seen_iff push_owners_eq u32_try_from_def split: option.splits if_splits)
  have u: "unat (word_of_nat ?n :: u32) = ?n" "unat (word_of_nat ?k :: u32) = ?k" using lim by (simp_all add: unat_of_nat)
  have h: "length ?h = 8" by (simp add: PROVENANCE_MAGIC_def)
  let ?pre = "?h @ to_be_bytes (word_of_nat ?n :: u32) @ to_be_bytes (word_of_nat ?k :: u32)"
  have len: "length bytes = 16 + length (seen_bytes ?seen) + length ?tail" "length ?pre = 16" using bytes h by simp_all
  have magic: "check_magic_and_version bytes PROVENANCE_MAGIC SIDECAR_VERSION = Done ()"
    unfolding bytes check_magic_and_version_def by (simp add: get_range_def PROVENANCE_MAGIC_def as_bytes_def)
  have head: "(index_at bytes 5 :: u8 decoded) = Done ?flags" "(index_range bytes 6 8 :: u8 list decoded) = Done [0, 0]"
    unfolding bytes by (simp_all add: index_at_def index_range_def get_range_def PROVENANCE_MAGIC_def as_bytes_def)
  have r1: "read_u32 bytes 8 = Done (word_of_nat ?n)" by (rule read_u32_at[OF bytes h])
  have r2: "read_u32 bytes 12 = Done (word_of_nat ?k)"
    by (rule read_u32_at[where pre = "?h @ to_be_bytes (word_of_nat ?n :: u32)" and rest = "seen_bytes ?seen @ ?tail"]) (use bytes h in simp_all)
  have b: "bytes = ?pre @ seen_bytes ?seen @ ?tail" using bytes by simp
  have keys: "\<forall>(relay, at) \<in> set ?seen. length relay < 2 ^ 32 \<and> is_str relay \<and> nc_parse_relay nc relay = Some relay \<and> relay |\<notin>| fmdom (fmempty :: (relay_url, u64) fmap)"
    using lim(3) assms(2) by (auto simp: relays_known_def set_sorted_list_of_fmap fmlookup_dom_iff)
  from decode_seen_at[OF b len(2) assms(3) distinct_map_fst_sorted_list_of_fmap keys] obtain seen' where
    s: "decode_seen nc bytes ?n fmempty 16 = Done (seen', 16 + length (seen_bytes ?seen))"
      "\<forall>k. fmlookup seen' k = (case map_of ?seen k of None \<Rightarrow> fmlookup fmempty k | Some at \<Rightarrow> Some at)" by (elim exE conjE) (rule that)
  have "seen' = pv_seen p" by (rule fmap_ext) (use s(2) in \<open>auto simp: map_of_sorted_list_of_fmap split: option.split\<close>)
  note seen = s(1)[unfolded this]
  let ?c = "16 + length (seen_bytes ?seen)"
  show ?thesis
  proof (cases "pv_local p")
    case None
    then have "length bytes = ?c" "word_of_nat ?k = (0 :: u32)" using len(1) by simp_all
    then show ?thesis unfolding decode_provenance_def magic and_then.simps head r1 r2 using None len(1) seen u by (cases p) simp
  next
    case (Some origin)
    let ?s = "sig_state_byte (lo_sig_state origin)"
    have st: "take_bytes bytes ?c 1 = Done ([?s], ?c + 1)"
      by (rule take_bytes_at[where pre = "?pre @ seen_bytes ?seen" and rest = "owner_bytes (sorted_list_of_fset (lo_owners origin))"])
        (use b len(2) Some assms(3) in simp_all)
    have ow: "decode_owners bytes (?c + 1) (fcard (lo_owners origin)) = Done (lo_owners origin, ?c + 1 + 8 * fcard (lo_owners origin))"
      by (rule decode_owners_at[where pre = "?pre @ seen_bytes ?seen @ [?s]" and rest = "[]"]) (use b len(2) Some assms(3) in simp_all)
    have "length bytes = ?c + 1 + 8 * fcard (lo_owners origin)" using len(1) Some by simp
    then show ?thesis unfolding decode_provenance_def magic and_then.simps head r1 r2 using Some seen u st ow by (cases p) simp
  qed
qed

section \<open>Displaced rows\<close>

text \<open>C9: A stored event that was written as a displaced row comes back unchanged: the event, its
  observations by relay, and its local owners with their signature state.\<close>

theorem stored_row_roundtrip:
  assumes "codec_knows nc (st_event stored)" "texts_ok (st_event stored)" "relays_known nc (st_provenance stored)"
    "encode_stored nc stored = Done bytes"
  shows "decode_stored nc bytes = Done stored"
proof -
  from assms(4) obtain ev pv where ev: "encode_event nc (st_event stored) = Done ev" and pv: "encode_provenance (st_provenance stored) = Done pv"
    and lim: "length ev < 2 ^ 32" "length pv < 2 ^ 32" "16 + length ev + length pv < 2 ^ 64"
    and bytes: "bytes = (COMPOSITE_MAGIC @ [COMPOSITE_VERSION] @ [0, 0, 0]) @ to_be_bytes (word_of_nat (length ev) :: u32) @
        to_be_bytes (word_of_nat (length pv) :: u32) @ ev @ pv"
    unfolding encode_stored_def by (auto simp: and_then_Done_iff checked_capacity_def push_u32_def u32_try_from_def bind_eq_Some_conv split: if_splits)
  let ?h = "COMPOSITE_MAGIC @ [COMPOSITE_VERSION] @ [0, 0, 0]"
  let ?pre = "?h @ to_be_bytes (word_of_nat (length ev) :: u32) @ to_be_bytes (word_of_nat (length pv) :: u32)"
  have h: "length ?h = 8" by (simp add: COMPOSITE_MAGIC_def)
  have u: "unat (word_of_nat (length ev) :: u32) = length ev" "unat (word_of_nat (length pv) :: u32) = length pv" using lim by (simp_all add: unat_of_nat)
  have len: "length bytes = 16 + length ev + length pv" using bytes h by simp
  have "check_magic_and_version bytes COMPOSITE_MAGIC COMPOSITE_VERSION = Done ()"
    unfolding bytes check_magic_and_version_def by (simp add: get_range_def COMPOSITE_MAGIC_def as_bytes_def)
  moreover have "(index_range bytes 5 8 :: u8 list decoded) = Done [0, 0, 0]"
    unfolding bytes by (simp add: index_range_def get_range_def COMPOSITE_MAGIC_def as_bytes_def)
  moreover have "read_u32 bytes 8 = Done (word_of_nat (length ev))" by (rule read_u32_at[OF bytes h])
  moreover have "read_u32 bytes 12 = Done (word_of_nat (length pv))"
    by (rule read_u32_at[where pre = "?h @ to_be_bytes (word_of_nat (length ev) :: u32)" and rest = "ev @ pv"]) (use bytes h in simp_all)
  moreover have "(index_range bytes 16 (16 + length ev) :: u8 list decoded) = Done ev"
    by (rule index_range_at[where pre = ?pre and rest = pv]) (use bytes h in simp_all)
  moreover have "(index_range bytes (16 + length ev) (16 + length ev + length pv) :: u8 list decoded) = Done pv"
    by (rule index_range_at[where pre = "?pre @ ev" and rest = "[]"]) (use bytes h in simp_all)
  moreover have "checked_capacity 16 (length ev) (length pv) = Done (16 + length ev + length pv)" using lim by (simp add: checked_capacity_def usize_add_def)
  moreover obtain view where "view_parse ev = Done view" "materialize_event nc view = Done (st_event stored)"
    using event_row_decodes[OF assms(1,2) ev] by blast
  moreover have "length pv < 2 ^ 64" using lim(2) by simp
  from decode_encode_provenance[OF pv assms(3) this] have "decode_provenance nc pv = Done (st_provenance stored)" .
  ultimately show ?thesis unfolding decode_stored_def using len u lim by (simp add: usize_add_def)
qed

section \<open>A sample row\<close>

text \<open>Identities in hexadecimal, as the crate prints them; tags and relays are taken as they stand.\<close>

definition hex_codec :: nostr_codec where
  "hex_codec =
     \<lparr>nc_id_bytes = \<lambda>s. the (decode_hex_pairs (as_bytes s)), nc_id_of = encode_hex_32,
      nc_pubkey_bytes = \<lambda>s. the (decode_hex_pairs (as_bytes s)), nc_pubkey_of = encode_hex_32,
      nc_sig_bytes = \<lambda>s. the (decode_hex_pairs (as_bytes s)),
      nc_sig_of = \<lambda>raw. if length raw = 64 then Some (encode_hex_32 raw) else None,
      nc_parse_tag = \<lambda>tag. if tag = [] then None else Some tag, nc_parse_relay = Some\<rparr>"

definition sample_row_event :: event where
  "sample_row_event =
     \<lparr>ev_id = encode_hex_32 (replicate 32 0xab), ev_pubkey = encode_hex_32 (replicate 32 0xcd), ev_created_at = 1700000000, ev_kind = 1,
      ev_tags = [[''t'', ''nostr'']], ev_content = ''hi'', ev_sig = encode_hex_32 (replicate 64 0xef)\<rparr>"

definition sample_stored :: stored_event where
  "sample_stored =
     \<lparr>st_event = sample_row_event,
      st_provenance = \<lparr>pv_seen = fmupd ''wss'' 7 fmempty, pv_local = Some \<lparr>lo_owners = {|3|}, lo_sig_state = SigPending\<rparr>\<rparr>\<rparr>"

lemma decode_hex_pairs_encode [simp]: "decode_hex_pairs (as_bytes (encode_hex_32 raw)) = Some raw"
  by (simp add: decode_hex_pairs_iff encode_hex_32_eq)

lemma hex_codec_exact: "codec_exact hex_codec"
  by (auto simp: codec_exact_def hex_codec_def split: if_splits)

lemma sample_row_event_ok: "codec_knows hex_codec sample_row_event" "texts_ok sample_row_event"
  "row_fits (ev_tags sample_row_event) (length (ev_content sample_row_event))"
proof -
  show "codec_knows hex_codec sample_row_event" by (simp add: codec_knows_def hex_codec_def sample_row_event_def)
  show "texts_ok sample_row_event" by (simp add: texts_ok_def sample_row_event_def is_str_def as_bytes_def utf8_valid_ascii)
  show "row_fits (ev_tags sample_row_event) (length (ev_content sample_row_event))"
    by (simp add: row_fits_def sample_row_event_def cells_def cell_of_def decode_hex_32_def leb.simps[of "Suc (Suc (Suc (Suc (Suc 0))))"])
qed

lemma sample_row_encodes: "encode_event hex_codec sample_row_event = Done (tagged_row hex_codec sample_row_event)"
  using sample_row_event_ok(3) by (simp add: encode_event_iff)

lemma length_sample_row: "length (tagged_row hex_codec sample_row_event) = 178"
  using sample_row_event_ok(1)
  by (simp add: tagged_row_def row_bytes_def sample_row_event_def codec_knows_def cells_def cell_of_def decode_hex_32_def leb.simps[of "Suc (Suc (Suc (Suc (Suc 0))))"] EVENT_MAGIC_def)

lemma fcard_singleton: "fcard {|x|} = 1"
  by (simp add: fcard.rep_eq)

lemma sample_stored_encodes: "\<exists>bytes. encode_stored hex_codec sample_stored = Done bytes"
proof -
  let ?p = "st_provenance sample_stored"
  have sizes: "fcard (fmdom (pv_seen ?p)) = 1" "fcard (lo_owners (the (pv_local ?p))) = 1" by (simp_all add: sample_stored_def fcard_singleton)
  have seen: "sorted_list_of_fmap (pv_seen ?p) = [(''wss'', 7)]" by (simp add: sample_stored_def sorted_list_of_fmap_def)
  have "\<exists>pv. encode_provenance ?p = Done pv \<and> length pv < 100"
    unfolding encode_provenance_def Let_def encoded_provenance_body_len_def sizes seen
    by (simp add: sample_stored_def fcard_singleton checked_capacity_def checked_add_len_def push_u32_def push_u64_def push_owners_def u32_try_from_def
        usize_add_def usize_mul_def PROVENANCE_MAGIC_def)
  then obtain pv where "encode_provenance ?p = Done pv" "length pv < 100" by blast
  moreover have "st_event sample_stored = sample_row_event" by (simp add: sample_stored_def)
  ultimately show ?thesis
    by (simp add: encode_stored_def sample_row_encodes length_sample_row checked_capacity_def push_u32_def u32_try_from_def usize_add_def)
qed

theorem event_row_canonical_witness:
  "\<exists>bytes view. view_parse bytes = Done view \<and> materialize_event hex_codec view = Done sample_row_event \<and> encode_event hex_codec sample_row_event = Done bytes"
proof -
  obtain view where "view_parse (tagged_row hex_codec sample_row_event) = Done view" "materialize_event hex_codec view = Done sample_row_event"
    using event_row_decodes[OF sample_row_event_ok(1,2) sample_row_encodes] by blast
  moreover from this have "encode_event hex_codec sample_row_event = Done (tagged_row hex_codec sample_row_event)"
    by (rule event_row_canonical[OF hex_codec_exact]) (simp add: length_sample_row)
  ultimately show ?thesis by blast
qed

theorem stored_row_roundtrip_witness:
  "\<exists>bytes. encode_stored hex_codec sample_stored = Done bytes \<and> decode_stored hex_codec bytes = Done sample_stored"
proof -
  obtain bytes where "encode_stored hex_codec sample_stored = Done bytes" using sample_stored_encodes by blast
  moreover have "relays_known hex_codec (st_provenance sample_stored)"
    by (simp add: relays_known_def sample_stored_def hex_codec_def is_str_def as_bytes_def utf8_valid_ascii)
  ultimately show ?thesis using stored_row_roundtrip[of hex_codec sample_stored bytes] sample_row_event_ok by (simp add: sample_stored_def)
qed

end
