(* ===== verification/Binary_Match.thy ===== *)
theory Binary_Match
  imports Binary_Rows
begin

text \<open>
  Rows as the query path reads them: a header check only, then fields and tags on demand. On a written row
  the matcher answers as NIP-01 and the text search do on the event.
\<close>

section \<open>Matching a written row\<close>

lemma is_single_ascii_atom: "is_single_ascii (atom_of s) (word_of_nat (of_char c)) \<longleftrightarrow> s = [c]"
proof (cases "length s \<le> 3")
  case True
  have "as_bytes s = [word_of_nat (of_char c)] \<longleftrightarrow> as_bytes s = as_bytes [c]" by (simp add: as_bytes_def)
  then show ?thesis using True by (simp add: atom_of_def)
next
  case False
  then have "as_bytes s \<noteq> [b]" for b by (metis length_as_bytes length_Cons list.size(3) One_nat_def le_numeral_extra(4) not_less_eq_eq numeral_3_eq_3 Suc_le_mono le0)
  then show ?thesis using False by (auto simp: atom_of_def split: option.split)
qed

lemma set_map_filter: "set (List.map_filter g xs) = {y. \<exists>x \<in> set xs. g x = Some y}"
  by (induction xs) (auto simp: List.map_filter_simps split: option.split)

lemma prepared_matches_atom:
  assumes "(name, wanted) \<in> set (pf_generic_tags (prepare f))" "fmlookup (cf_tags (nf_axes f)) name = Some vs"
  shows "prepared_matches wanted (atom_of s) \<longleftrightarrow> s |\<in>| vs"
proof -
  have w: "wanted = \<lparr>pt_text = vs, pt_raw32 = sort (List.map_filter decode_hex_32 (sorted_list_of_fset vs))\<rparr>"
    using assms by (auto simp: prepare_def set_sorted_list_of_fmap)
  have raw: "raw \<in> set (List.map_filter decode_hex_32 (sorted_list_of_fset vs)) \<longleftrightarrow> s |\<in>| vs" if "decode_hex_32 s = Some raw" for raw
  proof -
    have "raw \<in> set (List.map_filter decode_hex_32 (sorted_list_of_fset vs)) \<longleftrightarrow> (\<exists>x. x |\<in>| vs \<and> decode_hex_32 x = Some raw)"
      by (simp add: set_map_filter) blast
    then show ?thesis using that by (auto simp: decode_hex_32_iff)
  qed
  show ?thesis using raw by (auto simp: w atom_of_def split: option.split)
qed

lemma tags_next_row:
  assumes "denotes_row bytes eid pubkey sig created_at kind tags content" "i < length tags"
  shows "tags_next (tags_view bytes tags content) i (word_of_nat (length (concat (take i tags)))) =
    Done (word_of_nat (length (concat (take i tags))), word_of_nat (length (concat (take (Suc i) tags))))"
proof -
  have "ends_of m tags ! i = word_of_nat (m + length (concat (take (Suc i) tags)))" for m
    using assms(2) by (induction m tags arbitrary: i rule: ends_of.induct) (auto simp: nth_Cons' add.assoc simp del: of_nat_add split: if_splits)
  then show ?thesis using laid_out_reads(1)[OF denotes_row_fit(2)[OF assms(1)], of i] assms(2)
    by (simp add: tags_next_def tags_view_def expect_def del: of_nat_add)
qed

lemma any_tag_matches_row:
  assumes "denotes_row bytes eid pubkey sig created_at kind tags content" "i \<le> length tags"
  shows "any_tag_matches (tags_view bytes tags content) name wanted [i..<length tags] (word_of_nat (length (concat (take i tags)))) =
    Done (\<exists>tag \<in> set (drop i tags). \<exists>n v rest. tag = n # v # rest \<and> is_single_ascii (atom_of n) name \<and> prepared_matches wanted (atom_of v))"
  using assms(2)
proof (induction "length tags - i" arbitrary: i)
  case (Suc d)
  then have i: "i < length tags" by simp
  let ?n = "length (concat (take i tags))" and ?tag = "tags ! i" and ?v = "tags_view bytes tags content"
  have step: "[i..<length tags] = i # [Suc i..<length tags]" "drop i tags = ?tag # drop (Suc i) tags" using i by (simp_all add: upt_conv_Cons Cons_nth_drop_Suc)
  have split: "concat tags = concat (take i tags) @ ?tag @ concat (drop (Suc i) tags)"
    by (metis step(2) append_take_drop_id concat.simps(2) concat_append)
  have next_n: "length (concat (take (Suc i) tags)) = ?n + length ?tag" using i by (simp add: take_Suc_conv_app_nth)
  have k: "length (concat tags) < 2 ^ 32" using assms(1) by (simp add: denotes_row_def)
  have el: "elements_next ?v (word_of_nat (?n + j)) (word_of_nat (?n + length ?tag)) = Some (Done (atom_of (?tag ! j), word_of_nat (Suc (?n + j))))"
    if "j < length ?tag" for j
    using elements_next_row[OF assms(1), of "?n + j" "?n + length ?tag"] that k split by (simp add: nth_append)
  have stop: "elements_next ?v w w = None" for w by (simp add: elements_next_def)
  have rec: "any_tag_matches ?v name wanted [Suc i..<length tags] (word_of_nat (?n + length ?tag)) =
      Done (\<exists>tag \<in> set (drop (Suc i) tags). \<exists>n v rest. tag = n # v # rest \<and> is_single_ascii (atom_of n) name \<and> prepared_matches wanted (atom_of v))"
    using Suc.hyps(1)[of "Suc i"] Suc.hyps(2) i next_n by (simp del: of_nat_add)
  have unf: "any_tag_matches ?v name wanted [i..<length tags] (word_of_nat ?n) =
      (case elements_next ?v (word_of_nat ?n) (word_of_nat (?n + length ?tag)) of
         None \<Rightarrow> any_tag_matches ?v name wanted [Suc i..<length tags] (word_of_nat (?n + length ?tag))
       | Some first \<Rightarrow> and_then first (\<lambda>(tag_name, atom_index).
           case elements_next ?v atom_index (word_of_nat (?n + length ?tag)) of
             None \<Rightarrow> any_tag_matches ?v name wanted [Suc i..<length tags] (word_of_nat (?n + length ?tag))
           | Some second \<Rightarrow> and_then second (\<lambda>(value, _). if is_single_ascii tag_name name \<and> prepared_matches wanted value then Done True
               else any_tag_matches ?v name wanted [Suc i..<length tags] (word_of_nat (?n + length ?tag)))))"
    unfolding step any_tag_matches.simps tags_next_row[OF assms(1) i] next_n by (simp del: of_nat_add)
  consider "?tag = []" | n where "?tag = [n]" | n v rest where "?tag = n # v # rest" by (metis neq_Nil_conv)
  then show ?case
  proof cases
    case 1
    then show ?thesis unfolding unf rec step(2) using stop by simp
  next
    case 2
    then show ?thesis unfolding unf rec step(2) using el[of 0] stop by simp
  next
    case 3
    then show ?thesis unfolding unf rec step(2) using el[of 0] el[of 1] by (simp del: of_nat_add of_nat_Suc) blast
  qed
qed simp

lemma all_tags_match_row:
  assumes "denotes_row bytes eid pubkey sig created_at kind tags content"
  shows "all_tags_match (tags_view bytes tags content) indexed wanted =
    Done (\<forall>(name, w) \<in> set wanted. indexed = IndexedTag name \<or>
      (\<exists>tag \<in> set tags. \<exists>n v rest. tag = n # v # rest \<and> n = [name] \<and> prepared_matches w (atom_of v)))"
proof (induction wanted)
  case (Cons p wanted)
  obtain name w where p: "p = (name, w)" by force
  show ?case using Cons any_tag_matches_row[OF assms, of 0] row_fields(7)[OF assms] by (auto simp: p is_single_ascii_atom)
qed simp

definition search_hits :: "string option \<Rightarrow> string \<Rightarrow> bool" where
  "search_hits search content \<longleftrightarrow>
     (case search of None \<Rightarrow> True
      | Some q \<Rightarrow> q = [] \<or> (\<exists>w \<in> set (windows (length q) (as_bytes content)). eq_ignore_ascii_case w (as_bytes q)))"

text \<open>The identities a filter names are values of the crate's types.\<close>

definition filter_known :: "nostr_codec \<Rightarrow> nostr_filter \<Rightarrow> bool" where
  "filter_known nc f \<longleftrightarrow>
     (case cf_ids (nf_axes f) of None \<Rightarrow> True | Some ids \<Rightarrow> \<forall>v \<in> fset ids. nc_id_of nc (nc_id_bytes nc v) = v) \<and>
     (case cf_authors (nf_axes f) of None \<Rightarrow> True | Some authors \<Rightarrow> \<forall>v \<in> fset authors. nc_pubkey_of nc (nc_pubkey_bytes nc v) = v)"

text \<open>What the index that yielded the row has already proved.\<close>

definition index_proves :: "indexed_match \<Rightarrow> nostr_filter \<Rightarrow> event \<Rightarrow> bool" where
  "index_proves indexed f e \<longleftrightarrow>
     (case indexed of
        IndexedNone \<Rightarrow> True
      | IndexedAuthor \<Rightarrow> axis_admits (cf_authors (nf_axes f)) (ev_pubkey e)
      | IndexedKind \<Rightarrow> axis_admits (cf_kinds (nf_axes f)) (ev_kind e)
      | IndexedTag name \<Rightarrow> tag_admits (fmlookup (cf_tags (nf_axes f)) name) (tag_values e name))"

lemma axis_rejects_iff:
  assumes "case axis of None \<Rightarrow> True | Some vs \<Rightarrow> \<forall>v \<in> fset vs. test v \<longleftrightarrow> v = x"
  shows "axis_rejects axis test \<longleftrightarrow> \<not> axis_admits axis x"
  using assms by (auto simp: axis_rejects_def axis_admits_def split: option.splits)

lemma known_axis:
  assumes "case axis of None \<Rightarrow> True | Some vs \<Rightarrow> \<forall>v \<in> fset vs. value_of (bytes_of v) = v" "value_of (bytes_of x) = x"
  shows "axis_rejects axis (\<lambda>v. bytes_of v = bytes_of x) \<longleftrightarrow> \<not> axis_admits axis x"
proof (cases axis)
  case (Some vs)
  have eq: "v = x" if "v \<in> fset vs" "bytes_of v = bytes_of x" for v
  proof -
    have "value_of (bytes_of v) = v" using assms(1) Some that(1) by simp
    then show ?thesis unfolding that(2) assms(2) by (rule sym)
  qed
  have "(\<exists>v \<in> set (sorted_list_of_fset vs). bytes_of v = bytes_of x) \<longleftrightarrow> x |\<in>| vs"
  proof
    assume "\<exists>v \<in> set (sorted_list_of_fset vs). bytes_of v = bytes_of x"
    then obtain v where "v \<in> fset vs" "bytes_of v = bytes_of x" by auto
    then show "x |\<in>| vs" using eq by blast
  qed auto
  then show ?thesis by (simp add: Some axis_rejects_def axis_admits_def)
qed (simp add: axis_rejects_def axis_admits_def)

text \<open>C11: On the row of an event the borrowed matcher answers exactly as the NIP-01 matcher and the text
  search do on the event, whatever the index has proved already.\<close>

theorem row_match_agrees:
  assumes "match_event_contract m" "codec_knows nc e" "texts_ok e" "filter_known nc f" "index_proves indexed f e"
    "encode_event nc e = Done bytes"
  shows "\<exists>view. from_trusted bytes = Done view \<and>
    matches_prepared_filter_after_index nc view (prepare f) indexed = Done (m (nf_axes f) e \<and> search_hits (nf_search f) (ev_content e))"
proof -
  let ?a = "nf_axes f"
  have fits: "row_fits (ev_tags e) (length (ev_content e))" and row: "bytes = tagged_row nc e" using assms(6) by (simp_all add: encode_event_iff)
  note d = tagged_row_denotes[OF assms(2,3) fits, folded row]
  define view where v: "view = tags_view bytes (ev_tags e) (ev_content e)"
  have trusted: "from_trusted bytes = Done view" unfolding v
    using view_parse_row[OF d] by (auto simp: view_parse_def and_then_Done_iff split: if_splits)
  note fields = row_fields[OF d, folded v]
  have inv: "nc_id_of nc (nc_id_bytes nc (ev_id e)) = ev_id e" "nc_pubkey_of nc (nc_pubkey_bytes nc (ev_pubkey e)) = ev_pubkey e"
    using assms(2) by (simp_all add: codec_knows_def)
  have ids: "axis_rejects (cf_ids ?a) (\<lambda>v. nc_id_bytes nc v = nc_id_bytes nc (ev_id e)) \<longleftrightarrow> \<not> axis_admits (cf_ids ?a) (ev_id e)"
    by (rule known_axis[where bytes_of = "nc_id_bytes nc" and value_of = "nc_id_of nc", OF _ inv(1)]) (use assms(4) in \<open>simp add: filter_known_def\<close>)
  have authors: "axis_rejects (cf_authors ?a) (\<lambda>v. nc_pubkey_bytes nc v = nc_pubkey_bytes nc (ev_pubkey e)) \<longleftrightarrow> \<not> axis_admits (cf_authors ?a) (ev_pubkey e)"
    by (rule known_axis[where bytes_of = "nc_pubkey_bytes nc" and value_of = "nc_pubkey_of nc", OF _ inv(2)]) (use assms(4) in \<open>simp add: filter_known_def\<close>)
  have kinds: "axis_rejects (cf_kinds ?a) (\<lambda>v. v = ev_kind e) \<longleftrightarrow> \<not> axis_admits (cf_kinds ?a) (ev_kind e)"
    by (rule axis_rejects_iff) (simp split: option.split)
  have window: "(case cf_since ?a of None \<Rightarrow> False | Some since \<Rightarrow> ev_created_at e < since) \<or>
      (case cf_until ?a of None \<Rightarrow> False | Some until \<Rightarrow> ev_created_at e > until) \<longleftrightarrow> \<not> window_admits ?a (ev_created_at e)"
    by (auto simp: window_admits_def not_less split: option.splits)
  have wanted: "(\<exists>tag \<in> set (ev_tags e). \<exists>n v rest. tag = n # v # rest \<and> n = [name] \<and> prepared_matches w (atom_of v)) \<longleftrightarrow>
      tag_admits (fmlookup (cf_tags ?a) name) (tag_values e name)" if mem: "(name, w) \<in> set (pf_generic_tags (prepare f))" for name w
  proof -
    obtain vs where vs: "fmlookup (cf_tags ?a) name = Some vs" using mem by (auto simp: prepare_def set_sorted_list_of_fmap)
    show ?thesis unfolding prepared_matches_atom[OF mem vs] vs by (auto simp: tag_admits_def tag_values_def)
  qed
  have names: "(\<exists>w. (name, w) \<in> set (pf_generic_tags (prepare f))) \<longleftrightarrow> fmlookup (cf_tags ?a) name \<noteq> None" for name
    by (force simp: prepare_def set_sorted_list_of_fmap image_iff)
  have "(\<forall>(name, w) \<in> set (pf_generic_tags (prepare f)). indexed = IndexedTag name \<or>
      (\<exists>tag \<in> set (ev_tags e). \<exists>n v rest. tag = n # v # rest \<and> n = [name] \<and> prepared_matches w (atom_of v))) \<longleftrightarrow>
      (\<forall>name. tag_admits (fmlookup (cf_tags ?a) name) (tag_values e name))" (is "?l \<longleftrightarrow> ?r")
  proof
    assume l: ?l
    show ?r
    proof
      fix name
      show "tag_admits (fmlookup (cf_tags ?a) name) (tag_values e name)"
      proof (cases "fmlookup (cf_tags ?a) name = None \<or> indexed = IndexedTag name")
        case True
        then show ?thesis using assms(5) by (auto simp: tag_admits_def index_proves_def)
      next
        case False
        then obtain w where "(name, w) \<in> set (pf_generic_tags (prepare f))" using names by blast
        then show ?thesis using l wanted False by blast
      qed
    qed
  next
    assume ?r
    then show ?l using wanted by blast
  qed
  then have tags: "all_tags_match view indexed (pf_generic_tags (prepare f)) = Done (\<forall>name. tag_admits (fmlookup (cf_tags ?a) name) (tag_values e name))"
    using all_tags_match_row[OF d, of indexed "pf_generic_tags (prepare f)"] v by simp
  have search: "search_matches view (nf_search f) = Done (search_hits (nf_search f) (ev_content e))"
    using fields(6) by (auto simp: search_matches_def search_hits_def as_bytes_def Let_def split: option.split)
  have pf: "pf_filter (prepare f) = f" by (simp add: prepare_def)
  have "matches_prepared_filter_after_index nc view (prepare f) indexed = Done (m ?a e \<and> search_hits (nf_search f) (ev_content e))"
    unfolding matches_prepared_filter_after_index_def Let_def pf fields and_then.simps ids authors kinds window tags search
      match_event_contractD[OF assms(1)]
    using assms(5) by (auto simp: index_proves_def)
  then show ?thesis using trusted by blast
qed

text \<open>A filter on a hashtag with a text search, asked of the sample row.\<close>

definition sample_filter :: nostr_filter where
  "sample_filter =
     \<lparr>nf_axes = ConcreteFilter (Some {|1|}) None None (fmupd CHR ''t'' {|''nostr''|} fmempty) (Some 1600000000) None None, nf_search = Some ''HI''\<rparr>"

theorem row_match_agrees_witness:
  "\<exists>view. from_trusted (tagged_row hex_codec sample_row_event) = Done view \<and>
    matches_prepared_filter_after_index hex_codec view (prepare sample_filter) IndexedKind = Done True"
proof -
  have "filter_known hex_codec sample_filter" "index_proves IndexedKind sample_filter sample_row_event"
    by (simp_all add: filter_known_def index_proves_def sample_filter_def sample_row_event_def axis_admits_def)
  moreover have "nip01_match (nf_axes sample_filter) sample_row_event"
    by (simp add: nip01_match_def sample_filter_def sample_row_event_def axis_admits_def window_admits_def sorted_list_of_fmap_def)
  moreover have "search_hits (nf_search sample_filter) (ev_content sample_row_event)"
    by (simp add: search_hits_def sample_filter_def sample_row_event_def as_bytes_def eq_ignore_ascii_case_def ascii_lower_def windows_def)
  ultimately show ?thesis
    using row_match_agrees[OF nip01_match_contract sample_row_event_ok(1,2) _ _ sample_row_encodes, of sample_filter IndexedKind] by simp
qed

end
