(* ===== verification/Binary_Untrusted.thy ===== *)
theory Binary_Untrusted
  imports Binary_Rows
begin

text \<open>
  Readers of unvalidated bytes. A slice index out of range and a failing \<open>expect\<close> are panics of the
  model; no byte sequence reaches one in the readers of \<open>binary_event.rs\<close>, also when only the header of a
  row was checked (\<open>from_trusted\<close>). The signature gate of \<open>event_ops.rs\<close> reads rows the same way.
\<close>

lemma index_Panicked [simp]: "index_range bytes a b = Panicked \<longleftrightarrow> \<not> (a \<le> b \<and> b \<le> length bytes)" "index_at bytes i = Panicked \<longleftrightarrow> length bytes \<le> i"
  by (auto simp: index_range_def index_at_def get_range_def)

lemma read_no_panic [simp]: "read_u16 bytes offset \<noteq> Panicked" "read_u32 bytes offset \<noteq> Panicked" "read_u64 bytes offset \<noteq> Panicked"
  by (simp_all add: read_u16_def read_u32_def read_u64_def and_then_Panicked_iff)

lemma take_no_panic [simp]: "take_u32 bytes cursor \<noteq> Panicked" "take_u64 bytes cursor \<noteq> Panicked"
  by (simp_all add: take_u32_def take_u64_def and_then_Panicked_iff)

lemma expect_read: "expect (read_u16 bytes offset) = Panicked \<longleftrightarrow> length bytes < offset + 2" "expect (read_u32 bytes offset) = Panicked \<longleftrightarrow> length bytes < offset + 4"
  "expect (read_u64 bytes offset) = Panicked \<longleftrightarrow> length bytes < offset + 8"
  by (auto simp: expect_def read_u16_def read_u32_def read_u64_def get_range_def)

lemma checks_no_panic [simp]: "check_magic_and_version bytes magic version \<noteq> Panicked" "sig_state_of state \<noteq> Panicked"
  "checked_capacity a b c \<noteq> Panicked" "checked_local_len n \<noteq> Panicked"
  by (auto simp: check_magic_and_version_def sig_state_of_def checked_capacity_def checked_local_len_def and_then_Panicked_iff)

lemma decode_atom_no_panic:
  assumes "length descriptor = 4"
  shows "decode_atom descriptor arena \<noteq> Panicked"
proof -
  have "unat (drop_bit 28 (from_be_bytes descriptor :: u32) AND 3) \<le> 3" using word_and_le1[of "drop_bit 28 (from_be_bytes descriptor :: u32)" 3] by (simp add: word_le_nat_alt)
  then show ?thesis unfolding decode_atom_def Let_def take_leb128_u32_def using assms
    by (auto simp: and_then_Panicked_iff take_leb128_loop_no_panic split: if_splits)
qed

text \<open>What the header check establishes of a view.\<close>

definition view_bounded :: "stored_event_view \<Rightarrow> bool" where
  "view_bounded view \<longleftrightarrow>
     158 + 4 * unat (sv_tag_count view) \<le> length (sv_bytes view) \<and>
     sv_atom_refs_start view + 4 * unat (sv_atom_count view) \<le> length (sv_bytes view) \<and>
     sv_arena_start view + sv_arena_len view \<le> length (sv_bytes view) \<and>
     sv_content_start view + sv_content_len view \<le> length (sv_bytes view)"

lemma from_trusted_no_panic [simp]: "from_trusted bytes \<noteq> Panicked"
  unfolding from_trusted_def by (auto simp: and_then_Panicked_iff split: if_splits)

lemma from_trusted_bounded:
  assumes "from_trusted bytes = Done view"
  shows "view_bounded view" "sv_bytes view = bytes"
proof -
  from assms obtain eid pubkey sig created_at kind ends atoms arena content where
    fit: "sections_fit eid pubkey sig ends atoms arena content" and row: "bytes = row_bytes eid pubkey sig created_at kind ends atoms arena content"
    and v: "view = view_of bytes ends atoms arena content" by (rule from_trusted_Done)
  show "sv_bytes view = bytes" using v by simp
  have "length bytes = 158 + 4 * length ends + 4 * length atoms + length arena + length content"
    using fit row by (simp add: sections_fit_def row_bytes_def row_header_def EVENT_MAGIC_def)
  then show "view_bounded view" using laid_out_reads(6,7)[OF laid_outI[OF fit row]] v by (simp add: view_bounded_def)
qed

lemma view_reads_no_panic:
  assumes "view_bounded view"
  shows "i < unat (sv_tag_count view) \<Longrightarrow> tags_next view i previous \<noteq> Panicked" "elements_next view a b \<noteq> Some Panicked"
    "view_content view \<noteq> Panicked" "id_bytes view \<noteq> Panicked" "pubkey_bytes view \<noteq> Panicked" "signature_bytes view \<noteq> Panicked"
    "created_at_secs view \<noteq> Panicked" "kind_u16 view \<noteq> Panicked"
proof -
  note b = assms[unfolded view_bounded_def]
  have "158 + i * 4 + 4 \<le> length (sv_bytes view)" if "i < unat (sv_tag_count view)" for i using b that by linarith
  then show "tags_next view i previous \<noteq> Panicked" if "i < unat (sv_tag_count view)"
    using that by (force simp: tags_next_def and_then_Panicked_iff expect_read not_less)
  have desc: "length d = 4" if "get_range (sv_bytes view) k (k + 4) = Some d" for k and d :: "u8 list"
    using that by (auto simp: get_range_def split: if_splits)
  show "elements_next view a b \<noteq> Some Panicked"
    using b by (auto simp: elements_next_def and_then_Panicked_iff bind_eq_Some_conv usize_add_def decode_atom_no_panic dest!: desc split: if_splits)
qed (use assms in \<open>auto simp: view_bounded_def view_content_def id_bytes_def pubkey_bytes_def signature_bytes_def
    created_at_secs_def kind_u16_def and_then_Panicked_iff expect_read\<close>)

lemma collect_elements_no_panic:
  assumes "view_bounded view"
  shows "collect_elements view i e \<noteq> Panicked"
  using assms
proof (induction view i e rule: collect_elements.induct)
  case (1 view i e)
  then show ?case using view_reads_no_panic(2)[of view i e]
    by (subst collect_elements.simps) (auto simp: and_then_Panicked_iff split: option.split outcome.split)
qed

lemma collect_tags_no_panic:
  "view_bounded view \<Longrightarrow> \<forall>i \<in> set indices. i < unat (sv_tag_count view) \<Longrightarrow> collect_tags nc view indices previous \<noteq> Panicked"
  by (induction nc view indices previous rule: collect_tags.induct) (auto simp: and_then_Panicked_iff view_reads_no_panic collect_elements_no_panic)

lemma materialize_no_panic: "view_bounded view \<Longrightarrow> materialize_event nc view \<noteq> Panicked"
  by (auto simp: materialize_event_def and_then_Panicked_iff view_reads_no_panic collect_tags_no_panic)

lemma any_tag_no_panic:
  "view_bounded view \<Longrightarrow> \<forall>i \<in> set indices. i < unat (sv_tag_count view) \<Longrightarrow> any_tag_matches view name wanted indices previous \<noteq> Panicked"
proof (induction view name wanted indices previous rule: any_tag_matches.induct)
  case (2 view name wanted i indices previous)
  then show ?case using view_reads_no_panic[of view] by (auto simp: and_then_Panicked_iff split: option.splits if_splits)
qed simp

lemma all_tags_no_panic: "view_bounded view \<Longrightarrow> all_tags_match view indexed wanted \<noteq> Panicked"
  by (induction view indexed wanted rule: all_tags_match.induct) (auto simp: and_then_Panicked_iff any_tag_no_panic)

lemma matches_no_panic: "view_bounded view \<Longrightarrow> matches_prepared_filter_after_index nc view prepared indexed \<noteq> Panicked"
  by (auto simp: matches_prepared_filter_after_index_def Let_def and_then_Panicked_iff view_reads_no_panic all_tags_no_panic search_matches_def split: option.splits)

lemma check_atoms_no_panic:
  "view_bounded view \<Longrightarrow> \<forall>i \<in> set indices. i < unat (sv_atom_count view) \<Longrightarrow> check_atoms view arena indices cursor \<noteq> Panicked"
proof (induction view arena indices cursor rule: check_atoms.induct)
  case (2 view arena i indices cursor)
  then have "sv_atom_refs_start view + i * 4 + 4 \<le> length (sv_bytes view)" unfolding view_bounded_def by auto
  moreover have "decode_atom d arena \<noteq> Panicked" if "(index_range (sv_bytes view) k (k + 4) :: u8 list decoded) = Done d" for d k
    using that by (intro decode_atom_no_panic) (auto simp: index_range_def get_range_def split: if_splits)
  ultimately show ?case using 2 by (auto simp: and_then_Panicked_iff Let_def split: option.splits if_splits)
qed simp

lemma check_tag_ends_no_panic: "check_tag_ends view indices previous \<noteq> Panicked"
  by (induction view indices previous rule: check_tag_ends.induct) (auto simp: and_then_Panicked_iff)

lemma view_parse_no_panic: "view_parse bytes \<noteq> Panicked"
  using from_trusted_bounded[of bytes]
  by (auto simp: view_parse_def and_then_Panicked_iff check_tag_ends_no_panic check_atoms_no_panic view_bounded_def split: if_splits)

lemma decode_owners_no_panic: "decode_owners bytes cursor n \<noteq> Panicked"
proof -
  have "decode_owners_loop bytes n owners previous cursor \<noteq> Panicked" for owners previous
    by (induction bytes n owners previous cursor rule: decode_owners_loop.induct) (auto simp: and_then_Panicked_iff split: option.splits if_splits)
  then show ?thesis by (simp add: decode_owners_def)
qed

lemma decode_seen_no_panic: "decode_seen nc bytes n seen cursor \<noteq> Panicked"
  by (induction nc bytes n seen cursor rule: decode_seen.induct) (auto simp: and_then_Panicked_iff)

lemma decode_local_no_panic: "decode_local bytes \<noteq> Panicked"
  by (auto simp: decode_local_def and_then_Panicked_iff decode_owners_no_panic split: if_splits)

lemma decode_provenance_no_panic: "decode_provenance nc bytes \<noteq> Panicked"
  by (auto simp: decode_provenance_def and_then_Panicked_iff decode_owners_no_panic decode_seen_no_panic split: if_splits)

lemma decode_stored_no_panic: "decode_stored nc bytes \<noteq> Panicked"
proof -
  have "materialize_event nc view \<noteq> Panicked" if "view_parse raw = Done view" for raw view
    using that from_trusted_bounded[of raw] by (auto simp: view_parse_def and_then_Done_iff materialize_no_panic split: if_splits)
  then show ?thesis
    by (auto simp: decode_stored_def and_then_Panicked_iff view_parse_no_panic decode_provenance_no_panic checked_capacity_def usize_add_def
        bind_eq_Some_conv split: if_splits)
qed

section \<open>The signature gate\<close>

text \<open>\<open>event_ops.rs\<close>: what the verifier reads of a stored row, through its own database handle. A missing
  row is not known, a row that fails the header check is an error, and a signature the crate does not
  accept is the panic of \<open>expect\<close>.\<close>

definition known_signature_from_db ::
  "nostr_codec \<Rightarrow> string \<Rightarrow> (string, event_key) fmap \<Rightarrow> (event_key, u8 list) fmap \<Rightarrow> string \<Rightarrow> string option decoded" where
  "known_signature_from_db nc sentinel event_ids events eid =
     (case fmlookup event_ids eid of
        None \<Rightarrow> Done None
      | Some event_key \<Rightarrow>
          (case fmlookup events event_key of
             None \<Rightarrow> Done None
           | Some row \<Rightarrow>
               and_then (from_trusted row) (\<lambda>view.
               and_then (signature_bytes view) (\<lambda>raw.
               and_then (expect (ok_or InvalidSignature (nc_sig_of nc raw))) (\<lambda>sig.
               Done (if sig = sentinel then None else Some sig))))))"

text \<open>On a written row it answers with the signature of the event, unless that is the placeholder of a
  pending draft. It never panics with a crate that accepts every 64 bytes.\<close>

lemma known_signature_of_row:
  assumes "codec_knows nc e" "texts_ok e" "encode_event nc e = Done row" "fmlookup event_ids eid = Some k" "fmlookup events k = Some row"
  shows "known_signature_from_db nc sentinel event_ids events eid = Done (if ev_sig e = sentinel then None else Some (ev_sig e))"
proof -
  have fits: "row_fits (ev_tags e) (length (ev_content e))" and row: "row = tagged_row nc e" using assms(3) by (simp_all add: encode_event_iff)
  note d = tagged_row_denotes[OF assms(1,2) fits, folded row]
  have "from_trusted row = Done (tags_view row (ev_tags e) (ev_content e))"
    using view_parse_row[OF d] by (auto simp: view_parse_def and_then_Done_iff split: if_splits)
  then show ?thesis using row_fields(3)[OF d] assms(1,4,5) by (simp add: known_signature_from_db_def expect_def codec_knows_def)
qed

lemma known_signature_no_panic:
  assumes "\<And>raw. length raw = 64 \<Longrightarrow> nc_sig_of nc raw \<noteq> None"
  shows "known_signature_from_db nc sentinel event_ids events eid \<noteq> Panicked"
proof -
  have "expect (ok_or InvalidSignature (nc_sig_of nc raw)) \<noteq> Panicked" if "signature_bytes view = Done raw" for view raw
  proof -
    have "length raw = 64" using that by (auto simp: signature_bytes_def index_range_def get_range_def split: if_splits)
    then show ?thesis using assms[of raw] by (auto simp: expect_def)
  qed
  then show ?thesis using from_trusted_bounded(1)
    by (auto simp: known_signature_from_db_def and_then_Panicked_iff view_reads_no_panic split: option.splits)
qed

section \<open>No reader panics\<close>

text \<open>C12: No byte sequence makes a reader of the store panic. This holds of the validating reader, of the
  sidecar and displaced-row decoders, and of the query path, which checks only the header of a row before it
  matches or decodes it: corrupt tag ends, atom descriptors or content come back as typed errors.\<close>

theorem readers_never_panic:
  "view_parse bytes \<noteq> Panicked \<and> decode_local bytes \<noteq> Panicked \<and> decode_provenance nc bytes \<noteq> Panicked \<and> decode_stored nc bytes \<noteq> Panicked \<and>
   and_then (from_trusted bytes) (materialize_event nc) \<noteq> Panicked \<and>
   and_then (from_trusted bytes) (\<lambda>view. matches_prepared_filter_after_index nc view (prepare f) indexed) \<noteq> Panicked"
  using from_trusted_bounded(1)[of bytes]
  by (auto simp: view_parse_no_panic decode_local_no_panic decode_provenance_no_panic decode_stored_no_panic and_then_Panicked_iff
      materialize_no_panic matches_no_panic)

end
