(* ===== verification/Spec2Isabelle.thy ===== *)
theory Spec2Isabelle
  imports Compile_Plan Keepalive Request_Replacements Attribution Store_Runs Binary_Match Binary_Untrusted
begin

text \<open>
  A verification library for NMP, an embeddable Nostr client engine (\<open>src/crates\<close>).

  \<^bold>\<open>The program.\<close> An application declares queries. They resolve to demand atoms, a filter with its
  routing. The router (\<open>nmp-router\<close>) compiles the atoms into a relay plan: it picks relays, merges the
  filters of one session, gives each merged filter a wire token, and diffs the plan with the previous one.
  The engine (\<open>nmp-engine\<close>) sends the requests through the transport (\<open>nmp-transport\<close>), tracks every
  attempt, and decides what a completion of a subscription proves. The store (\<open>nmp-store\<close>) admits the
  events that arrive, keeps deletion facts and coverage rows, and persists everything in \<open>redb\<close> tables.

  \<^bold>\<open>Representation.\<close> Structs are records, enums are datatypes, \<open>BTreeSet\<close> and \<open>BTreeMap\<close> are \<open>fset\<close> and
  \<open>fmap\<close> read in key order, \<open>Vec\<close> is \<open>list\<close>, machine integers are words, and a Rust string is the list of
  its bytes as characters. A panic or a failed transaction is \<open>None\<close> in the router, the engine and the store;
  the codecs tell typed errors from panics (\<open>outcome\<close> in \<open>Byte_Codec\<close>). Code of other crates is a
  parameter: the matcher of \<open>nostr\<close> with \<open>match_event_contract\<close>, its identity types with \<open>codec_knows\<close> and
  \<open>codec_exact\<close>, its tag accessors and the row keys as records of functions.

  \<^bold>\<open>Grammar and prelude.\<close> \<open>Nmp_Prelude\<close> holds the containers, orders and shared lemmas. \<open>Grammar_Filter\<close>
  is \<open>nmp-grammar/src/concrete.rs\<close> and \<open>descriptor.rs\<close>; \<open>Nostr_Event\<close> the event value and the matching
  contract.

  \<^bold>\<open>Router.\<close>
  \<^item> \<open>Filter_Component\<close> (\<open>component.rs\<close>), \<open>Coalesce\<close> (\<open>coalesce.rs\<close>): the structural union, the rule
    registry, both dedup passes and the incremental merge loop. \<open>Coalesce_Props\<close>, \<open>Coalesce_Cost\<close> and
    \<open>Coalesce_Semantics\<close> show that coalesced filters match exactly the demanded events, that claims follow
    containment, that the incremental loop equals the restarting scan, reaches a fixed point and makes at
    most \<open>4 * n * n\<close> pair attempts, and that a rule registered without a widening proof is never
    applied. The locales \<open>widening_rules\<close> and \<open>exact_rules\<close> are the contract of a
    registry, interpreted on the shipped one.
  \<^item> \<open>Routing_Facts\<close> (\<open>facts.rs\<close>, \<open>budget.rs\<close>), \<open>Solver\<close> and \<open>Solver_Props\<close> (\<open>solver.rs\<close>): the greedy
    cover respects its cap, reaches its target unless the cap was hit, reports shortfalls exactly and ends
    within a bounded number of rounds; what \<open>FewerCandidatesThanK\<close> counts is made precise.
  \<^item> \<open>Route\<close> (\<open>route.rs\<close>), \<open>Relay_Plan\<close> (\<open>plan.rs\<close>), \<open>Wire_Id\<close> and \<open>Wire_Id_Props\<close> (\<open>wire_id.rs\<close>):
    tokens are injective and never recycled, unchanged filters keep theirs, and the wire delta is exact. The
    locale \<open>token_mint\<close> is the contract of the counter.
  \<^item> \<open>Compile\<close>, \<open>Compile_Props\<close>, \<open>Compile_Plan\<close> (\<open>compile_demand\<close> of \<open>router.rs\<close>): the release assertion
    never fires, both budgets hold, every request stems from a declared atom, and explicit atoms are served
    or reported as limited.

  \<^bold>\<open>Engine.\<close>
  \<^item> \<open>Owner_Index\<close> (\<open>core/owner_index.rs\<close>) with the locale \<open>mirrored_index\<close>; its clients
    \<open>Request_Replacements\<close> and \<open>Request_Attempts\<close> (\<open>core/request_attempt.rs\<close>): reverse indexes are exact in
    every reachable state, no operation panics within its contract, parked retries become due.
  \<^item> \<open>Attribution\<close> (\<open>core/attribution.rs\<close> and its submodules): what a completion credits, what a failed
    commit forfeits, and that clearing a session touches no other session.

  \<^bold>\<open>Store.\<close>
  \<^item> \<open>Address_Key\<close> (\<open>address_key.rs\<close>) and \<open>Coverage_Rows\<close> (\<open>coverage.rs\<close>): injective table keys;
    intervals never claim unproven time, also after a collection pass.
  \<^item> \<open>Store_Types\<close>, \<open>Canonical\<close>, \<open>Mutation\<close>, \<open>Ingest\<close> (\<open>redb_store/canonical.rs\<close>, \<open>mutation.rs\<close>,
    \<open>ingest.rs\<close>, \<open>event_ops.rs\<close>): the tables and every governed write on them. \<open>Store_Spec\<close> is the abstract
    store; \<open>Canonical_Props\<close>, \<open>Store_Props\<close>, \<open>Store_Refinement\<close> and \<open>Store_Lifecycle\<close> are the invariant
    and the refinement; \<open>Store_Runs\<close> states the theorems on arbitrary runs: refinement on every branch,
    deleted events stay deleted, rows of other authors are safe, batches are sequential, expiry and
    collection are exact, and collection fails exactly on an inverted coverage row around a victim.
  \<^item> \<open>Byte_Codec\<close>, \<open>Binary_Event\<close> (\<open>binary_event.rs\<close>): the row formats and the matcher that runs on a row.
    \<open>Binary_Atoms\<close>, \<open>Binary_Event_Props\<close>, \<open>Binary_Rows\<close> and \<open>Binary_Match\<close>: rows round trip, an accepted
    row is the one the encoder writes, and the matcher on a row agrees with the matcher on the event.
    \<open>Binary_Untrusted\<close>: no byte sequence makes a reader panic; the signature gate of \<open>event_ops.rs\<close>.

  \<^bold>\<open>Transport.\<close> \<open>Backoff\<close> (\<open>backoff.rs\<close>) and \<open>Keepalive\<close> (\<open>keepalive.rs\<close>): the closed form of the
  reconnect schedule, a connection is declared dead only after an unanswered ping, and silence is detected.

  \<^bold>\<open>Bounds.\<close> Every loop is a total function with a termination measure; no definition takes fuel. Store
  theorems assume that the key allocators have room for the events delivered, and those on collection that
  no coverage row is inverted, except the one that says what happens then. The canonical form of a
  row is stated for rows below \<open>2 ^ 30\<close> bytes, the range of an arena offset.

  \<^bold>\<open>Not modelled.\<close> Sockets, threads and callbacks (connection pool, runtime); cryptography and signers; the
  resolver graph; incremental admission and withdrawal of the router; the posting runs and query plans; the
  publish queue beyond the rows that ingest touches; the \<open>redb\<close> schema, opening and commit; the event loop
  of the engine; protocol vocabularies, the facade and the test relays. The theorems on the store speak of
  row values; the codec theorems relate these values to their bytes.
\<close>

end
